(* ===== verification/Prelude.thy ===== *)
theory Prelude
  imports Main "HOL-Library.Word"
begin

text \<open>
  Shared vocabulary of the development.

  \<^item> The machine types of the C sources: \<open>size_t\<close>, \<open>loff_t\<close> and \<open>unsigned long\<close> are 64-bit
    words, \<open>uint32_t\<close> and \<open>unsigned int\<close> 32-bit words, \<open>uint8_t\<close> 8-bit words; a byte of a
    buffer is a \<^typ>\<open>char\<close>.
  \<^item> Undefined behaviour of C as a value: an operation that would dereference a null pointer,
    leave a block or use freed memory returns \<open>Inl\<close> of a \<open>fault\<close>, and \<open>andthen\<close> sequences
    operations that may fault. Every memory-safety theorem says that a definition returns \<open>Inr\<close>.
  \<^item> Generic lemmas on lists and words that the component theories share, and the collections
    \<open>fault_simps\<close> (evaluation of fault-returning code) and \<open>heap_simps\<close> (effects on the heap).
\<close>

named_theorems fault_simps \<open>evaluation rules for code that may fault\<close>
named_theorems heap_simps \<open>what the memory operations do to the heap\<close>

type_synonym size_t = "64 word"
type_synonym loff_t = "64 word"
type_synonym u32 = "32 word"
type_synonym u8 = "8 word"
type_synonym bytes = "char list"

abbreviation newline :: char where "newline \<equiv> CHR 0x0A"
abbreviation nul :: char where "nul \<equiv> CHR 0x00"

subsection \<open>Undefined behaviour as a value\<close>

datatype fault = NullDeref | OutOfBounds | UseAfterFree | BadFree | IntOverflow

type_synonym 'a res = "fault + 'a"

definition andthen :: "'e + 'a \<Rightarrow> ('a \<Rightarrow> 'e + 'b) \<Rightarrow> 'e + 'b" where
  "andthen r f = (case r of Inl e \<Rightarrow> Inl e | Inr x \<Rightarrow> f x)"

lemma andthen_Inl [simp, fault_simps]: "andthen (Inl e) f = Inl e"
  by (simp add: andthen_def)

lemma andthen_Inr [simp, fault_simps]: "andthen (Inr x) f = f x"
  by (simp add: andthen_def)

lemma andthen_eq_Inr_iff: "andthen r f = Inr y \<longleftrightarrow> (\<exists>x. r = Inr x \<and> f x = Inr y)"
  by (cases r) auto

lemma andthen_assoc: "andthen (andthen r f) g = andthen r (\<lambda>x. andthen (f x) g)"
  by (cases r) auto

lemma andthen_split:
  "P (andthen r f) \<longleftrightarrow> (\<forall>e. r = Inl e \<longrightarrow> P (Inl e)) \<and> (\<forall>x. r = Inr x \<longrightarrow> P (f x))"
  by (cases r) auto

subsection \<open>Lists\<close>

text \<open>Index arithmetic of an array used as a ring.\<close>

lemma mod_add_small:
  "k < n \<Longrightarrow> j < n \<Longrightarrow> (k + j) mod n = (if k + j < n then k + j else k + j - n)" for k j n :: nat
  by (simp add: mod_if)

lemma mod_add_inj_small:
  "k < n \<Longrightarrow> i < n \<Longrightarrow> j < n \<Longrightarrow> (k + j) mod n = (k + i) mod n \<longleftrightarrow> j = i" for k i j n :: nat
  by (auto simp: mod_add_small split: if_splits)

text \<open>Updating slot \<open>j\<close> counted from the base \<open>k\<close> of the ring.\<close>

lemma rotate_update_nth:
  assumes "k < length xs" "j < length xs"
  shows "rotate k (xs[(k + j) mod length xs := v]) = (rotate k xs)[j := v]"
proof (rule nth_equalityI)
  fix i
  assume "i < length (rotate k (xs[(k + j) mod length xs := v]))"
  then have "i < length xs" by simp
  moreover from this have "(k + i) mod length xs < length xs" by (intro mod_less_divisor) linarith
  moreover note assms
  ultimately show "rotate k (xs[(k + j) mod length xs := v]) ! i = (rotate k xs)[j := v] ! i"
    by (simp add: nth_rotate nth_list_update mod_add_inj_small)
qed simp

text \<open>Moving the base of the ring by one slot.\<close>

lemma rotate_Suc_mod:
  assumes "k < length xs"
  shows "rotate (Suc k mod length xs) xs = tl (rotate k xs) @ [hd (rotate k xs)]"
proof -
  have "rotate (Suc k mod length xs) xs = rotate1 (rotate k xs)"
    by (metis rotate_conv_mod rotate_Suc)
  moreover have "rotate k xs \<noteq> []" using assms by auto
  ultimately show ?thesis by (simp add: rotate1_hd_tl)
qed

subsection \<open>Maps\<close>

lemma restrict_map_UNIV [simp]: "m |` UNIV = m"
  by (simp add: restrict_map_def)

text \<open>Two heaps that agree outside the blocks a component owns.\<close>

lemma restrict_eq_outside:
  "m' |` (- F') = m |` (- F) \<Longrightarrow> a \<notin> F \<Longrightarrow> a \<notin> F' \<Longrightarrow> m' a = m a"
  by (metis Compl_iff restrict_in)

lemma frame_keep:
  assumes "m' |` (- F') = m |` (- F)" "a \<notin> F" "m a = Some x"
  shows "a \<notin> F'" "m' a = Some x"
  using assms by (metis Compl_iff domI domIff restrict_in restrict_out)+

text \<open>A component's frame condition, widened by blocks it does not own.\<close>

lemma frame_union:
  assumes "m' |` (- F') = m |` (- F)" "G \<inter> F = {}" "G \<subseteq> dom m"
  shows "m' |` (- (F' \<union> G)) = m |` (- (F \<union> G))" "G \<inter> F' = {}" "\<And>a. a \<in> G \<Longrightarrow> m' a = m a"
    "G \<subseteq> dom m'"
proof -
  have keep: "a \<notin> F' \<and> m' a = m a" if a: "a \<in> G" for a
  proof -
    obtain x where "m a = Some x" using a assms(3) by blast
    moreover have "a \<notin> F" using a assms(2) by blast
    ultimately show ?thesis using frame_keep [OF assms(1)] by metis
  qed
  then show "G \<inter> F' = {}" "\<And>a. a \<in> G \<Longrightarrow> m' a = m a" by blast+
  show "G \<subseteq> dom m'" using keep assms(3) by (metis domIff subset_iff)
  show "m' |` (- (F' \<union> G)) = m |` (- (F \<union> G))"
    using assms(1) by (metis Compl_Un restrict_restrict)
qed

end
