(* ===== verification/CMemory.thy ===== *)
theory CMemory
  imports Prelude
begin

text \<open>
  The memory the C code works on, and the wrappers of
  \<^verbatim>\<open>aesd-char-driver/common.c\<close> over it.

  A heap is a finite map from block addresses to the bytes of the block. An allocation takes a
  fresh address, so no two live blocks overlap, and fails (\<open>NULL\<close>) when the environment refuses
  it: the field \<open>grant\<close> decides for every call of the allocator whether memory can be had, so a
  theorem over all heaps covers every pattern of allocation failures. The bytes of a fresh block
  are indeterminate (\<open>junk\<close>). The allocator never hands out more than \<open>PTRDIFF_MAX\<close> bytes in
  total, the size of the kernel's (or a process's) half of a 64-bit address space.
  Freeing an address that is not live, touching one, or leaving a block is a \<^typ>\<open>fault\<close>.
\<close>

datatype ptr = NULL | Ptr nat

record heap =
  blocks :: "nat \<Rightarrow> bytes option"
  brk :: nat
  grant :: "nat \<Rightarrow> bool"
  junk :: "nat \<Rightarrow> nat \<Rightarrow> char"
  used :: nat

definition PTRDIFF_MAX :: nat where "PTRDIFF_MAX = 2 ^ 63 - 1"

definition kmalloc :: "size_t \<Rightarrow> heap \<Rightarrow> ptr \<times> heap" where
  "kmalloc n h =
     (let k = brk h; h1 = h\<lparr>brk := Suc k\<rparr> in
      if grant h k \<and> used h + unat n \<le> PTRDIFF_MAX
      then (Ptr k, h1\<lparr>blocks := (blocks h)(k \<mapsto> map (junk h k) [0..<unat n]),
                      used := used h + unat n\<rparr>)
      else (NULL, h1))"

definition kfree :: "ptr \<Rightarrow> heap \<Rightarrow> heap res" where
  "kfree p h =
     (case p of NULL \<Rightarrow> Inr h
      | Ptr a \<Rightarrow> (case blocks h a of None \<Rightarrow> Inl BadFree
          | Some bs \<Rightarrow> Inr (h\<lparr>blocks := (blocks h)(a := None), used := used h - length bs\<rparr>)))"

text \<open>Reading and writing \<open>n\<close> bytes at an offset of a block.\<close>

definition load :: "ptr \<Rightarrow> nat \<Rightarrow> nat \<Rightarrow> heap \<Rightarrow> bytes res" where
  "load p off n h =
     (case p of NULL \<Rightarrow> Inl NullDeref
      | Ptr a \<Rightarrow> (case blocks h a of None \<Rightarrow> Inl UseAfterFree
          | Some bs \<Rightarrow> if off + n \<le> length bs then Inr (take n (drop off bs)) else Inl OutOfBounds))"

definition store :: "ptr \<Rightarrow> nat \<Rightarrow> bytes \<Rightarrow> heap \<Rightarrow> heap res" where
  "store p off xs h =
     (case p of NULL \<Rightarrow> Inl NullDeref
      | Ptr a \<Rightarrow> (case blocks h a of None \<Rightarrow> Inl UseAfterFree
          | Some bs \<Rightarrow> if off + length xs \<le> length bs
              then Inr (h\<lparr>blocks := (blocks h)(a \<mapsto> take off bs @ xs @ drop (off + length xs) bs)\<rparr>)
              else Inl OutOfBounds))"

text \<open>\<open>memcpy(dest + doff, src + soff, n)\<close>.\<close>

definition memcpy :: "ptr \<Rightarrow> nat \<Rightarrow> ptr \<Rightarrow> nat \<Rightarrow> size_t \<Rightarrow> heap \<Rightarrow> heap res" where
  "memcpy dest doff src soff n h =
     andthen (load src soff (unat n) h) (\<lambda>xs. store dest doff xs h)"

definition memset :: "ptr \<Rightarrow> char \<Rightarrow> size_t \<Rightarrow> heap \<Rightarrow> heap res" where
  "memset s c n h = store s 0 (replicate (unat n) c) h"

subsection \<open>The wrappers of common.c, compiled for the kernel\<close>

definition my_memcpy :: "ptr \<Rightarrow> ptr \<Rightarrow> size_t \<Rightarrow> heap \<Rightarrow> heap res" where
  "my_memcpy dest src n h = memcpy dest 0 src 0 n h"

definition my_malloc :: "size_t \<Rightarrow> heap \<Rightarrow> ptr \<times> heap" where
  "my_malloc n h = kmalloc n h"

definition my_free :: "ptr \<Rightarrow> heap \<Rightarrow> heap res" where
  "my_free p h = kfree p h"

definition my_memset :: "ptr \<Rightarrow> char \<Rightarrow> size_t \<Rightarrow> heap \<Rightarrow> heap res" where
  "my_memset s c n h = memset s c n h"

subsection \<open>The allocator of the C library\<close>

text \<open>
  The programs outside the kernel use \<open>malloc\<close>, \<open>free\<close> and \<open>calloc\<close> on a heap of their own, with
  the same contract. \<open>malloc(0)\<close> is a block of no bytes, as in glibc. \<open>calloc\<close> clears the block
  and fails when the product of its arguments does not fit in \<open>size_t\<close>.
\<close>

definition malloc :: "size_t \<Rightarrow> heap \<Rightarrow> ptr \<times> heap" where
  "malloc n h = kmalloc n h"

definition free :: "ptr \<Rightarrow> heap \<Rightarrow> heap res" where
  "free p h = kfree p h"

definition calloc :: "size_t \<Rightarrow> size_t \<Rightarrow> heap \<Rightarrow> ptr \<times> heap" where
  "calloc nmemb sz h =
     (if unat nmemb * unat sz < 2 ^ 64
      then kmalloc (nmemb * sz) (h\<lparr>junk := (junk h)(brk h := (\<lambda>_. nul))\<rparr>)
      else (NULL, h))"

subsection \<open>Well-formed heaps\<close>

definition blocksum :: "(nat \<Rightarrow> bytes option) \<Rightarrow> nat" where
  "blocksum m = (\<Sum>a\<in>dom m. length (the (m a)))"

definition heap_ok :: "heap \<Rightarrow> bool" where
  "heap_ok h \<longleftrightarrow> finite (dom (blocks h)) \<and> (\<forall>a\<in>dom (blocks h). a < brk h) \<and>
     used h = blocksum (blocks h) \<and> used h \<le> PTRDIFF_MAX"

definition empty_heap :: "(nat \<Rightarrow> bool) \<Rightarrow> heap" where
  "empty_heap g = \<lparr>blocks = Map.empty, brk = 0, grant = g, junk = (\<lambda>_ _. nul), used = 0\<rparr>"

lemma heap_ok_empty: "heap_ok (empty_heap g)"
  by (simp add: heap_ok_def empty_heap_def blocksum_def)

lemma blocksum_empty [simp]: "blocksum Map.empty = 0"
  by (simp add: blocksum_def)

lemma blocksum_insert:
  assumes "finite (dom m)" "m a = None"
  shows "blocksum (m(a \<mapsto> bs)) = length bs + blocksum m"
proof -
  have a: "a \<notin> dom m" using assms(2) by auto
  then have "(\<Sum>x\<in>dom m. length (the ((m(a \<mapsto> bs)) x))) = blocksum m"
    unfolding blocksum_def by (intro sum.cong) auto
  with a assms(1) show ?thesis by (simp add: blocksum_def)
qed

lemma blocksum_split:
  assumes "finite (dom m)" "m a = Some bs"
  shows "blocksum m = length bs + blocksum (m(a := None))"
proof -
  have "finite (dom (m(a := None)))" using assms(1) by simp
  from blocksum_insert [OF this, of a bs] assms(2) show ?thesis
    by (simp add: fun_upd_idem)
qed

lemma blocksum_replace:
  assumes "finite (dom m)" "m a = Some bs" "length cs = length bs"
  shows "blocksum (m(a \<mapsto> cs)) = blocksum m"
  using assms blocksum_split [of m a bs] blocksum_insert [of "m(a := None)" a cs] by simp

text \<open>Distinct live blocks together fit in the heap.\<close>

lemma blocksum_list:
  assumes "finite (dom m)" "distinct as" "set as \<subseteq> dom m"
  shows "sum_list (map (\<lambda>a. length (the (m a))) as) \<le> blocksum m"
proof -
  have "sum_list (map (\<lambda>a. length (the (m a))) as) = (\<Sum>a\<in>set as. length (the (m a)))"
    using assms(2) by (simp add: sum_list_distinct_conv_sum_set)
  also have "\<dots> \<le> blocksum m"
    unfolding blocksum_def using assms(1,3) by (intro sum_mono2) auto
  finally show ?thesis .
qed

lemma heap_ok_list:
  "heap_ok h \<Longrightarrow> distinct as \<Longrightarrow> set as \<subseteq> dom (blocks h) \<Longrightarrow>
   sum_list (map (\<lambda>a. length (the (blocks h a))) as) \<le> PTRDIFF_MAX"
  using blocksum_list [of "blocks h" as] by (auto simp: heap_ok_def)

lemma heap_ok_block: "heap_ok h \<Longrightarrow> blocks h a = Some bs \<Longrightarrow> length bs \<le> PTRDIFF_MAX"
  using heap_ok_list [of h "[a]"] by auto

lemma PTRDIFF_MAX_bound: "n \<le> PTRDIFF_MAX \<Longrightarrow> n < 2 ^ 64" "n \<le> PTRDIFF_MAX \<Longrightarrow> n < 2 ^ 63"
  by (simp_all add: PTRDIFF_MAX_def)

lemma unat_of_nat_size: "n \<le> PTRDIFF_MAX \<Longrightarrow> unat (of_nat n :: size_t) = n"
  by (simp add: unat_of_nat PTRDIFF_MAX_def)

lemma heap_ok_fresh: "heap_ok h \<Longrightarrow> blocks h (brk h) = None"
  unfolding heap_ok_def by (metis domIff less_irrefl)

subsection \<open>What the operations do\<close>

lemma kmalloc_NULL:
  "kmalloc n h = (NULL, h') \<Longrightarrow> heap_ok h \<Longrightarrow> heap_ok h' \<and> blocks h' = blocks h \<and> grant h' = grant h"
  by (auto simp: kmalloc_def Let_def heap_ok_def less_Suc_eq split: if_splits)

lemma kmalloc_Ptr:
  assumes "kmalloc n h = (Ptr a, h')" "heap_ok h"
  shows "heap_ok h'" "grant h' = grant h" "a = brk h" "blocks h a = None"
    "\<exists>bs. blocks h' = (blocks h)(a \<mapsto> bs) \<and> length bs = unat n"
proof -
  from assms(1) have a: "a = brk h" and used: "used h + unat n \<le> PTRDIFF_MAX"
    and h': "h' = h\<lparr>brk := Suc a, blocks := (blocks h)(a \<mapsto> map (junk h a) [0..<unat n]),
      used := used h + unat n\<rparr>"
    by (auto simp: kmalloc_def Let_def split: if_splits)
  from a assms(2) show none: "blocks h a = None" by (simp add: heap_ok_fresh)
  show "heap_ok h'"
    using assms(2) none a used by (auto simp: heap_ok_def h' blocksum_insert less_SucI)
  show "a = brk h" by (rule a)
  show "grant h' = grant h" "\<exists>bs. blocks h' = (blocks h)(a \<mapsto> bs) \<and> length bs = unat n"
    by (auto simp: h')
qed

lemma kfree_NULL [simp, heap_simps]: "kfree NULL h = Inr h"
  by (simp add: kfree_def)

lemma kfree_Ptr:
  assumes "heap_ok h" "blocks h a = Some bs"
  obtains h' where "kfree (Ptr a) h = Inr h'" "heap_ok h'" "blocks h' = (blocks h)(a := None)"
    "grant h' = grant h"
proof
  let ?h = "h\<lparr>blocks := (blocks h)(a := None), used := used h - length bs\<rparr>"
  show "kfree (Ptr a) h = Inr ?h" using assms(2) by (simp add: kfree_def)
  show "heap_ok ?h" using assms blocksum_split [of "blocks h" a bs]
    by (auto simp: heap_ok_def)
qed simp_all

lemma kfree_brk: "kfree p h = Inr h' \<Longrightarrow> brk h' = brk h"
  by (auto simp: kfree_def split: ptr.splits option.splits)

lemma store_brk: "store p off xs h = Inr h' \<Longrightarrow> brk h' = brk h"
  by (auto simp: store_def split: ptr.splits option.splits if_splits)

lemma load_block [heap_simps]:
  "blocks h a = Some bs \<Longrightarrow> off + n \<le> length bs \<Longrightarrow> load (Ptr a) off n h = Inr (take n (drop off bs))"
  by (simp add: load_def)

lemma store_block:
  assumes "heap_ok h" "blocks h a = Some bs" "off + length xs \<le> length bs"
  obtains h' where "store (Ptr a) off xs h = Inr h'" "heap_ok h'" "grant h' = grant h"
    "blocks h' = (blocks h)(a \<mapsto> take off bs @ xs @ drop (off + length xs) bs)"
proof
  let ?h = "h\<lparr>blocks := (blocks h)(a \<mapsto> take off bs @ xs @ drop (off + length xs) bs)\<rparr>"
  show "store (Ptr a) off xs h = Inr ?h" using assms by (simp add: store_def)
  have "length (take off bs @ xs @ drop (off + length xs) bs) = length bs"
    using assms(3) by simp
  then have "blocksum ((blocks h)(a \<mapsto> take off bs @ xs @ drop (off + length xs) bs))
      = blocksum (blocks h)"
    using assms(1,2) by (intro blocksum_replace) (auto simp: heap_ok_def)
  then show "heap_ok ?h" using assms(1,2) by (auto simp: heap_ok_def)
qed simp_all

text \<open>Copying a prefix of one block over a part of another.\<close>

lemma memcpy_blocks:
  assumes "heap_ok h" "blocks h d = Some ds" "blocks h s = Some bs"
    and "unat n \<le> length bs" "doff + unat n \<le> length ds"
  obtains h' where "memcpy (Ptr d) doff (Ptr s) 0 n h = Inr h'" "heap_ok h'" "grant h' = grant h"
    "blocks h' = (blocks h)(d \<mapsto> take doff ds @ take (unat n) bs @ drop (doff + unat n) ds)"
proof -
  have ld: "load (Ptr s) 0 (unat n) h = Inr (take (unat n) bs)"
    using assms by (simp add: load_block)
  have len: "length (take (unat n) bs) = unat n" using assms(4) by simp
  from store_block [OF assms(1,2), of doff "take (unat n) bs"] assms(5) len
  obtain h' where "store (Ptr d) doff (take (unat n) bs) h = Inr h'" "heap_ok h'"
    "grant h' = grant h"
    "blocks h' = (blocks h)(d \<mapsto> take doff ds @ take (unat n) bs @ drop (doff + unat n) ds)"
    by (metis (no_types, lifting))
  with ld that show thesis by (simp add: memcpy_def)
qed

text \<open>
  Allocating a block and filling it from another one: the idiom of both buffers.
  The fresh block is never one that was live before.
\<close>

lemma kmalloc_memcpy:
  assumes "heap_ok h" "blocks h s = Some bs" "unat n \<le> length bs" "kmalloc n h = (Ptr a, h1)"
  obtains h2 where "memcpy (Ptr a) 0 (Ptr s) 0 n h1 = Inr h2" "heap_ok h2" "grant h2 = grant h"
    "blocks h2 = (blocks h)(a \<mapsto> take (unat n) bs)" "blocks h a = None"
proof -
  from kmalloc_Ptr [OF assms(4,1)] obtain ds where h1: "heap_ok h1" "grant h1 = grant h"
    "blocks h a = None" "blocks h1 = (blocks h)(a \<mapsto> ds)" "length ds = unat n" by auto
  moreover have "blocks h1 s = Some bs" using h1 assms(2) by auto
  ultimately show thesis
    using memcpy_blocks [of h1 a ds s bs n 0] assms(3) that by auto
qed

lemma malloc_eq: "malloc = kmalloc" and free_eq: "free = kfree"
  by (simp_all add: fun_eq_iff malloc_def free_def)

lemma calloc_Ptr:
  assumes "calloc nmemb sz h = (Ptr a, h')" "heap_ok h"
  shows "heap_ok h'" "grant h' = grant h" "blocks h a = None"
    "blocks h' = (blocks h)(a \<mapsto> replicate (unat (nmemb * sz)) nul)"
proof -
  let ?h = "h\<lparr>junk := (junk h)(brk h := (\<lambda>_. nul))\<rparr>"
  have ok: "heap_ok ?h" using assms(2) by (simp add: heap_ok_def)
  have al: "kmalloc (nmemb * sz) ?h = (Ptr a, h')"
    using assms(1) by (simp add: calloc_def split: if_splits)
  from kmalloc_Ptr [OF al ok] show "heap_ok h'" "grant h' = grant h" "blocks h a = None" by simp_all
  from al show "blocks h' = (blocks h)(a \<mapsto> replicate (unat (nmemb * sz)) nul)"
    by (auto simp: kmalloc_def Let_def map_replicate_const split: if_splits)
qed

lemma calloc_NULL:
  "calloc nmemb sz h = (NULL, h') \<Longrightarrow> heap_ok h \<Longrightarrow> heap_ok h' \<and> blocks h' = blocks h \<and> grant h' = grant h"
  by (auto simp: calloc_def kmalloc_def Let_def heap_ok_def less_Suc_eq split: if_splits)

subsection \<open>A heap with one block\<close>

text \<open>For concrete runs: one block at address 0, and an allocator that grants what \<open>g\<close> says.\<close>

definition block_heap :: "bytes \<Rightarrow> (nat \<Rightarrow> bool) \<Rightarrow> heap" where
  "block_heap xs g = \<lparr>blocks = [0 \<mapsto> xs], brk = 1, grant = g, junk = (\<lambda>_ _. nul), used = length xs\<rparr>"

lemma block_heap_ok: "length xs \<le> PTRDIFF_MAX \<Longrightarrow> heap_ok (block_heap xs g)"
  by (simp add: heap_ok_def block_heap_def blocksum_def)

lemma block_heap_sel [simp]: "blocks (block_heap xs g) = [0 \<mapsto> xs]" "grant (block_heap xs g) = g"
  "used (block_heap xs g) = length xs" "brk (block_heap xs g) = 1"
  by (simp_all add: block_heap_def)

end
