(* ===== verification/Circular_Buffer.thy ===== *)
theory Circular_Buffer
  imports CMemory "HOL-Library.Multiset"
begin

text \<open>
  The circular buffer of the last ten writes, \<^verbatim>\<open>aesd_circular_buffer.c\<close>: data types,
  operations, representation invariant and abstraction.

  The array of entries is read as a ring whose base is \<open>out_offs\<close> (\<open>ring\<close>); \<open>count\<close> is the
  number of slots between \<open>out_offs\<close> and \<open>in_offs\<close>, and \<open>contents\<close> is the list of byte
  strings a reader sees, oldest first. The abstract counterpart is a log that keeps its last ten
  entries (\<open>log_push\<close>) and positions in the concatenation of a list of strings (\<open>locate\<close>).
\<close>

abbreviation (input) AESDCHAR_MAX_WRITE_OPERATIONS_SUPPORTED :: nat where
  "AESDCHAR_MAX_WRITE_OPERATIONS_SUPPORTED \<equiv> 10"

record aesd_buffer_entry =
  e_buffptr :: ptr
  e_size :: size_t

record aesd_circular_buffer =
  entry :: "aesd_buffer_entry list"
  in_offs :: u8
  out_offs :: u8
  full :: bool
  c_size :: size_t

definition empty_entry :: aesd_buffer_entry where
  "empty_entry = \<lparr>e_buffptr = NULL, e_size = 0\<rparr>"

text \<open>Access to \<open>buffer->entry[i]\<close>; an index outside the array leaves the object.\<close>

definition entry_at :: "aesd_circular_buffer \<Rightarrow> nat \<Rightarrow> aesd_buffer_entry res" where
  "entry_at b i = (if i < length (entry b) then Inr (entry b ! i) else Inl OutOfBounds)"

definition set_entry :: "aesd_circular_buffer \<Rightarrow> nat \<Rightarrow> aesd_buffer_entry \<Rightarrow> aesd_circular_buffer" where
  "set_entry b i e = b\<lparr>entry := (entry b)[i := e]\<rparr>"

subsection \<open>Lookup by file position\<close>

text \<open>
  The result is the index of the entry and the value stored through
  \<open>entry_offset_byte_rtn\<close>, or \<open>None\<close> for a null result, when nothing is stored. The argument
  \<open>rtn_null\<close> says that \<open>entry_offset_byte_rtn\<close> is null: the debug print (\<open>AESD_DEBUG\<close> is
  defined) dereferences it all the same.
\<close>

function find_fpos_loop ::
    "aesd_circular_buffer \<Rightarrow> size_t \<Rightarrow> bool \<Rightarrow> nat \<Rightarrow> size_t \<Rightarrow> nat \<Rightarrow> (nat \<times> size_t) option res" where
  "find_fpos_loop b char_offset rtn_null i current_offset buffer_index =
     (if i < AESDCHAR_MAX_WRITE_OPERATIONS_SUPPORTED then
        andthen (entry_at b buffer_index) (\<lambda>e.
          if e_buffptr e \<noteq> NULL then
            if current_offset \<le> char_offset \<and> char_offset < current_offset + e_size e then
              (if rtn_null then Inl NullDeref
               else Inr (Some (buffer_index, char_offset - current_offset)))
            else find_fpos_loop b char_offset rtn_null (Suc i) (current_offset + e_size e)
                   ((buffer_index + 1) mod AESDCHAR_MAX_WRITE_OPERATIONS_SUPPORTED)
          else Inr None)
      else Inr None)"
  by pat_completeness auto
termination
  by (relation "measure (\<lambda>(b, c, r, i, o1, j). 10 - i)") auto

declare find_fpos_loop.simps [simp del]

definition aesd_circular_buffer_find_entry_offset_for_fpos ::
    "aesd_circular_buffer option \<Rightarrow> size_t \<Rightarrow> bool \<Rightarrow> (nat \<times> size_t) option res" where
  "aesd_circular_buffer_find_entry_offset_for_fpos buffer char_offset rtn_null =
     (case buffer of None \<Rightarrow> Inr None
      | Some b \<Rightarrow> find_fpos_loop b char_offset rtn_null 0 0 (unat (out_offs b)))"

subsection \<open>Lookup by write command\<close>

text \<open>
  Here the result is the index of the entry, or \<open>None\<close>, with the value stored through
  \<open>entry_offset_byte_rtn\<close>, or \<open>None\<close> when the function returns before storing one.
\<close>

function find_ioctl_loop ::
    "aesd_circular_buffer \<Rightarrow> size_t \<Rightarrow> size_t \<Rightarrow> bool \<Rightarrow> nat \<Rightarrow> size_t \<Rightarrow> nat \<Rightarrow>
     (nat option \<times> size_t option) res" where
  "find_ioctl_loop b write_cmd write_cmd_offset rtn_null i current_offset buffer_index =
     (if i < AESDCHAR_MAX_WRITE_OPERATIONS_SUPPORTED then
        andthen (entry_at b buffer_index) (\<lambda>e.
          if e_buffptr e \<noteq> NULL then
            if i = unat write_cmd then
              if write_cmd_offset \<ge> e_size e then
                (if rtn_null then Inl NullDeref else Inr (None, Some 0))
              else Inr (Some buffer_index,
                     if rtn_null then None else Some (current_offset + write_cmd_offset))
            else find_ioctl_loop b write_cmd write_cmd_offset rtn_null (Suc i)
                   (current_offset + e_size e)
                   ((buffer_index + 1) mod AESDCHAR_MAX_WRITE_OPERATIONS_SUPPORTED)
          else (if rtn_null then Inl NullDeref else Inr (None, Some 0)))
      else (if rtn_null then Inl NullDeref else Inr (None, Some 0)))"
  by pat_completeness auto
termination
  by (relation "measure (\<lambda>(b, c, d, r, i, o1, j). 10 - i)") auto

declare find_ioctl_loop.simps [simp del]

definition aesd_circular_buffer_find_entry_for_ioctl ::
    "aesd_circular_buffer option \<Rightarrow> size_t \<Rightarrow> size_t \<Rightarrow> bool \<Rightarrow> (nat option \<times> size_t option) res" where
  "aesd_circular_buffer_find_entry_for_ioctl buffer write_cmd write_cmd_offset rtn_null =
     (case buffer of None \<Rightarrow> Inr (None, None)
      | Some b \<Rightarrow>
          if unat write_cmd \<ge> AESDCHAR_MAX_WRITE_OPERATIONS_SUPPORTED then Inr (None, None)
          else find_ioctl_loop b write_cmd write_cmd_offset rtn_null 0 0 (unat (out_offs b)))"

subsection \<open>Adding an entry\<close>

text \<open>\<open>(offs + 1) % 10\<close>, computed in \<open>int\<close> and stored in a \<open>uint8_t\<close>.\<close>

definition next_offs :: "u8 \<Rightarrow> u8" where
  "next_offs x = of_nat ((unat x + 1) mod AESDCHAR_MAX_WRITE_OPERATIONS_SUPPORTED)"

text \<open>The first half of the function: a full buffer gives up its oldest entry.\<close>

definition evict_oldest :: "aesd_circular_buffer \<Rightarrow> heap \<Rightarrow> (aesd_circular_buffer \<times> heap) res" where
  "evict_oldest b h =
     (if full b then
        andthen (entry_at b (unat (out_offs b))) (\<lambda>e.
        andthen (my_free (e_buffptr e) h) (\<lambda>h1.
        Inr ((set_entry b (unat (out_offs b)) \<lparr>e_buffptr = NULL, e_size = 0\<rparr>)
              \<lparr>c_size := c_size b - e_size e, out_offs := next_offs (out_offs b)\<rparr>, h1)))
      else Inr (b, h))"

text \<open>The second half: a private copy of the data goes into the slot at \<open>in_offs\<close>.\<close>

definition store_entry ::
    "aesd_circular_buffer \<Rightarrow> aesd_buffer_entry \<Rightarrow> heap \<Rightarrow> (aesd_circular_buffer \<times> heap) res" where
  "store_entry b add_entry h =
     (let k = unat (in_offs b) in
      andthen (entry_at b k) (\<lambda>e.
        case my_malloc (e_size add_entry) h of
          (NULL, h1) \<Rightarrow> Inr (set_entry b k (e\<lparr>e_buffptr := NULL\<rparr>), h1)
        | (Ptr a, h1) \<Rightarrow>
            andthen (my_memcpy (Ptr a) (e_buffptr add_entry) (e_size add_entry) h1) (\<lambda>h2.
            Inr ((set_entry b k \<lparr>e_buffptr = Ptr a, e_size = e_size add_entry\<rparr>)
                  \<lparr>c_size := c_size b + e_size add_entry,
                   in_offs := next_offs (in_offs b),
                   full := (next_offs (in_offs b) = out_offs b)\<rparr>, h2))))"

definition aesd_circular_buffer_add_entry ::
    "aesd_circular_buffer option \<Rightarrow> aesd_buffer_entry option \<Rightarrow> heap \<Rightarrow>
     (aesd_circular_buffer option \<times> heap) res" where
  "aesd_circular_buffer_add_entry buffer add_entry h =
     (case (buffer, add_entry) of
        (Some b, Some e) \<Rightarrow>
          andthen (evict_oldest b h) (\<lambda>(b1, h1).
          andthen (store_entry b1 e h1) (\<lambda>(b2, h2). Inr (Some b2, h2)))
      | _ \<Rightarrow> Inr (buffer, h))"

subsection \<open>Initialisation and cleanup\<close>

text \<open>\<open>memset\<close> of the structure to zero: null pointers, zero sizes and offsets, not full.\<close>

definition zero_circular_buffer :: aesd_circular_buffer where
  "zero_circular_buffer =
     \<lparr>entry = replicate AESDCHAR_MAX_WRITE_OPERATIONS_SUPPORTED \<lparr>e_buffptr = NULL, e_size = 0\<rparr>,
      in_offs = 0, out_offs = 0, full = False, c_size = 0\<rparr>"

definition aesd_circular_buffer_init ::
    "aesd_circular_buffer option \<Rightarrow> aesd_circular_buffer option" where
  "aesd_circular_buffer_init buffer =
     (case buffer of None \<Rightarrow> None | Some b \<Rightarrow> Some zero_circular_buffer)"

fun cleanup_loop :: "aesd_buffer_entry list \<Rightarrow> heap \<Rightarrow> heap res" where
  "cleanup_loop [] h = Inr h"
| "cleanup_loop (e # es) h =
     (if e_buffptr e \<noteq> NULL then andthen (my_free (e_buffptr e) h) (cleanup_loop es)
      else cleanup_loop es h)"

definition aesd_circular_buffer_cleanup :: "aesd_circular_buffer option \<Rightarrow> heap \<Rightarrow> heap res" where
  "aesd_circular_buffer_cleanup buffer h =
     (case buffer of None \<Rightarrow> Inl NullDeref | Some b \<Rightarrow> cleanup_loop (entry b) h)"

text \<open>
  The loop of the macro \<open>AESD_CIRCULAR_BUFFER_FOREACH\<close>, for a body that does not change the buffer;
  the index is a \<open>uint8_t\<close>.
\<close>

function foreach_from ::
    "(aesd_buffer_entry \<Rightarrow> 's \<Rightarrow> 's res) \<Rightarrow> aesd_circular_buffer \<Rightarrow> u8 \<Rightarrow> 's \<Rightarrow> 's res" where
  "foreach_from body b index s =
     (if unat index < AESDCHAR_MAX_WRITE_OPERATIONS_SUPPORTED then
        andthen (entry_at b (unat index)) (\<lambda>e. andthen (body e s) (foreach_from body b (index + 1)))
      else Inr s)"
  by pat_completeness auto
termination
  by (relation "measure (\<lambda>(body, b, index, s). 10 - unat index)") (auto simp: unat_word_ariths mod_if)

declare foreach_from.simps [simp del]

definition AESD_CIRCULAR_BUFFER_FOREACH ::
    "(aesd_buffer_entry \<Rightarrow> 's \<Rightarrow> 's res) \<Rightarrow> aesd_circular_buffer \<Rightarrow> 's \<Rightarrow> 's res" where
  "AESD_CIRCULAR_BUFFER_FOREACH body b s = foreach_from body b 0 s"

subsection \<open>The ring, its occupied slots and its contents\<close>

definition ring :: "aesd_circular_buffer \<Rightarrow> aesd_buffer_entry list" where
  "ring b = rotate (unat (out_offs b)) (entry b)"

definition slots :: "aesd_circular_buffer \<Rightarrow> nat" where
  "slots b = (if in_offs b = out_offs b then (if full b then 10 else 0)
              else (unat (in_offs b) + 10 - unat (out_offs b)) mod 10)"

definition live :: "aesd_circular_buffer \<Rightarrow> aesd_buffer_entry list" where
  "live b = takeWhile (\<lambda>e. e_buffptr e \<noteq> NULL) (ring b)"

definition entry_data :: "heap \<Rightarrow> aesd_buffer_entry \<Rightarrow> bytes" where
  "entry_data h e = (case e_buffptr e of NULL \<Rightarrow> [] | Ptr a \<Rightarrow> the (blocks h a))"

definition contents :: "aesd_circular_buffer \<Rightarrow> heap \<Rightarrow> bytes list" where
  "contents b h = map (entry_data h) (live b)"

fun addrs :: "aesd_buffer_entry list \<Rightarrow> nat list" where
  "addrs [] = []"
| "addrs (e # es) = (case e_buffptr e of NULL \<Rightarrow> addrs es | Ptr a \<Rightarrow> a # addrs es)"

definition circ_fp :: "aesd_circular_buffer \<Rightarrow> nat set" where
  "circ_fp b = set (addrs (entry b))"

definition entry_ok :: "heap \<Rightarrow> aesd_buffer_entry \<Rightarrow> bool" where
  "entry_ok h e \<longleftrightarrow>
     (case e_buffptr e of
        NULL \<Rightarrow> e_size e = 0
      | Ptr a \<Rightarrow> (case blocks h a of None \<Rightarrow> False | Some bs \<Rightarrow> length bs = unat (e_size e)))"

text \<open>
  The invariant of every state the operations can reach, allocation failures included: offsets
  in range, every slot either empty or owning a block of its recorded size, no block shared, the
  slots from \<open>in_offs\<close> round to \<open>out_offs\<close> empty, and \<open>size\<close> the sum of the sizes. A dense
  buffer has no hole among its occupied slots.
\<close>

definition circ_ok :: "aesd_circular_buffer \<Rightarrow> heap \<Rightarrow> bool" where
  "circ_ok b h \<longleftrightarrow> length (entry b) = 10 \<and> unat (in_offs b) < 10 \<and> unat (out_offs b) < 10 \<and>
     drop (slots b) (ring b) = replicate (10 - slots b) empty_entry \<and>
     list_all (entry_ok h) (entry b) \<and> distinct (addrs (entry b)) \<and>
     c_size b = sum_list (map e_size (entry b))"

definition circ_dense :: "aesd_circular_buffer \<Rightarrow> bool" where
  "circ_dense b \<longleftrightarrow> (\<forall>e\<in>set (take (slots b) (ring b)). e_buffptr e \<noteq> NULL)"

text \<open>\<open>full\<close> says that all ten slots are occupied, as the header file documents it.\<close>

definition circ_exact :: "aesd_circular_buffer \<Rightarrow> bool" where
  "circ_exact b \<longleftrightarrow> (full b \<longleftrightarrow> slots b = 10)"

subsection \<open>The abstract log\<close>

definition log_push :: "bytes list \<Rightarrow> bytes \<Rightarrow> bytes list" where
  "log_push xs x = (if length xs = 10 then tl xs else xs) @ [x]"

fun locate :: "bytes list \<Rightarrow> nat \<Rightarrow> (nat \<times> nat) option" where
  "locate [] p = None"
| "locate (x # xs) p =
     (if p < length x then Some (0, p)
      else map_option (\<lambda>(i, k). (Suc i, k)) (locate xs (p - length x)))"

subsection \<open>Positions in a log\<close>

lemma locate_None_iff: "locate xs p = None \<longleftrightarrow> length (concat xs) \<le> p"
  by (induction xs p rule: locate.induct) auto

lemma locate_Some:
  "locate xs p = Some (i, k) \<Longrightarrow>
   i < length xs \<and> k < length (xs ! i) \<and> p = length (concat (take i xs)) + k"
  by (induction xs p arbitrary: i k rule: locate.induct) (auto split: if_splits)

lemma locate_unique:
  "i < length xs \<Longrightarrow> k < length (xs ! i) \<Longrightarrow> locate xs (length (concat (take i xs)) + k) = Some (i, k)"
proof (induction xs arbitrary: i)
  case (Cons x xs)
  then show ?case by (cases i) auto
qed simp

lemma concat_split_nth:
  "i < length xs \<Longrightarrow> concat xs = concat (take i xs) @ xs ! i @ concat (drop (Suc i) xs)"
  by (metis concat.simps(2) concat_append id_take_nth_drop)

lemma locate_drop:
  assumes "locate xs p = Some (i, k)"
  shows "drop p (concat xs) = drop k (xs ! i) @ concat (drop (Suc i) xs)"
proof -
  from locate_Some [OF assms] have i: "i < length xs" "k < length (xs ! i)"
    and p: "p = length (concat (take i xs)) + k" by auto
  from i(2) show ?thesis by (subst concat_split_nth [OF i(1)]) (simp add: p)
qed

subsection \<open>Addresses and ownership\<close>

lemma addrs_append [simp]: "addrs (xs @ ys) = addrs xs @ addrs ys"
  by (induction xs) (auto split: ptr.splits)

lemma addrs_empty [simp]: "addrs (replicate n empty_entry) = []"
  by (induction n) (auto simp: empty_entry_def)

lemma addrs_rotate: "mset (addrs (rotate k xs)) = mset (addrs xs)"
proof -
  have "mset (addrs (rotate k xs)) =
      mset (addrs (take (k mod length xs) xs @ drop (k mod length xs) xs))"
    by (simp only: rotate_drop_take addrs_append mset_append add.commute)
  then show ?thesis by simp
qed

lemma addrs_ring:
  "set (addrs (ring b)) = set (addrs (entry b))" "distinct (addrs (ring b)) = distinct (addrs (entry b))"
  unfolding ring_def using addrs_rotate mset_eq_setD mset_eq_imp_distinct_iff by metis+

lemma set_addrs: "a \<in> set (addrs es) \<longleftrightarrow> (\<exists>e\<in>set es. e_buffptr e = Ptr a)"
  by (induction es) (auto split: ptr.splits)

lemma entry_ok_empty [simp]: "entry_ok h empty_entry"
  by (simp add: entry_ok_def empty_entry_def)

lemma entry_ok_frame:
  "(\<And>a. e_buffptr e = Ptr a \<Longrightarrow> blocks h' a = blocks h a) \<Longrightarrow> entry_ok h' e = entry_ok h e"
  by (auto simp: entry_ok_def split: ptr.splits)

lemma entry_data_frame:
  "(\<And>a. e_buffptr e = Ptr a \<Longrightarrow> blocks h' a = blocks h a) \<Longrightarrow> entry_data h' e = entry_data h e"
  by (auto simp: entry_data_def split: ptr.splits)

lemma entry_ok_length: "entry_ok h e \<Longrightarrow> length (entry_data h e) = unat (e_size e)"
  by (auto simp: entry_ok_def entry_data_def split: ptr.splits option.splits)

lemma entries_live: "list_all (entry_ok h) es \<Longrightarrow> set (addrs es) \<subseteq> dom (blocks h)"
  by (induction es) (auto simp: entry_ok_def split: ptr.splits option.splits)

text \<open>The sizes recorded for distinct live blocks cannot overflow.\<close>

lemma entries_size:
  "list_all (entry_ok h) es \<Longrightarrow>
   sum_list (map (unat \<circ> e_size) es) = sum_list (map (\<lambda>a. length (the (blocks h a))) (addrs es))"
  by (induction es) (auto simp: entry_ok_def split: ptr.splits option.splits)

lemma entries_bound:
  assumes "heap_ok h" "list_all (entry_ok h) es" "distinct (addrs es)"
  shows "sum_list (map (unat \<circ> e_size) es) \<le> PTRDIFF_MAX"
  using heap_ok_list [OF assms(1,3)] entries_live [OF assms(2)] entries_size [OF assms(2)] by simp

lemma sum_list_size_unat:
  "sum_list (map (unat \<circ> e_size) es) \<le> PTRDIFF_MAX \<Longrightarrow>
   unat (sum_list (map e_size es)) = sum_list (map (unat \<circ> e_size) es)"
proof (induction es)
  case (Cons e es)
  then show ?case
    by (simp add: unat_word_ariths PTRDIFF_MAX_def)
qed simp

lemma mset_rotate_eq: "mset (rotate k xs) = mset xs"
proof -
  have "mset (rotate k xs) = mset (take (k mod length xs) xs @ drop (k mod length xs) xs)"
    by (simp only: rotate_drop_take mset_append add.commute)
  then show ?thesis by simp
qed

lemma sum_list_ring: "sum_list (map f (ring b)) = sum_list (map f (entry b))"
  for f :: "aesd_buffer_entry \<Rightarrow> 'a::comm_monoid_add"
proof -
  have "mset (map f (ring b)) = mset (map f (entry b))"
    by (simp add: ring_def mset_rotate_eq)
  then show ?thesis by (metis sum_mset_sum_list)
qed

lemma set_ring [simp]: "set (ring b) = set (entry b)"
  by (simp add: ring_def)

lemma length_ring [simp]: "length (ring b) = length (entry b)"
  by (simp add: ring_def)

subsection \<open>Moving round the ring\<close>

lemma unat_next_offs: "unat (next_offs x) = (unat x + 1) mod 10"
proof -
  have "(unat x + 1) mod 10 < 256" by (rule less_trans [of _ 10]) auto
  then show ?thesis by (simp add: next_offs_def unat_of_nat)
qed

lemma slots_le: "slots b \<le> 10"
  by (auto simp: slots_def intro: less_imp_le)

lemma slots_offs:
  assumes "unat (in_offs b) < 10" "unat (out_offs b) < 10"
  shows "unat (in_offs b) = (unat (out_offs b) + slots b) mod 10"
proof (cases "in_offs b = out_offs b")
  case True
  with assms show ?thesis by (simp add: slots_def)
next
  case False
  then have "unat (in_offs b) \<noteq> unat (out_offs b)" by (simp add: word_unat_eq_iff)
  with assms False show ?thesis
    by (auto simp: slots_def mod_if)
qed

text \<open>
  The state between the two halves of adding an entry: \<open>n\<close> occupied slots, the rest empty, and
  \<open>in_offs\<close> at the first empty one.
\<close>

definition room :: "nat \<Rightarrow> aesd_circular_buffer \<Rightarrow> bool" where
  "room n b \<longleftrightarrow> n < 10 \<and> length (entry b) = 10 \<and> unat (out_offs b) < 10 \<and>
     unat (in_offs b) = (unat (out_offs b) + n) mod 10 \<and>
     drop n (ring b) = replicate (10 - n) empty_entry"

lemma room_split:
  assumes "room n b"
  shows "ring b = take n (ring b) @ empty_entry # replicate (9 - n) empty_entry"
proof -
  have "ring b = take n (ring b) @ drop n (ring b)" by simp
  also have "drop n (ring b) = replicate (Suc (9 - n)) empty_entry"
  proof -
    have "n < 10" using assms by (simp add: room_def)
    then have "10 - n = Suc (9 - n)" by arith
    with assms show ?thesis by (simp only: room_def)
  qed
  finally show ?thesis by simp
qed

lemma room_update:
  assumes "room n b"
  shows "ring (set_entry b (unat (in_offs b)) e) = take n (ring b) @ e # replicate (9 - n) empty_entry"
proof -
  have "ring (set_entry b (unat (in_offs b)) e) = (ring b)[n := e]"
    using assms rotate_update_nth [of "unat (out_offs b)" "entry b" n e]
    by (simp add: room_def ring_def set_entry_def)
  moreover have "length (take n (ring b)) = n" using assms by (simp add: room_def)
  ultimately show ?thesis
    by (subst (asm) room_split [OF assms]) (simp add: list_update_append)
qed

text \<open>Storing advances \<open>in_offs\<close>: one more occupied slot, and the flag is exact.\<close>

lemma room_stored:
  assumes "room n b" "in_offs b' = next_offs (in_offs b)" "out_offs b' = out_offs b"
    and "full b' = (in_offs b' = out_offs b')"
  shows "slots b' = Suc n" "full b' \<longleftrightarrow> Suc n = 10" "unat (in_offs b') < 10"
proof -
  have i: "unat (in_offs b') = (unat (out_offs b) + Suc n) mod 10"
    using assms by (simp add: unat_next_offs room_def mod_Suc_eq)
  have o: "unat (out_offs b) < 10" and n: "n < 10" using assms by (auto simp: room_def)
  have eq: "in_offs b' = out_offs b \<longleftrightarrow> Suc n = 10"
    unfolding word_unat_eq_iff i using o n by (auto simp: mod_if)
  then show "full b' \<longleftrightarrow> Suc n = 10" using assms(3,4) by simp
  show "slots b' = Suc n"
    unfolding slots_def assms(3,4) using eq o n i by (auto simp: mod_if)
  show "unat (in_offs b') < 10" using i by simp
qed

subsection \<open>Correctness of adding an entry\<close>

text \<open>The part of the invariant that does not speak about the offsets.\<close>

definition ring_ok :: "aesd_circular_buffer \<Rightarrow> heap \<Rightarrow> bool" where
  "ring_ok b h \<longleftrightarrow> list_all (entry_ok h) (ring b) \<and> distinct (addrs (ring b)) \<and>
     c_size b = sum_list (map e_size (ring b))"

lemma circ_ok_ring:
  "circ_ok b h \<longleftrightarrow> length (entry b) = 10 \<and> unat (in_offs b) < 10 \<and> unat (out_offs b) < 10 \<and>
     drop (slots b) (ring b) = replicate (10 - slots b) empty_entry \<and> ring_ok b h"
  by (auto simp: circ_ok_def ring_ok_def addrs_ring sum_list_ring list_all_iff)

lemma circ_fp_ring: "circ_fp b = set (addrs (ring b))"
  by (simp add: circ_fp_def addrs_ring)

lemma entries_frame:
  assumes "\<And>a. a \<in> set (addrs es) \<Longrightarrow> blocks h' a = blocks h a"
  shows "list_all (entry_ok h') es = list_all (entry_ok h) es"
    "map (entry_data h') es = map (entry_data h) es"
proof -
  have *: "entry_ok h' e = entry_ok h e" "entry_data h' e = entry_data h e" if "e \<in> set es" for e
    using assms that by (auto simp: set_addrs intro!: entry_ok_frame entry_data_frame)
  show "list_all (entry_ok h') es = list_all (entry_ok h) es"
    using * by (auto simp: list_all_iff)
  show "map (entry_data h') es = map (entry_data h) es"
    using * by simp
qed

lemma my_free_entry:
  assumes "heap_ok h" "entry_ok h e"
  obtains h1 where "my_free (e_buffptr e) h = Inr h1" "heap_ok h1" "grant h1 = grant h"
    "blocks h1 = blocks h |` (- set (addrs [e]))" "used h1 \<le> used h"
proof (cases "e_buffptr e")
  case NULL
  with assms(1) that [of h] show thesis by (simp add: my_free_def)
next
  case (Ptr a)
  with assms(2) obtain bs where bs: "blocks h a = Some bs"
    by (auto simp: entry_ok_def split: option.splits)
  from kfree_Ptr [OF assms(1) bs] obtain h1 where h1: "kfree (Ptr a) h = Inr h1" "heap_ok h1"
    "blocks h1 = (blocks h)(a := None)" "grant h1 = grant h" .
  moreover have "used h1 \<le> used h"
    using assms(1) h1(2,3) blocksum_split [of "blocks h" a bs] bs by (simp add: heap_ok_def)
  moreover have "(blocks h)(a := None) = blocks h |` (- {a})"
    by (auto simp: restrict_map_def)
  ultimately show thesis using that Ptr by (simp add: my_free_def)
qed

lemma slots_full:
  assumes "full b" "unat (in_offs b) < 10" "unat (out_offs b) < 10"
  shows "0 < slots b"
proof (cases "in_offs b = out_offs b")
  case False
  then have "unat (in_offs b) \<noteq> unat (out_offs b)" by (simp add: word_unat_eq_iff)
  with assms False show ?thesis by (auto simp: slots_def mod_if)
qed (simp add: slots_def assms(1))

lemma slots_not_full: "\<not> full b \<Longrightarrow> slots b < 10"
  by (auto simp: slots_def)

lemma evict_not_full:
  assumes "circ_ok b h" "\<not> full b"
  shows "evict_oldest b h = Inr (b, h)" "room (slots b) b"
  using assms slots_offs [of b] slots_not_full [of b]
  by (auto simp: evict_oldest_def room_def circ_ok_ring)

lemma evict_ring:
  assumes "length (entry b) = 10" "unat (out_offs b) < 10"
    and "entry b' = (entry b)[unat (out_offs b) := empty_entry]"
    and "out_offs b' = next_offs (out_offs b)"
  shows "ring b' = tl (ring b) @ [empty_entry]"
proof -
  let ?o = "unat (out_offs b)"
  have "ring b' = rotate (Suc ?o mod 10) (entry b')"
    by (simp add: ring_def assms(4) unat_next_offs)
  also have "\<dots> = tl (rotate ?o (entry b')) @ [hd (rotate ?o (entry b'))]"
    using rotate_Suc_mod [of ?o "entry b'"] assms(1-3) by simp
  also have "rotate ?o (entry b') = (ring b)[0 := empty_entry]"
    using rotate_update_nth [of ?o "entry b" 0 empty_entry] assms(1-3) by (simp add: ring_def)
  also have "\<dots> = empty_entry # tl (ring b)"
    using assms(1) length_ring [of b] by (cases "ring b") auto
  finally show ?thesis by simp
qed

lemma evict_full:
  assumes "heap_ok h" "circ_ok b h" "full b"
  obtains b1 h1 e rest where "evict_oldest b h = Inr (b1, h1)" "heap_ok h1" "grant h1 = grant h"
    "used h1 \<le> used h" "ring b = e # rest" "ring b1 = rest @ [empty_entry]"
    "room (slots b - 1) b1" "full b1" "ring_ok b1 h1" "in_offs b1 = in_offs b"
    "out_offs b1 = next_offs (out_offs b)"
    "blocks h1 = blocks h |` (- set (addrs [e]))"
proof -
  let ?o = "unat (out_offs b)"
  have ok: "length (entry b) = 10" "unat (in_offs b) < 10" "?o < 10" "ring_ok b h"
    "drop (slots b) (ring b) = replicate (10 - slots b) empty_entry"
    using assms(2) by (auto simp: circ_ok_ring)
  obtain e rest where ring: "ring b = e # rest"
    using ok(1) length_ring [of b] by (cases "ring b") auto
  have hd: "entry b ! ?o = e"
  proof -
    have "entry b \<noteq> []" using ok(1) by auto
    then show ?thesis using ring ok(1,3) hd_rotate_conv_nth [of "entry b" ?o] by (simp add: ring_def)
  qed
  have eok: "entry_ok h e" using ok(4) ring by (simp add: ring_ok_def)
  from my_free_entry [OF assms(1) eok] obtain h1 where
    h1: "my_free (e_buffptr e) h = Inr h1" "heap_ok h1" "grant h1 = grant h"
    "blocks h1 = blocks h |` (- set (addrs [e]))" "used h1 \<le> used h" .
  define b1 where "b1 = (set_entry b ?o empty_entry)
    \<lparr>c_size := c_size b - e_size e, out_offs := next_offs (out_offs b)\<rparr>"
  have ev: "evict_oldest b h = Inr (b1, h1)"
    using assms(3) hd h1(1) ok(1,3)
    by (simp add: evict_oldest_def entry_at_def b1_def empty_entry_def)
  have r1: "ring b1 = rest @ [empty_entry]"
    using evict_ring [of b b1] ok(1,3) ring by (simp add: b1_def set_entry_def)
  have n: "0 < slots b" "slots b \<le> 10" using slots_full [OF assms(3) ok(2,3)] slots_le by auto
  have "drop (slots b - 1) rest = replicate (10 - slots b) empty_entry"
    using ok(5) ring n by (cases "slots b") auto
  then have "drop (slots b - 1) (ring b1) = replicate (10 - slots b) empty_entry @ [empty_entry]"
    using r1 n length_ring [of b] ring ok(1) by simp
  then have dr: "drop (slots b - 1) (ring b1) = replicate (10 - (slots b - 1)) empty_entry"
    using n by (simp add: replicate_append_same flip: replicate_Suc)
  have off: "unat (in_offs b) = ((?o + 1) mod 10 + (slots b - 1)) mod 10"
  proof -
    have "((?o + 1) mod 10 + (slots b - 1)) mod 10 = (?o + 1 + (slots b - 1)) mod 10"
      by (rule mod_add_left_eq)
    also have "?o + 1 + (slots b - 1) = ?o + slots b" using n by simp
    finally show ?thesis using slots_offs [of b] ok(2,3) by simp
  qed
  have room: "room (slots b - 1) b1"
    using ok(1,3) n dr off by (simp add: room_def b1_def set_entry_def unat_next_offs)
  have "distinct (addrs rest)" "set (addrs [e]) \<inter> set (addrs rest) = {}" "list_all (entry_ok h) rest"
    using ok(4) ring by (auto simp: ring_ok_def split: ptr.splits)
  moreover have "list_all (entry_ok h1) rest"
  proof -
    have "blocks h1 c = blocks h c" if "c \<in> set (addrs rest)" for c
      unfolding h1(4) using that calculation(2) by (intro restrict_in) blast
    then show ?thesis using entries_frame(1) [of rest h1 h] calculation(3) by blast
  qed
  moreover have "e_size empty_entry = 0" "addrs [empty_entry] = []"
    by (simp_all add: empty_entry_def)
  ultimately have "ring_ok b1 h1"
    using ok(4) ring r1 by (simp add: ring_ok_def b1_def)
  with ev h1 ring r1 room assms(3) that show thesis
    by (simp add: b1_def set_entry_def)
qed

lemma store_refused:
  assumes "room n b" "my_malloc (e_size x) h = (NULL, h1)"
  shows "store_entry b x h = Inr (b, h1)"
proof -
  let ?k = "unat (in_offs b)"
  have k: "?k < length (entry b)" using assms(1) by (auto simp: room_def)
  have "ring b ! n = entry b ! ?k"
    using assms(1) by (simp add: room_def ring_def nth_rotate)
  moreover have "ring b ! n = empty_entry"
    by (subst room_split [OF assms(1)]) (use assms(1) in \<open>simp add: nth_append room_def\<close>)
  ultimately have "entry b ! ?k = empty_entry" by simp
  then have "(entry b)[?k := (entry b ! ?k)\<lparr>e_buffptr := NULL\<rparr>] = entry b"
    by (metis empty_entry_def aesd_buffer_entry.update_convs(1) list_update_id)
  with k assms(2) show ?thesis
    by (simp add: store_entry_def entry_at_def set_entry_def)
qed

lemma store_granted:
  assumes "heap_ok h" "room n b" "ring_ok b h" "blocks h s = Some bs"
    and "e_buffptr x = Ptr s" "unat (e_size x) \<le> length bs"
    and "my_malloc (e_size x) h = (Ptr a, h1)"
  obtains b' h' where "store_entry b x h = Inr (b', h')" "heap_ok h'" "grant h' = grant h"
    "blocks h' = (blocks h)(a \<mapsto> take (unat (e_size x)) bs)" "blocks h a = None"
    "ring b' = take n (ring b) @ \<lparr>e_buffptr = Ptr a, e_size = e_size x\<rparr> # replicate (9 - n) empty_entry"
    "length (entry b') = 10" "out_offs b' = out_offs b" "in_offs b' = next_offs (in_offs b)"
    "full b' = (in_offs b' = out_offs b')" "c_size b' = c_size b + e_size x"
proof -
  let ?k = "unat (in_offs b)"
  have k: "?k < length (entry b)" using assms(2) by (auto simp: room_def)
  from kmalloc_memcpy [OF assms(1,4,6)] assms(7) obtain h2 where
    h2: "memcpy (Ptr a) 0 (Ptr s) 0 (e_size x) h1 = Inr h2" "heap_ok h2" "grant h2 = grant h"
    "blocks h2 = (blocks h)(a \<mapsto> take (unat (e_size x)) bs)" "blocks h a = None"
    by (auto simp: my_malloc_def)
  define b' where "b' = (set_entry b ?k \<lparr>e_buffptr = Ptr a, e_size = e_size x\<rparr>)
    \<lparr>c_size := c_size b + e_size x, in_offs := next_offs (in_offs b),
     full := (next_offs (in_offs b) = out_offs b)\<rparr>"
  have "store_entry b x h = Inr (b', h2)"
    using k assms(5,7) h2(1) by (simp add: store_entry_def entry_at_def my_memcpy_def b'_def)
  moreover have "ring b' = ring (set_entry b ?k \<lparr>e_buffptr = Ptr a, e_size = e_size x\<rparr>)"
    by (simp add: ring_def b'_def set_entry_def)
  ultimately show thesis
    using that [of b' h2] h2(2-5) room_update [OF assms(2)] assms(2)
    by (simp add: b'_def set_entry_def room_def)
qed

lemma used_add:
  "heap_ok h \<Longrightarrow> heap_ok h' \<Longrightarrow> blocks h' = (blocks h)(a \<mapsto> xs) \<Longrightarrow> blocks h a = None \<Longrightarrow>
   used h' = used h + length xs"
  using blocksum_insert [of "blocks h" a xs] by (simp add: heap_ok_def)

lemma store_granted_ok:
  assumes "heap_ok h" "room n b" "ring_ok b h"
    and "blocks h' = (blocks h)(a \<mapsto> xs)" "blocks h a = None" "length xs = unat z"
    and "ring b' = take n (ring b) @ \<lparr>e_buffptr = Ptr a, e_size = z\<rparr> # replicate (9 - n) empty_entry"
    and "c_size b' = c_size b + z"
  shows "ring_ok b' h'" "circ_fp b' = insert a (circ_fp b)"
    "map (entry_data h') (take (Suc n) (ring b')) = map (entry_data h) (take n (ring b)) @ [xs]"
proof -
  let ?t = "take n (ring b)"
  have split: "ring b = ?t @ replicate (Suc (9 - n)) empty_entry"
    using room_split [OF assms(2)] by simp
  have ad: "addrs (ring b) = addrs ?t" by (subst split) (simp del: replicate.simps)
  have ad': "addrs (ring b') = addrs ?t @ [a]"
    unfolding assms(7) by simp
  have t: "list_all (entry_ok h) ?t" "distinct (addrs ?t)"
    using assms(3) ad by (auto simp: ring_ok_def list_all_iff dest: in_set_takeD)
  have fresh: "a \<notin> set (addrs ?t)" using entries_live [OF t(1)] assms(5) by auto
  have "blocks h' c = blocks h c" if "c \<in> set (addrs ?t)" for c
    using fresh assms(4) that by auto
  then have fr: "list_all (entry_ok h') ?t" "map (entry_data h') ?t = map (entry_data h) ?t"
    using entries_frame [of ?t h' h] t(1) by blast+
  have z: "e_size empty_entry = 0" by (simp add: empty_entry_def)
  have sz: "sum_list (map e_size (ring b)) = sum_list (map e_size ?t)"
    by (subst split) (simp add: z sum_list_replicate del: replicate.simps)
  have sz': "sum_list (map e_size (ring b')) = sum_list (map e_size ?t) + z"
    unfolding assms(7) by (simp add: z sum_list_replicate)
  have "entry_ok h' \<lparr>e_buffptr = Ptr a, e_size = z\<rparr>"
    using assms(4,6) by (simp add: entry_ok_def)
  then have "list_all (entry_ok h') (ring b')"
    unfolding assms(7) using fr(1) by (auto simp: list_all_iff)
  then show "ring_ok b' h'"
    using t(2) fresh assms(3,8) ad' sz sz' by (simp add: ring_ok_def)
  show "circ_fp b' = insert a (circ_fp b)"
    by (simp add: circ_fp_ring ad ad')
  have "length ?t = n" using assms(2) by (simp add: room_def)
  then show "map (entry_data h') (take (Suc n) (ring b')) = map (entry_data h) ?t @ [xs]"
    unfolding assms(7) using fr(2) assms(4) by (simp add: entry_data_def)
qed

text \<open>Both cases of the first half together.\<close>

definition evict_post ::
    "aesd_circular_buffer \<Rightarrow> heap \<Rightarrow> nat \<Rightarrow> aesd_circular_buffer \<Rightarrow> heap \<Rightarrow> bool" where
  "evict_post b h n b1 h1 \<longleftrightarrow> heap_ok h1 \<and> grant h1 = grant h \<and> used h1 \<le> used h \<and>
     room n b1 \<and> ring_ok b1 h1 \<and> full b1 = full b \<and> in_offs b1 = in_offs b \<and>
     n = (if full b then slots b - 1 else slots b) \<and>
     map (entry_data h1) (take n (ring b1)) =
       (if full b then tl (map (entry_data h) (take (slots b) (ring b)))
        else map (entry_data h) (take (slots b) (ring b))) \<and>
     blocks h1 |` (- circ_fp b1) = blocks h |` (- circ_fp b) \<and> circ_fp b1 \<subseteq> circ_fp b \<and>
     (\<forall>a. a \<notin> circ_fp b \<longrightarrow> blocks h1 a = blocks h a) \<and>
     (circ_dense b \<longrightarrow> (\<forall>e\<in>set (take n (ring b1)). e_buffptr e \<noteq> NULL))"

lemma evict_spec:
  assumes "heap_ok h" "circ_ok b h"
  obtains b1 h1 n where "evict_oldest b h = Inr (b1, h1)" "evict_post b h n b1 h1"
proof (cases "full b")
  case False
  from evict_not_full [OF assms(2) False] assms that [of b h "slots b"] False show thesis
    by (auto simp: circ_ok_ring circ_dense_def evict_post_def)
next
  case True
  from evict_full [OF assms True] obtain b1 h1 e rest where
    ev: "evict_oldest b h = Inr (b1, h1)" "heap_ok h1" "grant h1 = grant h"
    "used h1 \<le> used h" and ring: "ring b = e # rest" "ring b1 = rest @ [empty_entry]"
    and ok: "room (slots b - 1) b1" "full b1" "ring_ok b1 h1" "in_offs b1 = in_offs b"
    and bl: "blocks h1 = blocks h |` (- set (addrs [e]))" by metis
  have fp: "circ_fp b = set (addrs [e]) \<union> circ_fp b1"
    using ring by (auto simp: circ_fp_ring empty_entry_def split: ptr.splits)
  have dis: "set (addrs [e]) \<inter> circ_fp b1 = {}"
    using assms(2) ring by (auto simp: circ_ok_ring ring_ok_def circ_fp_ring empty_entry_def
        split: ptr.splits)
  obtain m where m: "slots b = Suc m" "m < 10"
    using slots_full [of b] slots_le [of b] True assms(2) by (cases "slots b") (auto simp: circ_ok_ring)
  have len: "length rest = 9"
    using ring(1) assms(2) length_ring [of b] by (simp add: circ_ok_ring)
  then have tk: "take m (ring b1) = take m rest" using m ring(2) by simp
  have "blocks h1 c = blocks h c" if "c \<in> set (addrs (take m rest))" for c
  proof -
    have "c \<in> circ_fp b1"
      using that ring(2) by (auto simp: circ_fp_ring set_addrs dest: in_set_takeD)
    with dis show ?thesis unfolding bl by (intro restrict_in) auto
  qed
  then have "map (entry_data h1) (take m rest) = map (entry_data h) (take m rest)"
    by (rule entries_frame(2))
  then have data: "map (entry_data h1) (take m (ring b1)) =
      tl (map (entry_data h) (take (slots b) (ring b)))"
    using tk m ring(1) by simp
  have fr: "blocks h1 |` (- circ_fp b1) = blocks h |` (- circ_fp b)"
    unfolding bl fp by (auto simp: restrict_map_def)
  have "blocks h1 c = blocks h c" if "c \<notin> circ_fp b" for c
    using that fp unfolding bl by (intro restrict_in) auto
  moreover have "\<forall>e\<in>set (take m (ring b1)). e_buffptr e \<noteq> NULL" if "circ_dense b"
    using that ring(1) m tk by (auto simp: circ_dense_def)
  ultimately show thesis
    using that [OF ev(1), of "slots b - 1"] ev ok True data fr fp m by (simp add: evict_post_def)
qed

lemma live_dense:
  assumes "circ_ok b h" "circ_dense b"
  shows "live b = take (slots b) (ring b)"
proof -
  let ?P = "\<lambda>e. e_buffptr e \<noteq> NULL"
  let ?t = "take (slots b) (ring b)" and ?r = "replicate (10 - slots b) empty_entry"
  have ring: "ring b = ?t @ ?r"
    using assms(1) append_take_drop_id [of "slots b" "ring b"] by (simp add: circ_ok_ring)
  have "takeWhile ?P (?t @ ?r) = ?t @ takeWhile ?P ?r"
    using assms(2) by (intro takeWhile_append2) (simp add: circ_dense_def)
  moreover have "takeWhile ?P ?r = []"
    by (cases "10 - slots b") (auto simp: empty_entry_def)
  ultimately show ?thesis unfolding live_def using ring by simp
qed

lemma contents_dense:
  "circ_ok b h \<Longrightarrow> circ_dense b \<Longrightarrow> contents b h = map (entry_data h) (take (slots b) (ring b))"
  by (simp add: contents_def live_dense)

lemma contents_count: "circ_ok b h \<Longrightarrow> circ_dense b \<Longrightarrow> length (contents b h) = slots b"
  using slots_le [of b] by (simp add: contents_dense circ_ok_def)

lemma circ_fp_live: "circ_ok b h \<Longrightarrow> circ_fp b \<subseteq> dom (blocks h)"
  using entries_live [of h "entry b"] by (simp add: circ_ok_def circ_fp_def)

text \<open>
  The whole of \<open>aesd_circular_buffer_add_entry\<close>, the copy granted (\<open>r\<close>) or refused. What the
  buffer shows afterwards is stated for dense buffers, the only ones that arise while the
  allocator does not refuse ten times in a row.
\<close>

definition add_post ::
    "aesd_circular_buffer \<Rightarrow> heap \<Rightarrow> bytes \<Rightarrow> bool \<Rightarrow> aesd_circular_buffer \<Rightarrow> heap \<Rightarrow> bool" where
  "add_post b h xs r b' h' \<longleftrightarrow> heap_ok h' \<and> circ_ok b' h' \<and> grant h' = grant h \<and>
     blocks h' |` (- circ_fp b') = blocks h |` (- circ_fp b) \<and>
     used h' \<le> used h + (if r then length xs else 0) \<and>
     (r \<longrightarrow> circ_exact b') \<and> out_offs b' = (if full b then next_offs (out_offs b) else out_offs b) \<and>
     (circ_dense b \<longrightarrow>
        contents b' h' = (if full b then tl (contents b h) else contents b h) @ (if r then [xs] else []) \<and>
        (r \<or> \<not> full b \<or> slots b \<noteq> 1 \<longrightarrow> circ_dense b'))"

lemma evict_offs:
  "evict_oldest b h = Inr (b1, h1) \<Longrightarrow> out_offs b1 = (if full b then next_offs (out_offs b) else out_offs b)"
  by (auto simp: evict_oldest_def andthen_eq_Inr_iff set_entry_def split: if_splits)

lemma add_refused:
  assumes "heap_ok h" "circ_ok b h" "evict_oldest b h = Inr (b1, h1)"
    and "my_malloc (e_size x) h1 = (NULL, h2)"
  shows "store_entry b1 x h1 = Inr (b1, h2)" "add_post b h xs False b1 h2" "circ_fp b1 \<subseteq> circ_fp b"
proof -
  from evict_spec [OF assms(1,2)] assms(3) obtain n where post: "evict_post b h n b1 h1" by auto
  then have ev: "heap_ok h1" "grant h1 = grant h" "used h1 \<le> used h" "room n b1" "ring_ok b1 h1"
      "full b1 = full b" "in_offs b1 = in_offs b"
    and n: "n = (if full b then slots b - 1 else slots b)"
    and data: "map (entry_data h1) (take n (ring b1)) =
      (if full b then tl (map (entry_data h) (take (slots b) (ring b)))
       else map (entry_data h) (take (slots b) (ring b)))"
    and fr: "blocks h1 |` (- circ_fp b1) = blocks h |` (- circ_fp b)" "circ_fp b1 \<subseteq> circ_fp b"
    and dense: "circ_dense b \<Longrightarrow> \<forall>e\<in>set (take n (ring b1)). e_buffptr e \<noteq> NULL"
    unfolding evict_post_def by blast+
  show "store_entry b1 x h1 = Inr (b1, h2)" using store_refused ev(4) assms(4) by blast
  show "circ_fp b1 \<subseteq> circ_fp b" by (rule fr(2))
  have h2: "heap_ok h2" "blocks h2 = blocks h1" "grant h2 = grant h1"
    using kmalloc_NULL [of _ h1 h2] assms(4) ev(1) by (auto simp: my_malloc_def)
  have used: "used h2 = used h1" using h2 ev(1) by (simp add: heap_ok_def)
  have dat2: "entry_data h2 = entry_data h1" "entry_ok h2 = entry_ok h1"
    by (intro ext entry_data_frame entry_ok_frame; simp add: h2(2))+
  have rok: "ring_ok b1 h2" using ev(5) by (simp add: ring_ok_def dat2)
  have offs: "unat (in_offs b1) = (unat (out_offs b1) + n) mod 10" "unat (out_offs b1) < 10" "n < 10"
    using ev(4) by (auto simp: room_def)
  have "in_offs b1 = out_offs b1 \<longleftrightarrow> n = 0"
    unfolding word_unat_eq_iff offs(1) using offs(2,3) by (auto simp: mod_if)
  then have sl: "slots b1 = (if n = 0 then (if full b then 10 else 0) else n)"
    unfolding slots_def offs(1) ev(6) using offs(2,3) by (auto simp: mod_if)
  have n1: "n = 0" if "slots b1 \<noteq> n" using that sl by (auto split: if_splits)
  have full1: "full b \<and> slots b = 1" if "slots b1 \<noteq> n"
    using n1 [OF that] that sl n slots_full [of b] assms(2)
    by (auto simp: circ_ok_ring split: if_splits)
  have "drop (slots b1) (ring b1) = replicate (10 - slots b1) empty_entry"
  proof (cases "slots b1 = n")
    case True
    with ev(4) show ?thesis by (simp add: room_def)
  next
    case False
    with n1 ev(4) have "ring b1 = replicate 10 empty_entry" by (simp add: room_def)
    then show ?thesis by simp
  qed
  then have ok: "circ_ok b1 h2"
    using ev(4) rok by (auto simp: circ_ok_ring room_def)
  have "contents b1 h2 = map (entry_data h1) (take n (ring b1))" if "circ_dense b"
  proof (cases "slots b1 = n")
    case True
    then have "circ_dense b1" using dense [OF that] by (simp add: circ_dense_def)
    with contents_dense [OF ok] True show ?thesis by (simp add: dat2)
  next
    case False
    with n1 ev(4) have "ring b1 = replicate 10 empty_entry" "n = 0" by (auto simp: room_def)
    then show ?thesis by (simp add: contents_def live_def empty_entry_def)
  qed
  moreover have "circ_dense b1" if "circ_dense b" "\<not> full b \<or> slots b \<noteq> 1"
    using dense [OF that(1)] full1 that(2) by (auto simp: circ_dense_def)
  moreover note evict_offs [OF assms(3)]
  ultimately show "add_post b h xs False b1 h2"
    using h2 ev(2,3) used fr ok data contents_dense [OF assms(2)] by (simp add: add_post_def)
qed

lemma add_granted:
  assumes "heap_ok h" "circ_ok b h" "evict_oldest b h = Inr (b1, h1)"
    and "blocks h s = Some bs" "s \<notin> circ_fp b" "e_buffptr x = Ptr s" "unat (e_size x) \<le> length bs"
    and "my_malloc (e_size x) h1 = (Ptr a, h2)"
  obtains b' h' where "store_entry b1 x h1 = Inr (b', h')"
    "add_post b h (take (unat (e_size x)) bs) True b' h'" "s \<notin> circ_fp b'"
proof -
  let ?xs = "take (unat (e_size x)) bs"
  from evict_spec [OF assms(1,2)] assms(3) obtain n where post: "evict_post b h n b1 h1" by auto
  then have ev: "heap_ok h1" "grant h1 = grant h" "used h1 \<le> used h" "room n b1" "ring_ok b1 h1"
    and data: "map (entry_data h1) (take n (ring b1)) =
      (if full b then tl (map (entry_data h) (take (slots b) (ring b)))
       else map (entry_data h) (take (slots b) (ring b)))"
    and fr: "blocks h1 |` (- circ_fp b1) = blocks h |` (- circ_fp b)" "circ_fp b1 \<subseteq> circ_fp b"
      "\<forall>a. a \<notin> circ_fp b \<longrightarrow> blocks h1 a = blocks h a"
    and dense: "circ_dense b \<longrightarrow> (\<forall>e\<in>set (take n (ring b1)). e_buffptr e \<noteq> NULL)"
    unfolding evict_post_def by blast+
  have s1: "blocks h1 s = Some bs" using fr(3) assms(4,5) by simp
  from store_granted [OF ev(1,4,5) s1 assms(6,7,8)] obtain b' h' where
    st: "store_entry b1 x h1 = Inr (b', h')" "heap_ok h'" "grant h' = grant h1"
    and bl: "blocks h' = (blocks h1)(a \<mapsto> ?xs)" "blocks h1 a = None"
    and ring: "ring b' = take n (ring b1) @ \<lparr>e_buffptr = Ptr a, e_size = e_size x\<rparr> #
        replicate (9 - n) empty_entry"
    and b': "length (entry b') = 10" "out_offs b' = out_offs b1"
      "in_offs b' = next_offs (in_offs b1)" "full b' = (in_offs b' = out_offs b')"
      "c_size b' = c_size b1 + e_size x" .
  have len: "length ?xs = unat (e_size x)" using assms(7) by simp
  note ok1 = store_granted_ok [OF ev(1,4,5) bl len ring b'(5)]
  note sl = room_stored [OF ev(4) b'(3,2,4)]
  have n: "length (take n (ring b1)) = n" "n < 10" "unat (out_offs b1) < 10"
    using ev(4) by (auto simp: room_def)
  have "drop (Suc n) (ring b') = replicate (10 - Suc n) empty_entry"
    unfolding ring using n by simp
  then have ok: "circ_ok b' h'" using sl b' ok1(1) n by (simp add: circ_ok_ring)
  have ex: "circ_exact b'" using sl by (simp add: circ_exact_def)
  have dn: "circ_dense b'" if "circ_dense b"
    unfolding circ_dense_def sl(1) ring using dense that n by auto
  then have ct: "contents b' h' = (if full b then tl (contents b h) else contents b h) @ [?xs]"
    if "circ_dense b"
    using that contents_dense [OF ok] contents_dense [OF assms(2)] sl(1) ok1(3) data by simp
  have a: "a \<notin> circ_fp b1"
    using bl(2) entries_live [of h1 "ring b1"] ev(5) by (auto simp: ring_ok_def circ_fp_ring)
  have "blocks h' |` (- circ_fp b') = blocks h1 |` (- circ_fp b1)"
    unfolding bl(1) ok1(2) using bl(2) by (auto simp: restrict_map_def)
  moreover have "used h' = used h1 + length ?xs"
    using used_add [OF ev(1) st(2) bl] .
  moreover note evict_offs [OF assms(3), folded b'(2)]
  ultimately have "add_post b h ?xs True b' h'"
    using st(2,3) ev(2,3) fr(1) ok ex dn ct by (simp add: add_post_def)
  moreover have "s \<notin> circ_fp b'" using ok1(2) s1 bl(2) fr(2) assms(5) by auto
  ultimately show thesis using that st(1) by blast
qed

lemma circ_add_spec:
  assumes "heap_ok h" "circ_ok b h" "blocks h s = Some bs" "s \<notin> circ_fp b"
    and "e_buffptr x = Ptr s" "unat (e_size x) \<le> length bs"
  shows "\<exists>r b' h'. aesd_circular_buffer_add_entry (Some b) (Some x) h = Inr (Some b', h') \<and>
    add_post b h (take (unat (e_size x)) bs) r b' h' \<and> s \<notin> circ_fp b' \<and>
    ((\<forall>k. grant h k) \<and> used h + unat (e_size x) \<le> PTRDIFF_MAX \<longrightarrow> r)"
proof -
  obtain b1 h1 n where ev: "evict_oldest b h = Inr (b1, h1)" "evict_post b h n b1 h1"
    using evict_spec [OF assms(1,2)] by blast
  obtain p h2 where al: "my_malloc (e_size x) h1 = (p, h2)" by fastforce
  show ?thesis
  proof (cases p)
    case NULL
    note ref = add_refused [OF assms(1,2) ev(1) al [unfolded NULL]]
    have "\<not> ((\<forall>k. grant h k) \<and> used h + unat (e_size x) \<le> PTRDIFF_MAX)"
      using al NULL ev(2) by (auto simp: my_malloc_def kmalloc_def Let_def evict_post_def split: if_splits)
    with ref ev(1) assms(4) show ?thesis
      by (auto simp: aesd_circular_buffer_add_entry_def)
  next
    case (Ptr a)
    from add_granted [OF assms(1,2) ev(1) assms(3-6) al [unfolded Ptr]] obtain b' h' where
      "store_entry b1 x h1 = Inr (b', h')"
      "add_post b h (take (unat (e_size x)) bs) True b' h'" "s \<notin> circ_fp b'" .
    with ev(1) show ?thesis by (auto simp: aesd_circular_buffer_add_entry_def)
  qed
qed

lemma add_entry_refused_spec:
  assumes "heap_ok h" "circ_ok b h" "circ_dense b" "\<not> grant h (brk h)"
  shows "\<exists>b' h'. aesd_circular_buffer_add_entry (Some b) (Some x) h = Inr (Some b', h') \<and>
    heap_ok h' \<and> circ_ok b' h' \<and> full b' = full b \<and> in_offs b' = in_offs b \<and>
    contents b' h' = (if full b then tl (contents b h) else contents b h)"
proof -
  obtain b1 h1 n where ev: "evict_oldest b h = Inr (b1, h1)" "evict_post b h n b1 h1"
    using evict_spec [OF assms(1,2)] by blast
  have "brk h1 = brk h"
    using ev(1) by (auto simp: evict_oldest_def andthen_eq_Inr_iff my_free_def kfree_brk split: if_splits)
  moreover have "grant h1 = grant h" using ev(2) by (simp add: evict_post_def)
  ultimately have "fst (my_malloc (e_size x) h1) = NULL"
    using assms(4) by (simp add: my_malloc_def kmalloc_def Let_def)
  then obtain h2 where al: "my_malloc (e_size x) h1 = (NULL, h2)" by (metis prod.collapse)
  note ref = add_refused [OF assms(1,2) ev(1) al]
  have "full b1 = full b" "in_offs b1 = in_offs b" using ev(2) by (auto simp: evict_post_def)
  with ref(1,2) ev(1) assms(3) show ?thesis
    by (auto simp: aesd_circular_buffer_add_entry_def add_post_def)
qed

subsection \<open>Correctness of the lookups\<close>

lemma ring_nth:
  "length (entry b) = 10 \<Longrightarrow> i < 10 \<Longrightarrow> ring b ! i = entry b ! ((unat (out_offs b) + i) mod 10)"
  by (simp add: ring_def nth_rotate add.commute)

lemma entry_at_ring:
  "length (entry b) = 10 \<Longrightarrow> i < 10 \<Longrightarrow> entry_at b ((unat (out_offs b) + i) mod 10) = Inr (ring b ! i)"
  by (simp add: entry_at_def ring_nth)

lemma unat_of_nat_plus:
  assumes "s + unat z \<le> PTRDIFF_MAX"
  shows "unat (of_nat s :: size_t) = s" "of_nat s + z = (of_nat (s + unat z) :: size_t)"
    "unat (of_nat s + z :: size_t) = s + unat z"
proof -
  show "unat (of_nat s :: size_t) = s" using assms by (intro unat_of_nat_size) simp
  show *: "of_nat s + z = (of_nat (s + unat z) :: size_t)" by simp
  show "unat (of_nat s + z :: size_t) = s + unat z"
    unfolding * using assms by (rule unat_of_nat_size)
qed

text \<open>The entries still to be searched, and the bytes before them, as the loop has advanced.\<close>

lemma ring_advance:
  assumes "length (entry b) = 10" "i < 10"
  shows "drop i (ring b) = ring b ! i # drop (Suc i) (ring b)"
    "sum_list (map (unat \<circ> e_size) (take (Suc i) (ring b))) =
     sum_list (map (unat \<circ> e_size) (take i (ring b))) + unat (e_size (ring b ! i))"
  using assms Cons_nth_drop_Suc [of i "ring b"] by (simp_all add: take_Suc_conv_app_nth)

lemma ring_sum_take:
  assumes "heap_ok h" "circ_ok b h"
  shows "sum_list (map (unat \<circ> e_size) (take i (ring b))) \<le> PTRDIFF_MAX"
proof -
  have "sum_list (map (unat \<circ> e_size) (take i (ring b))) \<le> sum_list (map (unat \<circ> e_size) (ring b))"
    by (metis append_take_drop_id le_add1 map_append sum_list_append)
  also have "\<dots> \<le> PTRDIFF_MAX"
    using assms by (intro entries_bound [of h]) (auto simp: circ_ok_ring ring_ok_def)
  finally show ?thesis .
qed

definition fpos_result :: "bool \<Rightarrow> nat \<Rightarrow> (nat \<times> nat) option \<Rightarrow> (nat \<times> size_t) option res" where
  "fpos_result rtn_null base r =
     (case r of None \<Rightarrow> Inr None
      | Some (j, k) \<Rightarrow> if rtn_null then Inl NullDeref else Inr (Some ((base + j) mod 10, of_nat k)))"

lemma fpos_result_Suc:
  "fpos_result n base (map_option (\<lambda>(j, k). (Suc j, k)) r) = fpos_result n (Suc base) r"
  by (auto simp: fpos_result_def split: option.splits)

lemma find_fpos_loop_spec:
  assumes "heap_ok h" "circ_ok b h" "i \<le> 10"
    and "s = sum_list (map (unat \<circ> e_size) (take i (ring b)))" "s \<le> unat p"
  shows "find_fpos_loop b p rn i (of_nat s) ((unat (out_offs b) + i) mod 10) =
    fpos_result rn (unat (out_offs b) + i)
      (locate (map (entry_data h) (takeWhile (\<lambda>e. e_buffptr e \<noteq> NULL) (drop i (ring b)))) (unat p - s))"
  using assms(3-5)
proof (induction "10 - i" arbitrary: i s)
  case 0
  then have "i = 10" by simp
  with assms(2) show ?case
    by (simp add: circ_ok_ring find_fpos_loop.simps [of b p rn 10] fpos_result_def)
next
  case (Suc m)
  let ?e = "ring b ! i"
  have i: "i < 10" and len: "length (entry b) = 10" using Suc.hyps(2) assms(2) by (auto simp: circ_ok_ring)
  note adv = ring_advance [OF len i]
  have unf: "find_fpos_loop b p rn i (of_nat s) ((unat (out_offs b) + i) mod 10) =
     (if e_buffptr ?e \<noteq> NULL then
        if of_nat s \<le> p \<and> p < of_nat s + e_size ?e then
          (if rn then Inl NullDeref
           else Inr (Some ((unat (out_offs b) + i) mod 10, p - of_nat s)))
        else find_fpos_loop b p rn (Suc i) (of_nat s + e_size ?e) ((unat (out_offs b) + Suc i) mod 10)
      else Inr None)"
    using i by (subst find_fpos_loop.simps) (simp add: entry_at_ring [OF len i] mod_Suc_eq)
  show ?case
  proof (cases "e_buffptr ?e = NULL")
    case True
    then show ?thesis by (simp add: unf adv(1) fpos_result_def)
  next
    case False
    have "entry_ok h ?e"
      using assms(2) i by (simp add: circ_ok_ring ring_ok_def list_all_length)
    then have z: "length (entry_data h ?e) = unat (e_size ?e)" by (rule entry_ok_length)
    have bound: "s + unat (e_size ?e) \<le> PTRDIFF_MAX"
      using ring_sum_take [OF assms(1,2), of "Suc i"] adv(2) Suc.prems(2) by simp
    note w = unat_of_nat_plus [OF bound]
    have cond: "of_nat s \<le> p \<and> p < of_nat s + e_size ?e \<longleftrightarrow> unat p - s < unat (e_size ?e)"
      using Suc.prems(3) w by (auto simp: word_le_nat_alt word_less_nat_alt)
    show ?thesis
    proof (cases "unat p - s < unat (e_size ?e)")
      case True
      have "p - of_nat s = of_nat (unat p - s)"
        using Suc.prems(3) by (simp add: of_nat_diff)
      with True False cond show ?thesis by (simp add: unf adv(1) z fpos_result_def)
    next
      case f: False
      have "find_fpos_loop b p rn (Suc i) (of_nat (s + unat (e_size ?e))) ((unat (out_offs b) + Suc i) mod 10)
        = fpos_result rn (unat (out_offs b) + Suc i)
           (locate (map (entry_data h) (takeWhile (\<lambda>e. e_buffptr e \<noteq> NULL) (drop (Suc i) (ring b))))
              (unat p - (s + unat (e_size ?e))))"
        using Suc.hyps(2) i f Suc.prems adv(2) by (intro Suc.hyps(1)) auto
      moreover have "find_fpos_loop b p rn i (of_nat s) ((unat (out_offs b) + i) mod 10) =
        find_fpos_loop b p rn (Suc i) (of_nat (s + unat (e_size ?e))) ((unat (out_offs b) + Suc i) mod 10)"
        unfolding unf cond by (simp only: False f if_False if_True not_False_eq_True w(2))
      ultimately show ?thesis
        using False f by (simp add: adv(1) z fpos_result_Suc diff_diff_left)
    qed
  qed
qed

lemma find_fpos_spec:
  assumes "heap_ok h" "circ_ok b h"
  shows "aesd_circular_buffer_find_entry_offset_for_fpos (Some b) p rn =
    fpos_result rn (unat (out_offs b)) (locate (contents b h) (unat p))"
  using find_fpos_loop_spec [OF assms, of 0 0 p rn] assms(2)
  by (simp add: aesd_circular_buffer_find_entry_offset_for_fpos_def contents_def live_def circ_ok_ring)

text \<open>The lookup by write command finds byte \<open>k\<close> of the \<open>c\<close>-th visible entry.\<close>

definition ioctl_result :: "aesd_circular_buffer \<Rightarrow> heap \<Rightarrow> nat \<Rightarrow> nat \<Rightarrow> nat option \<times> size_t option" where
  "ioctl_result b h c k =
     (if c < length (contents b h) \<and> k < length (contents b h ! c)
      then (Some ((unat (out_offs b) + c) mod 10),
            Some (of_nat (length (concat (take c (contents b h))) + k)))
      else (None, Some 0))"

lemma live_nth:
  "i < length (live b) \<Longrightarrow> live b ! i = ring b ! i \<and> e_buffptr (ring b ! i) \<noteq> NULL"
proof -
  assume i: "i < length (live b)"
  then have "live b ! i = ring b ! i" by (simp add: live_def takeWhile_nth)
  moreover have "live b ! i \<in> set (live b)" using i by (rule nth_mem)
  ultimately show ?thesis unfolding live_def by (auto dest: set_takeWhileD)
qed

lemma live_end:
  assumes "i = length (live b)" "i < length (ring b)"
  shows "e_buffptr (ring b ! i) = NULL"
  using assms nth_length_takeWhile [of "\<lambda>e. e_buffptr e \<noteq> NULL" "ring b"] by (simp add: live_def)

lemma live_length: "length (live b) \<le> length (entry b)"
  unfolding live_def by (metis length_ring length_takeWhile_le)

lemma contents_length:
  assumes "circ_ok b h" "i < length (contents b h)"
  shows "length (contents b h ! i) = unat (e_size (ring b ! i))" "i < 10"
proof -
  have i: "i < length (live b)" using assms(2) by (simp add: contents_def)
  then show "i < 10" using live_length [of b] assms(1) by (simp add: circ_ok_def)
  have "entry_ok h (ring b ! i)"
    using assms(1) \<open>i < 10\<close> by (simp add: circ_ok_ring ring_ok_def list_all_length)
  with i show "length (contents b h ! i) = unat (e_size (ring b ! i))"
    by (simp add: contents_def live_nth entry_ok_length)
qed

lemma contents_take_sum:
  assumes "circ_ok b h" "i \<le> length (contents b h)"
  shows "length (concat (take i (contents b h))) = sum_list (map (unat \<circ> e_size) (take i (ring b)))"
  using assms(2)
proof (induction i)
  case (Suc i)
  then have i: "i < length (contents b h)" by simp
  have "length (entry b) = 10" using assms(1) by (simp add: circ_ok_def)
  from ring_advance(2) [OF this contents_length(2) [OF assms(1) i]] Suc i show ?case
    by (simp add: take_Suc_conv_app_nth contents_length(1) [OF assms(1)] comp_def)
qed simp

lemma find_ioctl_loop_spec:
  assumes "heap_ok h" "circ_ok b h" "unat c < 10" "i \<le> unat c" "i \<le> length (contents b h)"
    and "s = sum_list (map (unat \<circ> e_size) (take i (ring b)))"
  shows "find_ioctl_loop b c k False i (of_nat s) ((unat (out_offs b) + i) mod 10) =
    Inr (ioctl_result b h (unat c) (unat k))"
  using assms(4-6)
proof (induction "unat c - i" arbitrary: i s)
  case 0
  then have ic: "i = unat c" by simp
  then have i: "i < 10" and len: "length (entry b) = 10" using assms(2,3) by (auto simp: circ_ok_def)
  have unf: "find_ioctl_loop b c k False i (of_nat s) ((unat (out_offs b) + i) mod 10) =
      (if e_buffptr (ring b ! i) \<noteq> NULL \<and> unat k < unat (e_size (ring b ! i))
       then Inr (Some ((unat (out_offs b) + i) mod 10), Some (of_nat s + k))
       else Inr (None, Some 0))"
    using i by (subst find_ioctl_loop.simps)
      (simp add: entry_at_ring [OF len i] word_le_nat_alt not_le ic [symmetric])
  show ?case
  proof (cases "i < length (contents b h)")
    case True
    have "e_buffptr (ring b ! i) \<noteq> NULL"
      using True live_nth [of i b] by (simp add: contents_def)
    moreover have "s = length (concat (take i (contents b h)))"
      using contents_take_sum [OF assms(2), of i] 0 by (simp add: comp_def)
    ultimately show ?thesis
      unfolding unf using True ic contents_length(1) [OF assms(2) True]
      by (simp add: ioctl_result_def)
  next
    case False
    then have "i = length (live b)" using 0 by (simp add: contents_def)
    then have "e_buffptr (ring b ! i) = NULL" using live_end len i by simp
    with False ic show ?thesis unfolding unf by (simp add: ioctl_result_def)
  qed
next
  case (Suc m)
  let ?e = "ring b ! i"
  have i: "i < unat c" "i < 10" and len: "length (entry b) = 10"
    using Suc.hyps(2) assms(2,3) by (auto simp: circ_ok_def)
  have unf: "find_ioctl_loop b c k False i (of_nat s) ((unat (out_offs b) + i) mod 10) =
      (if e_buffptr ?e \<noteq> NULL
       then find_ioctl_loop b c k False (Suc i) (of_nat s + e_size ?e) ((unat (out_offs b) + Suc i) mod 10)
       else Inr (None, Some 0))"
    using i by (subst find_ioctl_loop.simps) (simp add: entry_at_ring [OF len i(2)] mod_Suc_eq)
  show ?case
  proof (cases "i < length (contents b h)")
    case True
    have "e_buffptr ?e \<noteq> NULL" using True live_nth [of i b] by (simp add: contents_def)
    moreover have "find_ioctl_loop b c k False (Suc i) (of_nat (s + unat (e_size ?e)))
        ((unat (out_offs b) + Suc i) mod 10) = Inr (ioctl_result b h (unat c) (unat k))"
      using Suc.hyps(2) i True Suc.prems ring_advance(2) [OF len i(2)] by (intro Suc.hyps(1)) auto
    ultimately show ?thesis unfolding unf by simp
  next
    case False
    then have "i = length (live b)" using Suc.prems by (simp add: contents_def)
    then have "e_buffptr ?e = NULL" using live_end len i by simp
    with False i show ?thesis unfolding unf by (simp add: ioctl_result_def)
  qed
qed

lemma find_ioctl_spec:
  assumes "heap_ok h" "circ_ok b h"
  shows "aesd_circular_buffer_find_entry_for_ioctl (Some b) c k False =
    Inr (if 10 \<le> unat c then (None, None) else ioctl_result b h (unat c) (unat k))"
  using find_ioctl_loop_spec [OF assms, of c 0 0 k] assms(2)
  by (auto simp: aesd_circular_buffer_find_entry_for_ioctl_def circ_ok_def)

subsection \<open>Correctness of initialisation and cleanup\<close>

lemma circ_init:
  "circ_ok zero_circular_buffer h" "circ_dense zero_circular_buffer" "circ_exact zero_circular_buffer"
  "contents zero_circular_buffer h = []" "circ_fp zero_circular_buffer = {}"
proof -
  have e: "entry zero_circular_buffer = replicate 10 empty_entry"
    by (simp add: zero_circular_buffer_def empty_entry_def)
  have r: "ring zero_circular_buffer = replicate 10 empty_entry" "slots zero_circular_buffer = 0"
    by (simp_all add: ring_def e) (simp_all add: zero_circular_buffer_def slots_def empty_entry_def)
  have z: "e_size empty_entry = 0" "e_buffptr empty_entry = NULL" by (simp_all add: empty_entry_def)
  show "circ_ok zero_circular_buffer h"
    by (simp add: circ_ok_def e r z list_all_iff sum_list_replicate)
      (simp add: zero_circular_buffer_def)
  show "circ_dense zero_circular_buffer" "circ_exact zero_circular_buffer"
    by (simp_all add: circ_dense_def circ_exact_def r(2)) (simp add: zero_circular_buffer_def)
  show "contents zero_circular_buffer h = []" "circ_fp zero_circular_buffer = {}"
    by (simp_all add: contents_def live_def circ_fp_def r(1) e z)
qed

lemma cleanup_loop_spec:
  "heap_ok h \<Longrightarrow> list_all (entry_ok h) es \<Longrightarrow> distinct (addrs es) \<Longrightarrow>
   \<exists>h'. cleanup_loop es h = Inr h' \<and> heap_ok h' \<and> grant h' = grant h \<and>
     blocks h' = blocks h |` (- set (addrs es))"
proof (induction es arbitrary: h)
  case (Cons e es)
  from my_free_entry [OF Cons.prems(1)] Cons.prems(2) obtain h1 where
    h1: "my_free (e_buffptr e) h = Inr h1" "heap_ok h1" "grant h1 = grant h"
    "blocks h1 = blocks h |` (- set (addrs [e]))" by auto
  have dis: "set (addrs [e]) \<inter> set (addrs es) = {}" "distinct (addrs es)"
    using Cons.prems(3) by (auto split: ptr.splits)
  have "blocks h1 c = blocks h c" if "c \<in> set (addrs es)" for c
    unfolding h1(4) using that dis(1) by (intro restrict_in) blast
  then have "list_all (entry_ok h1) es"
    using entries_frame(1) [of es h1 h] Cons.prems(2) by auto
  from Cons.IH [OF h1(2) this dis(2)] obtain h' where
    h': "cleanup_loop es h1 = Inr h'" "heap_ok h'" "grant h' = grant h1"
    "blocks h' = blocks h1 |` (- set (addrs es))" by auto
  have "addrs (e # es) = addrs [e] @ addrs es" by (simp split: ptr.split)
  then have "blocks h' = blocks h |` (- set (addrs (e # es)))"
    unfolding h'(4) h1(4) by (simp add: Int_commute)
  moreover have "cleanup_loop (e # es) h = Inr h'"
    using h1(1) h'(1) by (cases "e_buffptr e") (auto simp: my_free_def)
  ultimately show ?case using h' h1(3) by auto
qed simp

lemma cleanup_spec:
  "heap_ok h \<Longrightarrow> circ_ok b h \<Longrightarrow>
   \<exists>h'. aesd_circular_buffer_cleanup (Some b) h = Inr h' \<and> heap_ok h' \<and> grant h' = grant h \<and>
     blocks h' = blocks h |` (- circ_fp b)"
  using cleanup_loop_spec [of h "entry b"]
  by (simp add: aesd_circular_buffer_cleanup_def circ_ok_def circ_fp_def)

text \<open>
  The use of \<open>AESD_CIRCULAR_BUFFER_FOREACH\<close> that its comment shows, freeing every entry, is
  \<open>aesd_circular_buffer_cleanup\<close>, since freeing a null pointer does nothing.
\<close>

lemma foreach_cleanup_loop:
  "length (entry b) = 10 \<Longrightarrow> foreach_from (\<lambda>e. free (e_buffptr e)) b i h = cleanup_loop (drop (unat i) (entry b)) h"
proof (induction "10 - unat i" arbitrary: i h)
  case 0
  then show ?case by (simp add: foreach_from.simps)
next
  case (Suc n)
  then have i: "unat i < 10" "unat (i + 1) = Suc (unat i)" by (simp_all add: unat_word_ariths mod_if)
  then have "drop (unat i) (entry b) = entry b ! unat i # drop (unat (i + 1)) (entry b)"
    using Suc.prems by (simp add: Cons_nth_drop_Suc)
  moreover have "foreach_from (\<lambda>e. free (e_buffptr e)) b (i + 1) = cleanup_loop (drop (unat (i + 1)) (entry b))"
    using Suc i by (intro ext) simp
  ultimately show ?case
    using i(1) Suc.prems by (subst foreach_from.simps) (auto simp: entry_at_def free_def my_free_def kfree_def)
qed

lemma foreach_free_is_cleanup:
  assumes "circ_ok b h"
  shows "AESD_CIRCULAR_BUFFER_FOREACH (\<lambda>e. free (e_buffptr e)) b h = aesd_circular_buffer_cleanup (Some b) h"
  using assms foreach_cleanup_loop [of b 0 h]
  by (simp add: AESD_CIRCULAR_BUFFER_FOREACH_def aesd_circular_buffer_cleanup_def circ_ok_def)

subsection \<open>The interface a reader relies on\<close>

text \<open>
  A store of messages that can be addressed by byte position: a position is either found in one
  message, together with a block that holds that message, or lies behind the end.
\<close>

definition log_read :: "bytes list \<Rightarrow> nat \<Rightarrow> nat \<Rightarrow> bytes" where
  "log_read xs p n = (case locate xs p of None \<Rightarrow> [] | Some (i, k) \<Rightarrow> take n (drop k (xs ! i)))"

lemma log_read_prefix:
  obtains zs where "drop p (concat xs) = log_read xs p n @ zs"
proof (cases "locate xs p")
  case None
  with that show thesis by (simp add: log_read_def)
next
  case (Some ik)
  obtain i k where ik: "ik = (i, k)" by fastforce
  from locate_drop [OF Some [unfolded ik]]
  have "drop p (concat xs) = take n (drop k (xs ! i)) @ drop n (drop k (xs ! i)) @ concat (drop (Suc i) xs)"
    by (simp only: append_take_drop_id append_assoc [symmetric])
  with that Some ik show thesis by (simp add: log_read_def)
qed

lemma log_read_Nil_iff: "log_read xs p n = [] \<longleftrightarrow> length (concat xs) \<le> p \<or> n = 0"
proof (cases "locate xs p")
  case None
  then show ?thesis by (simp add: log_read_def flip: locate_None_iff)
next
  case (Some ik)
  obtain i k where ik: "ik = (i, k)" by fastforce
  with Some have "\<not> length (concat xs) \<le> p" by (simp flip: locate_None_iff)
  with locate_Some [OF Some [unfolded ik]] Some ik show ?thesis by (auto simp: log_read_def)
qed

lemma log_read_length: "length (log_read xs p n) \<le> n" "length (log_read xs p n) \<le> length (concat xs) - p"
proof -
  show "length (log_read xs p n) \<le> n" by (auto simp: log_read_def split: option.splits)
  obtain zs where "drop p (concat xs) = log_read xs p n @ zs" by (rule log_read_prefix)
  then have "length (concat xs) - p = length (log_read xs p n) + length zs"
    by (metis length_append length_drop)
  then show "length (log_read xs p n) \<le> length (concat xs) - p" by simp
qed

locale message_index =
  fixes find :: "'c \<Rightarrow> size_t \<Rightarrow> (nat \<times> size_t) option res"
    and slot :: "'c \<Rightarrow> nat \<Rightarrow> aesd_buffer_entry res"
    and view :: "'c \<Rightarrow> heap \<Rightarrow> bytes list"
    and ok :: "'c \<Rightarrow> heap \<Rightarrow> bool"
  assumes find_miss: "heap_ok h \<Longrightarrow> ok c h \<Longrightarrow> locate (view c h) (unat p) = None \<Longrightarrow> find c p = Inr None"
    and find_hit: "heap_ok h \<Longrightarrow> ok c h \<Longrightarrow> locate (view c h) (unat p) = Some (i, k) \<Longrightarrow>
      \<exists>j e a. find c p = Inr (Some (j, of_nat k)) \<and> slot c j = Inr e \<and> e_buffptr e = Ptr a \<and>
        blocks h a = Some (view c h ! i) \<and> unat (e_size e) = length (view c h ! i)"
    and view_fits: "heap_ok h \<Longrightarrow> ok c h \<Longrightarrow> length (concat (view c h)) \<le> PTRDIFF_MAX"
begin

text \<open>What a reader that copies at most \<open>n\<close> bytes of the found message gets.\<close>

lemma read_found:
  assumes "heap_ok h" "ok c h" "locate (view c h) (unat p) = Some (i, k)"
  shows "\<exists>j e. find c p = Inr (Some (j, of_nat k)) \<and> slot c j = Inr e \<and>
    load (e_buffptr e) (unat (of_nat k :: size_t)) (unat (min n (e_size e - of_nat k))) h =
      Inr (log_read (view c h) (unat p) (unat n)) \<and>
    unat (min n (e_size e - of_nat k)) = length (log_read (view c h) (unat p) (unat n))"
proof -
  let ?x = "view c h ! i"
  from find_hit [OF assms] obtain j e a where
    f: "find c p = Inr (Some (j, of_nat k))" "slot c j = Inr e" "e_buffptr e = Ptr a"
    "blocks h a = Some ?x" "unat (e_size e) = length ?x" by blast
  have k: "k < length ?x" using locate_Some [OF assms(3)] by simp
  have kn: "unat (of_nat k :: size_t) = k"
    using k heap_ok_block [OF assms(1) f(4)] by (intro unat_of_nat_size) simp
  have av: "unat (e_size e - of_nat k) = length ?x - k"
    using f(5) k kn by (subst unat_sub) (auto simp: word_le_nat_alt)
  have m: "unat (min n (e_size e - of_nat k)) = min (unat n) (length ?x - k)"
    using av by (auto simp: min_def word_le_nat_alt)
  have lr: "log_read (view c h) (unat p) (unat n) = take (unat n) (drop k ?x)"
    using assms(3) by (simp add: log_read_def)
  have "take (min (unat n) (length ?x - k)) (drop k ?x) = take (unat n) (drop k ?x)"
    by (metis length_drop min.commute take_all_iff take_take linorder_le_cases min.absorb1 min.absorb2)
  then have "load (e_buffptr e) (unat (of_nat k :: size_t)) (unat (min n (e_size e - of_nat k))) h =
      Inr (take (unat n) (drop k ?x))"
    using f(3,4) k by (simp add: load_def kn m)
  moreover have "unat (min n (e_size e - of_nat k)) = length (take (unat n) (drop k ?x))"
    using m by simp
  ultimately show ?thesis using f(1,2) lr by auto
qed

end

interpretation cindex: message_index
  "\<lambda>b p. aesd_circular_buffer_find_entry_offset_for_fpos (Some b) p False" entry_at contents circ_ok
proof unfold_locales
  fix h b i k and p :: size_t
  assume ok: "heap_ok h" "circ_ok b h" and hit: "locate (contents b h) (unat p) = Some (i, k)"
  have i: "i < length (contents b h)" using locate_Some [OF hit] by simp
  then have l: "i < length (live b)" by (simp add: contents_def)
  have "entry_ok h (ring b ! i)"
    using ok(2) contents_length(2) [OF ok(2) i] by (simp add: circ_ok_ring ring_ok_def list_all_length)
  then obtain a where "e_buffptr (ring b ! i) = Ptr a" "blocks h a = Some (contents b h ! i)"
    using live_nth [OF l] l
    by (auto simp: entry_ok_def contents_def entry_data_def split: ptr.splits option.splits)
  then show "\<exists>j e a. aesd_circular_buffer_find_entry_offset_for_fpos (Some b) p False = Inr (Some (j, of_nat k)) \<and>
      entry_at b j = Inr e \<and> e_buffptr e = Ptr a \<and> blocks h a = Some (contents b h ! i) \<and>
      unat (e_size e) = length (contents b h ! i)"
    using find_fpos_spec [OF ok] hit contents_length [OF ok(2) i] entry_at_ring [of b i] ok(2)
    by (auto simp: fpos_result_def circ_ok_def)
next
  fix h b and p :: size_t
  assume "heap_ok h" "circ_ok b h" "locate (contents b h) (unat p) = None"
  then show "aesd_circular_buffer_find_entry_offset_for_fpos (Some b) p False = Inr None"
    by (simp add: find_fpos_spec fpos_result_def)
next
  fix h b
  assume ok: "heap_ok h" "circ_ok b h"
  then show "length (concat (contents b h)) \<le> PTRDIFF_MAX"
    using contents_take_sum [OF ok(2), of "length (contents b h)"]
      ring_sum_take [OF ok, of "length (contents b h)"] by simp
qed

subsection \<open>Properties of the circular buffer\<close>

text \<open>
  C16. Adding an entry when memory can be had: the buffer stays well formed, without holes and with
  an exact \<open>full\<close> flag; its contents are those before, less the oldest if there were ten, followed
  by a copy of the new data; and outside the blocks of the buffer memory is as it was, so the
  evicted entry has been freed and nothing else.
\<close>

theorem add_entry_correct:
  assumes "heap_ok h" "circ_ok b h" "circ_dense b" "circ_exact b" "blocks h s = Some bs" "s \<notin> circ_fp b"
    and "e_buffptr x = Ptr s" "unat (e_size x) \<le> length bs"
    and "\<forall>k. grant h k" "used h + unat (e_size x) \<le> PTRDIFF_MAX"
  shows "\<exists>b' h'. aesd_circular_buffer_add_entry (Some b) (Some x) h = Inr (Some b', h') \<and>
    heap_ok h' \<and> circ_ok b' h' \<and> circ_dense b' \<and> circ_exact b' \<and>
    contents b' h' = log_push (contents b h) (take (unat (e_size x)) bs) \<and>
    blocks h' |` (- circ_fp b') = blocks h |` (- circ_fp b)"
proof -
  from circ_add_spec [OF assms(1,2,5-8)] obtain r b' h' where
    "aesd_circular_buffer_add_entry (Some b) (Some x) h = Inr (Some b', h')"
    "add_post b h (take (unat (e_size x)) bs) r b' h'"
    "(\<forall>k. grant h k) \<and> used h + unat (e_size x) \<le> PTRDIFF_MAX \<longrightarrow> r" by blast
  moreover from this assms(9,10) have "r" by simp
  ultimately show ?thesis using assms(3,4) contents_count [OF assms(2,3)]
    by (auto simp: add_post_def log_push_def circ_exact_def)
qed

theorem add_entry_correct_witness:
  "\<exists>b' h'. aesd_circular_buffer_add_entry (Some zero_circular_buffer) (Some \<lparr>e_buffptr = Ptr 0, e_size = 2\<rparr>)
      (block_heap ''ab'' (\<lambda>_. True)) = Inr (Some b', h') \<and> contents b' h' = [''ab'']"
  using add_entry_correct [of "block_heap ''ab'' (\<lambda>_. True)" zero_circular_buffer 0 "''ab''" "\<lparr>e_buffptr = Ptr 0, e_size = 2\<rparr>"]
    block_heap_ok [of "''ab''" "\<lambda>_. True"]
  by (simp add: circ_init PTRDIFF_MAX_def log_push_def) blast

lemma zero_not_full: "\<not> full zero_circular_buffer"
  by (simp add: zero_circular_buffer_def)

text \<open>
  C17. Adding an entry when the allocator refuses: nothing is stored and the buffer stays well
  formed, but a full buffer has lost its oldest entry all the same, and \<open>full\<close> is still set.
\<close>

theorem add_entry_refused:
  assumes "heap_ok h" "circ_ok b h" "circ_dense b" "\<not> grant h (brk h)"
  shows "\<exists>b' h'. aesd_circular_buffer_add_entry (Some b) (Some x) h = Inr (Some b', h') \<and>
    heap_ok h' \<and> circ_ok b' h' \<and> full b' = full b \<and> in_offs b' = in_offs b \<and>
    contents b' h' = (if full b then tl (contents b h) else contents b h)"
  by (rule add_entry_refused_spec [OF assms])

theorem add_entry_refused_witness:
  "\<exists>b' h'. aesd_circular_buffer_add_entry (Some zero_circular_buffer) (Some \<lparr>e_buffptr = Ptr 0, e_size = 2\<rparr>)
      (block_heap ''ab'' (\<lambda>_. False)) = Inr (Some b', h') \<and> contents b' h' = []"
  using add_entry_refused [of "block_heap ''ab'' (\<lambda>_. False)" zero_circular_buffer "\<lparr>e_buffptr = Ptr 0, e_size = 2\<rparr>"]
    block_heap_ok [of "''ab''" "\<lambda>_. False"] zero_not_full
  by (auto simp: circ_init PTRDIFF_MAX_def)

text \<open>
  C18. Lookup by file position: a position inside the concatenated contents is found as byte \<open>k\<close>
  of entry \<open>i\<close>, the one place it denotes, in the slot where that entry is; a position behind the
  end gives null. With a null \<open>entry_offset_byte_rtn\<close>, which the code itself allows for, a
  position that is found ends in a null dereference, in the debug print.
\<close>

theorem find_fpos_correct:
  assumes "heap_ok h" "circ_ok b h"
  shows "if unat p < length (concat (contents b h))
    then \<exists>i k. i < length (contents b h) \<and> k < length (contents b h ! i) \<and>
      unat p = length (concat (take i (contents b h))) + k \<and>
      aesd_circular_buffer_find_entry_offset_for_fpos (Some b) p False =
        Inr (Some ((unat (out_offs b) + i) mod 10, of_nat k)) \<and>
      aesd_circular_buffer_find_entry_offset_for_fpos (Some b) p True = Inl NullDeref
    else aesd_circular_buffer_find_entry_offset_for_fpos (Some b) p rn = Inr None"
proof (cases "locate (contents b h) (unat p)")
  case None
  then show ?thesis using find_fpos_spec [OF assms] locate_None_iff [of "contents b h" "unat p"]
    by (simp add: fpos_result_def)
next
  case (Some ik)
  obtain i k where ik: "ik = (i, k)" by fastforce
  have "unat p < length (concat (contents b h))"
    using locate_None_iff [of "contents b h" "unat p"] Some by simp
  with find_fpos_spec [OF assms] locate_Some [OF Some [unfolded ik]] Some ik show ?thesis
    by (auto simp: fpos_result_def)
qed

theorem find_fpos_correct_witness:
  "aesd_circular_buffer_find_entry_offset_for_fpos (Some zero_circular_buffer) 0 False = Inr None"
  using find_fpos_correct [OF heap_ok_empty, of zero_circular_buffer "\<lambda>_. True" 0 False] by (simp add: circ_init)

text \<open>
  C19. Lookup by write command: byte \<open>k\<close> of the \<open>c\<close>-th entry counted from the oldest is found in
  the slot of that entry, with its position in the concatenated contents; a command or an offset
  that does not exist gives null and position 0, and a command of ten or more gives null and
  stores nothing.
\<close>

theorem find_ioctl_correct:
  assumes "heap_ok h" "circ_ok b h"
  shows "aesd_circular_buffer_find_entry_for_ioctl (Some b) c k False =
    Inr (if 10 \<le> unat c then (None, None)
         else if unat c < length (contents b h) \<and> unat k < length (contents b h ! unat c)
         then (Some ((unat (out_offs b) + unat c) mod 10),
               Some (of_nat (length (concat (take (unat c) (contents b h))) + unat k)))
         else (None, Some 0))"
  using find_ioctl_spec [OF assms] by (simp add: ioctl_result_def)

theorem find_ioctl_correct_witness:
  "aesd_circular_buffer_find_entry_for_ioctl (Some zero_circular_buffer) 0 0 False = Inr (None, Some 0) \<and>
   aesd_circular_buffer_find_entry_for_ioctl (Some zero_circular_buffer) 10 0 False = Inr (None, None)"
  using find_ioctl_correct [OF heap_ok_empty, of zero_circular_buffer "\<lambda>_. True" 0 0]
    find_ioctl_correct [OF heap_ok_empty, of zero_circular_buffer "\<lambda>_. True" 10 0]
  by (simp add: circ_init)

end
