(* ===== verification/Temperary_Buffer.thy ===== *)
theory Temperary_Buffer
  imports CMemory
begin

text \<open>
  The growing byte buffer of \<^verbatim>\<open>aesd_temperaty_buffer.c\<close>, in which data is collected until a
  newline completes it. The repository has the file twice: the driver's copy on
  \<open>kmalloc\<close>/\<open>kfree\<close>, and the server's on \<open>malloc\<close>/\<open>free\<close>. Both are modelled, operation by
  operation, and both are instances of one contract, the locale \<open>accumulator\<close>: a buffer holds a
  byte string and owns at most one block; adding appends or, when memory is refused, changes
  nothing; cleaning gives the block back.
\<close>

record aesd_temperary_buffer =
  t_buffptr :: ptr
  t_size :: size_t

subsection \<open>The driver's copy\<close>

definition aesd_temperary_buffer_init :: "aesd_temperary_buffer" where
  "aesd_temperary_buffer_init = \<lparr>t_buffptr = NULL, t_size = 0\<rparr>"

definition aesd_temperary_buffer_clean ::
    "aesd_temperary_buffer \<Rightarrow> heap \<Rightarrow> (aesd_temperary_buffer \<times> heap) res" where
  "aesd_temperary_buffer_clean b h =
     (if NULL \<noteq> t_buffptr b
      then andthen (kfree (t_buffptr b) h) (\<lambda>h1. Inr (b\<lparr>t_buffptr := NULL, t_size := 0\<rparr>, h1))
      else Inr (b, h))"

definition aesd_temperary_buffer_is_empty :: "aesd_temperary_buffer \<Rightarrow> bool" where
  "aesd_temperary_buffer_is_empty b \<longleftrightarrow> t_buffptr b = NULL \<or> t_size b = 0"

definition aesd_temperary_buffer_add ::
    "aesd_temperary_buffer \<Rightarrow> ptr \<Rightarrow> size_t \<Rightarrow> heap \<Rightarrow> (bool \<times> aesd_temperary_buffer \<times> heap) res" where
  "aesd_temperary_buffer_add b data n h =
     (let buffptrLast = t_buffptr b in
      if buffptrLast = NULL then
        (case kmalloc n h of
           (NULL, h1) \<Rightarrow> Inr (False, b, h1)
         | (Ptr a, h1) \<Rightarrow>
             andthen (memcpy (Ptr a) 0 data 0 n h1) (\<lambda>h2.
             Inr (True, b\<lparr>t_buffptr := Ptr a, t_size := n\<rparr>, h2)))
      else
        (case kmalloc (t_size b + n) h of
           (NULL, h1) \<Rightarrow> Inr (False, b, h1)
         | (Ptr a, h1) \<Rightarrow>
             andthen (memcpy (Ptr a) 0 buffptrLast 0 (t_size b) h1) (\<lambda>h2.
             andthen (memcpy (Ptr a) (unat (t_size b)) data 0 n h2) (\<lambda>h3.
             andthen (kfree buffptrLast h3) (\<lambda>h4.
             Inr (True, b\<lparr>t_buffptr := Ptr a, t_size := t_size b + n\<rparr>, h4))))))"

definition aesd_temperary_buffer_delete ::
    "aesd_temperary_buffer \<Rightarrow> heap \<Rightarrow> (aesd_temperary_buffer \<times> heap) res" where
  "aesd_temperary_buffer_delete b h =
     (if NULL \<noteq> t_buffptr b
      then andthen (kfree (t_buffptr b) h) (\<lambda>h1. Inr (b\<lparr>t_buffptr := NULL, t_size := 0\<rparr>, h1))
      else Inr (b, h))"

subsection \<open>Contents, ownership, well-formedness\<close>

definition temp_data :: "aesd_temperary_buffer \<Rightarrow> heap \<Rightarrow> bytes" where
  "temp_data b h = (case t_buffptr b of NULL \<Rightarrow> [] | Ptr a \<Rightarrow> the (blocks h a))"

definition temp_fp :: "aesd_temperary_buffer \<Rightarrow> nat set" where
  "temp_fp b = (case t_buffptr b of NULL \<Rightarrow> {} | Ptr a \<Rightarrow> {a})"

definition temp_ok :: "aesd_temperary_buffer \<Rightarrow> heap \<Rightarrow> bool" where
  "temp_ok b h \<longleftrightarrow>
     (case t_buffptr b of
        NULL \<Rightarrow> t_size b = 0
      | Ptr a \<Rightarrow> (case blocks h a of None \<Rightarrow> False | Some bs \<Rightarrow> length bs = unat (t_size b)))"

lemma temp_ok_cases [consumes 1, case_names Empty Block]:
  assumes "temp_ok b h"
  obtains "t_buffptr b = NULL" "t_size b = 0"
  | a bs where "t_buffptr b = Ptr a" "blocks h a = Some bs" "length bs = unat (t_size b)"
  using assms by (auto simp: temp_ok_def split: ptr.splits option.splits)

lemmas temp_view_defs = temp_ok_def temp_data_def temp_fp_def

lemma temp_ok_fp_live: "temp_ok b h \<Longrightarrow> temp_fp b \<subseteq> dom (blocks h)"
  by (cases rule: temp_ok_cases) (auto simp: temp_fp_def)

lemma temp_ok_length: "temp_ok b h \<Longrightarrow> length (temp_data b h) = unat (t_size b)"
  by (cases rule: temp_ok_cases) (auto simp: temp_data_def)

text \<open>A heap that agrees on the block of the buffer has the same buffer.\<close>

lemma temp_frame:
  assumes "\<And>a. a \<in> temp_fp b \<Longrightarrow> blocks h' a = blocks h a"
  shows "temp_ok b h' = temp_ok b h" "temp_data b h' = temp_data b h"
  using assms by (auto simp: temp_view_defs split: ptr.splits)

lemma temp_frame_upd:
  assumes "k \<notin> temp_fp b" "blocks h' = (blocks h)(k := v)"
  shows "temp_ok b h' = temp_ok b h" "temp_data b h' = temp_data b h"
proof -
  have "blocks h' a = blocks h a" if "a \<in> temp_fp b" for a using assms that by auto
  then show "temp_ok b h' = temp_ok b h" "temp_data b h' = temp_data b h" by (rule temp_frame; blast)+
qed

text \<open>No overflow: two blocks that fit in memory have a combined size that fits in \<open>size_t\<close>.\<close>

lemma unat_plus_size:
  "unat a \<le> PTRDIFF_MAX \<Longrightarrow> unat b \<le> PTRDIFF_MAX \<Longrightarrow> unat (a + b) = unat a + unat b" for a b :: size_t
  by (rule unat_plus_simple [THEN iffD1]) (simp add: no_olen_add_nat PTRDIFF_MAX_def)

subsection \<open>The contract\<close>

text \<open>
  \<open>add\<close> reads \<open>n\<close> bytes of the caller's block \<open>s\<close>. It never faults; either it appends those
  bytes, or it reports failure and leaves buffer and blocks as they were; it fails only when an
  allocation is refused; outside the buffer's own block nothing changes and nothing is leaked.
\<close>

locale accumulator =
  fixes init :: 'b
    and add :: "'b \<Rightarrow> ptr \<Rightarrow> size_t \<Rightarrow> heap \<Rightarrow> (bool \<times> 'b \<times> heap) res"
    and is_empty :: "'b \<Rightarrow> bool"
    and clean :: "'b \<Rightarrow> heap \<Rightarrow> ('b \<times> heap) res"
    and data :: "'b \<Rightarrow> heap \<Rightarrow> bytes"
    and fp :: "'b \<Rightarrow> nat set"
    and ok :: "'b \<Rightarrow> heap \<Rightarrow> bool"
  assumes init_ok: "ok init h" "data init h = []" "fp init = {}"
    and is_empty_iff: "ok b h \<Longrightarrow> is_empty b \<longleftrightarrow> data b h = []"
    and fp_live: "ok b h \<Longrightarrow> fp b \<subseteq> dom (blocks h)"
    and ok_frame: "(\<And>a. a \<in> fp b \<Longrightarrow> blocks h' a = blocks h a) \<Longrightarrow> ok b h' = ok b h"
    and data_frame: "(\<And>a. a \<in> fp b \<Longrightarrow> blocks h' a = blocks h a) \<Longrightarrow> data b h' = data b h"
    and add_spec: "heap_ok h \<Longrightarrow> ok b h \<Longrightarrow> blocks h s = Some bs \<Longrightarrow> unat n \<le> length bs \<Longrightarrow> s \<notin> fp b \<Longrightarrow>
      \<exists>r b' h'. add b (Ptr s) n h = Inr (r, b', h') \<and> heap_ok h' \<and> ok b' h' \<and> s \<notin> fp b' \<and>
        grant h' = grant h \<and> blocks h' |` (- fp b') = blocks h |` (- fp b) \<and>
        (if r then data b' h' = data b h @ take (unat n) bs \<and> used h' = used h + unat n
         else b' = b \<and> blocks h' = blocks h \<and> used h' = used h) \<and>
        ((\<forall>k. grant h k) \<and> used h + length (data b h) + unat n \<le> PTRDIFF_MAX \<longrightarrow> r)"
    and clean_spec: "heap_ok h \<Longrightarrow> ok b h \<Longrightarrow>
      \<exists>h'. clean b h = Inr (init, h') \<and> heap_ok h' \<and> grant h' = grant h \<and> blocks h' = blocks h |` (- fp b)"
begin

text \<open>Collecting several chunks appends their concatenation.\<close>

lemma add_twice:
  assumes "heap_ok h" "ok b h" "blocks h s = Some xs" "s \<notin> fp b"
    and "add b (Ptr s) m h = Inr (True, b1, h1)" "add b1 (Ptr s) n h1 = Inr (True, b2, h2)"
    and "unat m \<le> length xs" "unat n \<le> length xs"
  shows "data b2 h2 = data b h @ take (unat m) xs @ take (unat n) xs"
proof -
  from add_spec [OF assms(1-3) assms(7) assms(4)] assms(5)
  have 1: "heap_ok h1" "ok b1 h1" "s \<notin> fp b1" "data b1 h1 = data b h @ take (unat m) xs"
    "blocks h1 |` (- fp b1) = blocks h |` (- fp b)" by auto
  have "blocks h1 s = Some xs" using restrict_eq_outside [OF 1(5) assms(4) 1(3)] assms(3) by simp
  from add_spec [OF 1(1,2) this assms(8) 1(3)] assms(6) 1(4) show ?thesis by auto
qed

text \<open>Using a buffer and cleaning it leaves the blocks as they were before it was first used.\<close>

lemma add_clean:
  assumes "heap_ok h" "blocks h s = Some xs" "unat n \<le> length xs"
  shows "\<exists>r b' h' h''. add init (Ptr s) n h = Inr (r, b', h') \<and> clean b' h' = Inr (init, h'') \<and>
    blocks h'' = blocks h"
proof -
  from add_spec [OF assms(1) init_ok(1) assms(2,3)] obtain r b' h'
    where 1: "add init (Ptr s) n h = Inr (r, b', h')" "heap_ok h'" "ok b' h'"
      "blocks h' |` (- fp b') = blocks h" by (simp add: init_ok) blast
  from clean_spec [OF 1(2,3)] 1 show ?thesis by auto
qed

end

subsection \<open>The driver's copy meets the contract\<close>

lemma temp_add_first:
  assumes "heap_ok h" "blocks h s = Some bs" "unat n \<le> length bs"
    and "t_buffptr b = NULL" "kmalloc n h = (Ptr a, h1)"
  obtains h' where "aesd_temperary_buffer_add b (Ptr s) n h =
      Inr (True, b\<lparr>t_buffptr := Ptr a, t_size := n\<rparr>, h')"
    "heap_ok h'" "grant h' = grant h" "blocks h' = (blocks h)(a \<mapsto> take (unat n) bs)"
    "blocks h a = None"
proof -
  from kmalloc_memcpy [OF assms(1-3,5)] obtain h2 where
    h2: "memcpy (Ptr a) 0 (Ptr s) 0 n h1 = Inr h2" "heap_ok h2" "grant h2 = grant h"
    "blocks h2 = (blocks h)(a \<mapsto> take (unat n) bs)" "blocks h a = None" .
  show thesis
    by (rule that [OF _ h2(2-5)]) (simp add: aesd_temperary_buffer_add_def assms(4,5) h2(1))
qed

lemma temp_add_more:
  assumes "heap_ok h" "blocks h s = Some bs" "unat n \<le> length bs" "s \<noteq> l"
    and "t_buffptr b = Ptr l" "blocks h l = Some ls" "length ls = unat (t_size b)"
    and "kmalloc (t_size b + n) h = (Ptr a, h1)"
  obtains h' where "aesd_temperary_buffer_add b (Ptr s) n h =
      Inr (True, b\<lparr>t_buffptr := Ptr a, t_size := t_size b + n\<rparr>, h')"
    "heap_ok h'" "grant h' = grant h"
    "blocks h' = (blocks h)(a \<mapsto> ls @ take (unat n) bs, l := None)" "blocks h a = None"
    "unat (t_size b + n) = length ls + unat n"
proof -
  have nn: "unat (t_size b + n) = length ls + unat n"
    using heap_ok_block [OF assms(1,2)] heap_ok_block [OF assms(1,6)] assms(3,7)
    by (simp add: unat_plus_size)
  from kmalloc_Ptr [OF assms(8,1)] obtain ds where h1: "heap_ok h1" "grant h1 = grant h"
    "blocks h a = None" "blocks h1 = (blocks h)(a \<mapsto> ds)" "length ds = length ls + unat n"
    by (auto simp: nn)
  have ne: "a \<noteq> l" "a \<noteq> s" using h1(3) assms(2,6) by auto
  from memcpy_blocks [OF h1(1), of a ds l ls "t_size b" 0] h1 ne assms(6,7)
  obtain h2 where h2: "memcpy (Ptr a) 0 (Ptr l) 0 (t_size b) h1 = Inr h2" "heap_ok h2"
    "grant h2 = grant h" "blocks h2 = (blocks h)(a \<mapsto> ls @ drop (length ls) ds)"
    by auto
  from memcpy_blocks [OF h2(2), of a "ls @ drop (length ls) ds" s bs n "unat (t_size b)"]
    h1 h2(3,4) ne assms(2,3,7)
  obtain h3 where h3: "memcpy (Ptr a) (unat (t_size b)) (Ptr s) 0 n h2 = Inr h3" "heap_ok h3"
    "grant h3 = grant h" "blocks h3 = (blocks h)(a \<mapsto> ls @ take (unat n) bs)"
    by auto
  from kfree_Ptr [OF h3(2), of l ls] h3(4) ne assms(6) obtain h4
    where h4: "kfree (Ptr l) h3 = Inr h4" "heap_ok h4" "grant h4 = grant h3"
      "blocks h4 = (blocks h3)(l := None)" by auto
  show thesis
    using that [OF _ h4(2)] h1(3) h2(1) h3 h4 assms(5,8) nn
    by (simp add: aesd_temperary_buffer_add_def)
qed

lemma used_of_blocks:
  assumes "heap_ok h" "heap_ok h'" "blocks h' = (blocks h)(a \<mapsto> xs)" "blocks h a = None"
  shows "used h' = used h + length xs"
  using assms blocksum_insert [of "blocks h" a xs] by (simp add: heap_ok_def)

lemma used_of_blocks_move:
  assumes "heap_ok h" "heap_ok h'" "blocks h' = (blocks h)(a \<mapsto> xs, l := None)"
    and "blocks h a = None" "blocks h l = Some ls" "length xs = length ls + n"
  shows "used h' = used h + n"
proof -
  have "a \<noteq> l" using assms(4,5) by auto
  with assms blocksum_insert [of "blocks h" a xs]
    blocksum_split [of "(blocks h)(a \<mapsto> xs)" l ls]
  show ?thesis by (simp add: heap_ok_def)
qed

lemma temp_add_spec:
  assumes "heap_ok h" "temp_ok b h" "blocks h s = Some bs" "unat n \<le> length bs" "s \<notin> temp_fp b"
  shows "\<exists>r b' h'. aesd_temperary_buffer_add b (Ptr s) n h = Inr (r, b', h') \<and> heap_ok h' \<and>
    temp_ok b' h' \<and> s \<notin> temp_fp b' \<and> grant h' = grant h \<and>
    blocks h' |` (- temp_fp b') = blocks h |` (- temp_fp b) \<and>
    (if r then temp_data b' h' = temp_data b h @ take (unat n) bs \<and> used h' = used h + unat n
     else b' = b \<and> blocks h' = blocks h \<and> used h' = used h) \<and>
    ((\<forall>k. grant h k) \<and> used h + length (temp_data b h) + unat n \<le> PTRDIFF_MAX \<longrightarrow> r)"
proof -
  define m where "m = (if t_buffptr b = NULL then n else t_size b + n)"
  obtain p h1 where al: "kmalloc m h = (p, h1)" by fastforce
  show ?thesis
  proof (cases p)
    case NULL
    have "aesd_temperary_buffer_add b (Ptr s) n h = Inr (False, b, h1)"
      using al NULL by (auto simp: aesd_temperary_buffer_add_def m_def split: if_splits)
    moreover have h1: "heap_ok h1" "blocks h1 = blocks h" "grant h1 = grant h"
      using kmalloc_NULL [of m h h1] al NULL assms(1) by auto
    moreover have "\<not> ((\<forall>k. grant h k) \<and> used h + length (temp_data b h) + unat n \<le> PTRDIFF_MAX)"
    proof
      assume *: "(\<forall>k. grant h k) \<and> used h + length (temp_data b h) + unat n \<le> PTRDIFF_MAX"
      have "unat m \<le> length (temp_data b h) + unat n"
        using assms(2) by (cases rule: temp_ok_cases) (auto simp: m_def temp_data_def unat_word_ariths)
      with * al NULL show False by (simp add: kmalloc_def Let_def split: if_splits)
    qed
    moreover have "used h1 = used h" using h1 assms(1) by (simp add: heap_ok_def)
    ultimately show ?thesis using assms(2,5) temp_frame [of b h1 h] by auto
  next
    case (Ptr a)
    from assms(2) show ?thesis
    proof (cases rule: temp_ok_cases)
      case Empty
      then have m: "m = n" by (simp add: m_def)
      from temp_add_first [OF assms(1,3,4) Empty(1)] al Ptr m obtain h' where
        h': "aesd_temperary_buffer_add b (Ptr s) n h = Inr (True, b\<lparr>t_buffptr := Ptr a, t_size := n\<rparr>, h')"
        "heap_ok h'" "grant h' = grant h" "blocks h' = (blocks h)(a \<mapsto> take (unat n) bs)"
        "blocks h a = None" by metis
      have "used h' = used h + unat n"
        using used_of_blocks [OF assms(1) h'(2,4,5)] assms(4) by simp
      moreover have "blocks h' |` (- {a}) = blocks h"
        unfolding h'(4) using h'(5) by (auto simp: restrict_map_def)
      moreover have "a \<noteq> s" using h'(5) assms(3) by auto
      ultimately show ?thesis using h' Empty assms(4) by (auto simp: temp_view_defs)
    next
      case (Block l ls)
      then have m: "m = t_size b + n" "s \<noteq> l" using assms(5) by (auto simp: m_def temp_fp_def)
      from temp_add_more [OF assms(1,3,4) m(2) Block] al Ptr m(1) obtain h' where
        h': "aesd_temperary_buffer_add b (Ptr s) n h =
          Inr (True, b\<lparr>t_buffptr := Ptr a, t_size := t_size b + n\<rparr>, h')"
        "heap_ok h'" "grant h' = grant h"
        "blocks h' = (blocks h)(a \<mapsto> ls @ take (unat n) bs, l := None)" "blocks h a = None"
        "unat (t_size b + n) = length ls + unat n" by metis
      have "used h' = used h + unat n"
        using used_of_blocks_move [OF assms(1) h'(2,4,5) Block(2)] assms(4) by simp
      moreover have "a \<noteq> l" "a \<noteq> s" using h'(5) Block assms(3) by auto
      moreover have "blocks h' |` (- {a}) = blocks h |` (- {l})"
        unfolding h'(4) using h'(5) \<open>a \<noteq> l\<close> by (auto simp: restrict_map_def)
      ultimately show ?thesis using h' Block assms(4) by (auto simp: temp_view_defs)
    qed
  qed
qed

lemma temp_clean_spec:
  assumes "heap_ok h" "temp_ok b h"
  shows "\<exists>h'. aesd_temperary_buffer_clean b h = Inr (aesd_temperary_buffer_init, h') \<and> heap_ok h' \<and>
    grant h' = grant h \<and> blocks h' = blocks h |` (- temp_fp b)"
  using assms(2)
proof (cases rule: temp_ok_cases)
  case Empty
  then show ?thesis using assms(1)
    by (auto simp: aesd_temperary_buffer_clean_def aesd_temperary_buffer_init_def temp_fp_def
        intro: aesd_temperary_buffer.equality)
next
  case (Block a bs)
  from kfree_Ptr [OF assms(1) Block(2)] obtain h' where "kfree (Ptr a) h = Inr h'" "heap_ok h'"
    "blocks h' = (blocks h)(a := None)" "grant h' = grant h" .
  with Block show ?thesis
    by (auto simp: aesd_temperary_buffer_clean_def aesd_temperary_buffer_init_def temp_fp_def
        restrict_map_def fun_eq_iff intro: aesd_temperary_buffer.equality)
qed

lemma temp_delete_clean: "aesd_temperary_buffer_delete = aesd_temperary_buffer_clean"
  by (intro ext) (simp add: aesd_temperary_buffer_delete_def aesd_temperary_buffer_clean_def)

interpretation kbuf: accumulator aesd_temperary_buffer_init aesd_temperary_buffer_add
  aesd_temperary_buffer_is_empty aesd_temperary_buffer_clean temp_data temp_fp temp_ok
proof unfold_locales
  fix b h
  assume "temp_ok b h"
  then show "aesd_temperary_buffer_is_empty b \<longleftrightarrow> temp_data b h = []"
    by (cases rule: temp_ok_cases)
      (auto simp: aesd_temperary_buffer_is_empty_def temp_data_def unat_eq_zero)
qed (rule temp_add_spec temp_clean_spec temp_ok_fp_live temp_frame; assumption
    | simp add: temp_view_defs aesd_temperary_buffer_init_def)+

subsection \<open>Properties of the temporary buffer\<close>

text \<open>
  C20. Adding \<open>n\<close> bytes of another block to the buffer never faults. Either it returns true and
  the buffer holds what it held followed by those bytes, or an allocation was refused, it
  returns false, and the buffer and every block are as before; in both cases memory outside the
  buffer's own block is untouched, so the old block has been freed and the new one is not leaked.
\<close>

theorem temperary_add_correct:
  assumes "heap_ok h" "temp_ok b h" "blocks h s = Some bs" "unat n \<le> length bs" "s \<notin> temp_fp b"
  shows "\<exists>r b' h'. aesd_temperary_buffer_add b (Ptr s) n h = Inr (r, b', h') \<and> heap_ok h' \<and> temp_ok b' h' \<and>
    blocks h' |` (- temp_fp b') = blocks h |` (- temp_fp b) \<and>
    (if r then temp_data b' h' = temp_data b h @ take (unat n) bs
     else b' = b \<and> blocks h' = blocks h \<and>
       \<not> ((\<forall>k. grant h k) \<and> used h + length (temp_data b h) + unat n \<le> PTRDIFF_MAX))"
proof -
  from kbuf.add_spec [OF assms] obtain r b' h' where
    "aesd_temperary_buffer_add b (Ptr s) n h = Inr (r, b', h')" "heap_ok h'" "temp_ok b' h'"
    "blocks h' |` (- temp_fp b') = blocks h |` (- temp_fp b)"
    "if r then temp_data b' h' = temp_data b h @ take (unat n) bs \<and> used h' = used h + unat n
     else b' = b \<and> blocks h' = blocks h \<and> used h' = used h"
    "(\<forall>k. grant h k) \<and> used h + length (temp_data b h) + unat n \<le> PTRDIFF_MAX \<longrightarrow> r" by blast
  then show ?thesis by (cases r) auto
qed

theorem temperary_add_correct_witness:
  "\<exists>b' h'. aesd_temperary_buffer_add aesd_temperary_buffer_init (Ptr 0) 2 (block_heap ''abc'' (\<lambda>_. True)) =
      Inr (True, b', h') \<and> temp_data b' h' = ''ab''"
proof -
  let ?h = "block_heap ''abc'' (\<lambda>_. True)"
  have h: "heap_ok ?h" by (rule block_heap_ok) (simp add: PTRDIFF_MAX_def)
  have s: "blocks ?h 0 = Some ''abc''" "unat (2 :: size_t) \<le> length ''abc''"
    "0 \<notin> temp_fp aesd_temperary_buffer_init" by (simp_all add: kbuf.init_ok)
  from temperary_add_correct [OF h kbuf.init_ok(1) s] obtain r b' h' where
    a: "aesd_temperary_buffer_add aesd_temperary_buffer_init (Ptr 0) 2 ?h = Inr (r, b', h')"
    "if r then temp_data b' h' = temp_data aesd_temperary_buffer_init ?h @ take (unat (2 :: size_t)) ''abc''
     else b' = aesd_temperary_buffer_init \<and> blocks h' = blocks ?h \<and>
       \<not> ((\<forall>k. grant ?h k) \<and> used ?h + length (temp_data aesd_temperary_buffer_init ?h) + unat (2 :: size_t) \<le> PTRDIFF_MAX)"
    by blast
  have "r" using a(2) by (auto simp: kbuf.init_ok PTRDIFF_MAX_def split: if_splits)
  with a show ?thesis by (simp add: kbuf.init_ok)
qed

end
