(* ===== verification/Ioctl.thy ===== *)
theory Ioctl
  imports Prelude
begin

text \<open>
  The seek command shared by the driver, the server and the test program, \<^verbatim>\<open>aesd_ioctl.h\<close>
  (the repository has three copies): its argument structure and its number. The driver, the
  server and the test program each include a copy of their own; the seek works because the
  number and the layout the programs pass are those the driver expects.
\<close>

record aesd_seekto =
  write_cmd :: u32
  write_cmd_offset :: u32

text \<open>
  The encoding of ioctl numbers: function number in bits 0 to 7, type in bits 8 to 15, argument
  size in bits 16 to 29, direction in bits 30 and 31 (3 for read and write).
\<close>

definition IOC_NR :: "u32 \<Rightarrow> nat" where "IOC_NR cmd = unat cmd mod 256"
definition IOC_TYPE :: "u32 \<Rightarrow> nat" where "IOC_TYPE cmd = unat cmd div 256 mod 256"
definition IOWR :: "nat \<Rightarrow> nat \<Rightarrow> nat \<Rightarrow> u32" where
  "IOWR t nr sz = of_nat (3 * 2 ^ 30 + sz * 2 ^ 16 + t * 2 ^ 8 + nr)"

definition AESD_IOC_MAGIC :: nat where "AESD_IOC_MAGIC = 0x16"
definition AESDCHAR_IOC_MAXNR :: nat where "AESDCHAR_IOC_MAXNR = 1"

text \<open>Two \<open>uint32_t\<close> fields make \<open>struct aesd_seekto\<close> eight bytes long.\<close>

definition AESDCHAR_IOCSEEKTO :: u32 where "AESDCHAR_IOCSEEKTO = IOWR AESD_IOC_MAGIC 1 8"

text \<open>The copies of the server and of the test program.\<close>

definition server_AESD_IOC_MAGIC :: nat where "server_AESD_IOC_MAGIC = 0x16"
definition server_AESDCHAR_IOCSEEKTO :: u32 where
  "server_AESDCHAR_IOCSEEKTO = IOWR server_AESD_IOC_MAGIC 1 8"

definition test_AESD_IOC_MAGIC :: nat where "test_AESD_IOC_MAGIC = 0x16"
definition test_AESDCHAR_IOCSEEKTO :: u32 where
  "test_AESDCHAR_IOCSEEKTO = IOWR test_AESD_IOC_MAGIC 1 8"

lemma header_copies_agree [simp]:
  "server_AESDCHAR_IOCSEEKTO = AESDCHAR_IOCSEEKTO" "test_AESDCHAR_IOCSEEKTO = AESDCHAR_IOCSEEKTO"
  by (simp_all add: server_AESDCHAR_IOCSEEKTO_def test_AESDCHAR_IOCSEEKTO_def AESDCHAR_IOCSEEKTO_def
      server_AESD_IOC_MAGIC_def test_AESD_IOC_MAGIC_def AESD_IOC_MAGIC_def)

lemma IOCSEEKTO_fields:
  "IOC_TYPE AESDCHAR_IOCSEEKTO = AESD_IOC_MAGIC" "IOC_NR AESDCHAR_IOCSEEKTO \<le> AESDCHAR_IOC_MAXNR"
  by (simp_all add: AESDCHAR_IOCSEEKTO_def IOWR_def IOC_TYPE_def IOC_NR_def AESD_IOC_MAGIC_def
      AESDCHAR_IOC_MAXNR_def)

end
