(* ===== verification/Driver.thy ===== *)
theory Driver
  imports Circular_Buffer Temperary_Buffer Ioctl
begin

text \<open>
  The character device of \<^verbatim>\<open>aesd-char-driver/main.c\<close>: the device structure, the file
  operations, and module initialisation and removal.

  A negative return value of a handler is \<open>Inl\<close> of its error number. Memory of user space enters
  as an argument: for a write, the bytes that can be read at the user's pointer; for a read, how
  many bytes can be written there; for the ioctl, the structure, if it can be read.
  \<open>copy_from_user\<close> and \<open>copy_to_user\<close> report bytes not copied exactly when the range is not
  accessible. The results of \<open>alloc_chrdev_region\<close> and \<open>cdev_add\<close> are arguments of
  \<open>aesd_init_module\<close>. Arithmetic on \<open>loff_t\<close> wraps, as the kernel is compiled.
\<close>

datatype errno = ENOMEM | EFAULT | EINVAL | ERR int

text \<open>
  \<open>aesd_dev\<close> holds two pointers; the structures they point to are kept beside them. The pointers
  are blocks of the heap, so that allocation and release of the structures are accounted for.
\<close>

record aesd_dev =
  temp_ptr :: ptr
  temp_obj :: aesd_temperary_buffer
  circ_ptr :: ptr
  circ_obj :: aesd_circular_buffer

definition bufferCircular :: "aesd_dev \<Rightarrow> aesd_circular_buffer option" where
  "bufferCircular d = (if circ_ptr d = NULL then None else Some (circ_obj d))"

definition bufferTemperary :: "aesd_dev \<Rightarrow> aesd_temperary_buffer res" where
  "bufferTemperary d = (if temp_ptr d = NULL then Inl NullDeref else Inr (temp_obj d))"

definition set_circ :: "aesd_dev \<Rightarrow> aesd_circular_buffer option \<Rightarrow> aesd_dev" where
  "set_circ d c = (case c of None \<Rightarrow> d | Some b \<Rightarrow> d\<lparr>circ_obj := b\<rparr>)"

text \<open>Dereferencing \<open>dev->bufferCircular\<close> directly.\<close>

definition circ_deref :: "aesd_dev \<Rightarrow> aesd_circular_buffer res" where
  "circ_deref d = (case bufferCircular d of None \<Rightarrow> Inl NullDeref | Some b \<Rightarrow> Inr b)"

record filp =
  f_pos :: loff_t
  private_data :: bool

text \<open>\<open>private_data\<close> of an open file points to the device; before \<open>open\<close> it is null.\<close>

definition filp_dev :: "filp \<Rightarrow> unit res" where
  "filp_dev f = (if private_data f then Inr () else Inl NullDeref)"

definition aesd_open :: "filp \<Rightarrow> int \<times> filp" where
  "aesd_open f = (0, f\<lparr>private_data := True\<rparr>)"

definition aesd_release :: "filp \<Rightarrow> int \<times> filp" where
  "aesd_release f = (0, f)"

subsection \<open>Read\<close>

text \<open>The result: the return value, the bytes put at the user's pointer, and the new position.\<close>

definition aesd_read ::
    "aesd_dev \<Rightarrow> filp \<Rightarrow> nat \<Rightarrow> size_t \<Rightarrow> loff_t \<Rightarrow> heap \<Rightarrow> ((errno + size_t) \<times> bytes \<times> loff_t) res" where
  "aesd_read d f user_room cnt pos h =
     andthen (filp_dev f) (\<lambda>_.
     andthen (aesd_circular_buffer_find_entry_offset_for_fpos (bufferCircular d) pos False) (\<lambda>r.
       case r of None \<Rightarrow> Inr (Inr 0, [], pos)
       | Some (k, entry_offset) \<Rightarrow>
           andthen (circ_deref d) (\<lambda>b.
           andthen (entry_at b k) (\<lambda>e.
             let available = e_size e - entry_offset;
                 to_copy = min cnt available
             in andthen (load (e_buffptr e) (unat entry_offset) (unat to_copy) h) (\<lambda>xs.
                  if unat to_copy > user_room then Inr (Inl EFAULT, [], pos)
                  else Inr (Inr to_copy, xs, pos + to_copy))))))"

subsection \<open>Write\<close>

fun newline_loop :: "bytes \<Rightarrow> bool" where
  "newline_loop [] = False"
| "newline_loop (c # cs) = (if c = newline then True else newline_loop cs)"

definition aesd_write ::
    "aesd_dev \<Rightarrow> filp \<Rightarrow> bytes \<Rightarrow> size_t \<Rightarrow> heap \<Rightarrow> ((errno + size_t) \<times> aesd_dev \<times> heap) res" where
  "aesd_write d f user cnt h =
     andthen (filp_dev f) (\<lambda>_.
       case kmalloc cnt h of
         (NULL, h1) \<Rightarrow> Inr (Inl ENOMEM, d, h1)
       | (Ptr kbuf, h1) \<Rightarrow>
           if length user < unat cnt then
             andthen (kfree (Ptr kbuf) h1) (\<lambda>h2. Inr (Inl EFAULT, d, h2))
           else
             andthen (store (Ptr kbuf) 0 (take (unat cnt) user) h1) (\<lambda>h2.
             andthen (load (Ptr kbuf) 0 (unat cnt) h2) (\<lambda>data.
             let nl = newline_loop data in
             andthen (if nl then bufferTemperary d else Inr (temp_obj d)) (\<lambda>t.
               if nl \<and> aesd_temperary_buffer_is_empty t then
                 andthen (aesd_circular_buffer_add_entry (bufferCircular d)
                            (Some \<lparr>e_buffptr = Ptr kbuf, e_size = cnt\<rparr>) h2) (\<lambda>(c, h3).
                 andthen (kfree (Ptr kbuf) h3) (\<lambda>h4.
                 Inr (Inr cnt, set_circ d c, h4)))
               else if nl \<and> \<not> aesd_temperary_buffer_is_empty t then
                 andthen (aesd_temperary_buffer_add t (Ptr kbuf) cnt h2) (\<lambda>(ok, t1, h3).
                   if ok \<noteq> True then
                     andthen (kfree (Ptr kbuf) h3) (\<lambda>h4. Inr (Inl ENOMEM, d\<lparr>temp_obj := t1\<rparr>, h4))
                   else
                     andthen (aesd_circular_buffer_add_entry (bufferCircular d)
                                (Some \<lparr>e_buffptr = t_buffptr t1, e_size = t_size t1\<rparr>) h3) (\<lambda>(c, h4).
                     andthen (aesd_temperary_buffer_delete t1 h4) (\<lambda>(t2, h5).
                     andthen (kfree (Ptr kbuf) h5) (\<lambda>h6.
                     Inr (Inr cnt, set_circ (d\<lparr>temp_obj := t2\<rparr>) c, h6)))))
               else
                 andthen (bufferTemperary d) (\<lambda>t.
                 andthen (aesd_temperary_buffer_add t (Ptr kbuf) cnt h2) (\<lambda>(ok, t1, h3).
                   if ok \<noteq> True then
                     andthen (kfree (Ptr kbuf) h3) (\<lambda>h4. Inr (Inl ENOMEM, d\<lparr>temp_obj := t1\<rparr>, h4))
                   else
                     andthen (kfree (Ptr kbuf) h3) (\<lambda>h4. Inr (Inr cnt, d\<lparr>temp_obj := t1\<rparr>, h4))))))))"

subsection \<open>Seeking\<close>

abbreviation (input) SEEK_SET :: int where "SEEK_SET \<equiv> 0"
abbreviation (input) SEEK_CUR :: int where "SEEK_CUR \<equiv> 1"
abbreviation (input) SEEK_END :: int where "SEEK_END \<equiv> 2"

definition aesd_llseek ::
    "aesd_dev \<Rightarrow> filp \<Rightarrow> loff_t \<Rightarrow> int \<Rightarrow> ((errno + loff_t) \<times> filp) res" where
  "aesd_llseek d f offset whence =
     andthen (filp_dev f) (\<lambda>_.
     if whence = SEEK_SET then
       if sint offset < 0 then Inr (Inl EINVAL, f)
       else Inr (Inr offset, f\<lparr>f_pos := offset\<rparr>)
     else if whence = SEEK_CUR then
       if sint (f_pos f + offset) < 0 then Inr (Inl EINVAL, f)
       else Inr (Inr (f_pos f + offset), f\<lparr>f_pos := f_pos f + offset\<rparr>)
     else if whence = SEEK_END then
       andthen (circ_deref d) (\<lambda>b. Inr (Inr (c_size b + offset), f\<lparr>f_pos := c_size b + offset\<rparr>))
     else Inr (Inr (f_pos f), f))"

subsection \<open>The seek ioctl\<close>

definition aesd_ioctl ::
    "aesd_dev \<Rightarrow> filp \<Rightarrow> u32 \<Rightarrow> aesd_seekto option \<Rightarrow> ((errno + int) \<times> filp) res" where
  "aesd_ioctl d f cmd user =
     andthen (filp_dev f) (\<lambda>_.
     if IOC_TYPE cmd \<noteq> AESD_IOC_MAGIC then Inr (Inl EINVAL, f)
     else if IOC_NR cmd > AESDCHAR_IOC_MAXNR then Inr (Inl EINVAL, f)
     else if cmd = AESDCHAR_IOCSEEKTO then
       (case user of None \<Rightarrow> Inr (Inl EFAULT, f)
        | Some seekto \<Rightarrow>
            if unat (write_cmd seekto) \<ge> AESDCHAR_MAX_WRITE_OPERATIONS_SUPPORTED then Inr (Inl EINVAL, f)
            else
              andthen (circ_deref d) (\<lambda>b.
              andthen (entry_at b (unat (write_cmd seekto))) (\<lambda>e.
              if ucast (write_cmd_offset seekto) \<ge> e_size e then Inr (Inl EINVAL, f)
              else
                andthen (aesd_circular_buffer_find_entry_for_ioctl (bufferCircular d)
                           (ucast (write_cmd seekto)) (ucast (write_cmd_offset seekto)) False)
                (\<lambda>(_, rtn). Inr (Inr 0, f\<lparr>f_pos := (case rtn of None \<Rightarrow> 0 | Some v \<Rightarrow> v)\<rparr>)))))
     else Inr (Inl EINVAL, f))"

subsection \<open>Module initialisation and removal\<close>

text \<open>What the module has registered with the kernel, beside its memory.\<close>

record kmodule =
  aesd_device :: aesd_dev
  region :: bool
  cdev :: bool

definition zero_dev :: aesd_dev where
  "zero_dev = \<lparr>temp_ptr = NULL, temp_obj = \<lparr>t_buffptr = NULL, t_size = 0\<rparr>,
    circ_ptr = NULL, circ_obj = zero_circular_buffer\<rparr>"

definition sizeof_circular :: size_t where "sizeof_circular = 176"
definition sizeof_temperary :: size_t where "sizeof_temperary = 16"

definition aesd_setup_cdev :: "int \<Rightarrow> kmodule \<Rightarrow> int \<times> kmodule" where
  "aesd_setup_cdev err m = (err, m\<lparr>cdev := (err = 0)\<rparr>)"

definition aesd_init_module ::
    "int \<Rightarrow> int \<Rightarrow> kmodule \<Rightarrow> heap \<Rightarrow> (errno + int) \<times> kmodule \<times> heap" where
  "aesd_init_module region_ret cdev_ret m h =
     (if region_ret < 0 then (Inl (ERR region_ret), m, h)
      else
        let m1 = m\<lparr>region := True, aesd_device := zero_dev\<rparr> in
        case kmalloc sizeof_circular h of
          (NULL, h1) \<Rightarrow> (Inl ENOMEM, m1, h1)
        | (Ptr c, h1) \<Rightarrow>
            let d2 = zero_dev\<lparr>circ_ptr := Ptr c,
                              circ_obj := the (aesd_circular_buffer_init (Some zero_circular_buffer))\<rparr>
            in case kmalloc sizeof_temperary h1 of
              (NULL, h2) \<Rightarrow> (Inl ENOMEM, m1\<lparr>aesd_device := d2\<rparr>, h2)
            | (Ptr t, h2) \<Rightarrow>
                let d3 = d2\<lparr>temp_ptr := Ptr t, temp_obj := aesd_temperary_buffer_init\<rparr>;
                    (result, m2) = aesd_setup_cdev cdev_ret (m1\<lparr>aesd_device := d3\<rparr>)
                in if result \<noteq> 0 then (Inl (ERR result), m2\<lparr>region := False\<rparr>, h2)
                   else (Inr 0, m2, h2))"

definition aesd_cleanup_module :: "kmodule \<Rightarrow> heap \<Rightarrow> (kmodule \<times> heap) res" where
  "aesd_cleanup_module m h =
     (let d = aesd_device m; m1 = m\<lparr>cdev := False\<rparr> in
      andthen (aesd_circular_buffer_cleanup (bufferCircular d) h) (\<lambda>h1.
      andthen (if circ_ptr d \<noteq> NULL then kfree (circ_ptr d) h1 else Inr h1) (\<lambda>h2.
      andthen (bufferTemperary d) (\<lambda>t.
      andthen (aesd_temperary_buffer_clean t h2) (\<lambda>(t1, h3).
      andthen (if temp_ptr d \<noteq> NULL then kfree (temp_ptr d) h3 else Inr h3) (\<lambda>h4.
      Inr (m1\<lparr>aesd_device := d\<lparr>temp_obj := t1\<rparr>, region := False\<rparr>, h4)))))))"

subsection \<open>What the device shows and what it owns\<close>

definition dev_log :: "aesd_dev \<Rightarrow> heap \<Rightarrow> bytes list" where
  "dev_log d h = contents (circ_obj d) h"

definition dev_pending :: "aesd_dev \<Rightarrow> heap \<Rightarrow> bytes" where
  "dev_pending d h = temp_data (temp_obj d) h"

fun ptr_set :: "ptr \<Rightarrow> nat set" where
  "ptr_set NULL = {}"
| "ptr_set (Ptr a) = {a}"

definition dev_fp :: "aesd_dev \<Rightarrow> nat set" where
  "dev_fp d = ptr_set (circ_ptr d) \<union> ptr_set (temp_ptr d) \<union>
     circ_fp (circ_obj d) \<union> temp_fp (temp_obj d)"

definition dev_ok :: "aesd_dev \<Rightarrow> heap \<Rightarrow> bool" where
  "dev_ok d h \<longleftrightarrow> circ_ptr d \<noteq> NULL \<and> temp_ptr d \<noteq> NULL \<and>
     ptr_set (circ_ptr d) \<inter> ptr_set (temp_ptr d) = {} \<and>
     (ptr_set (circ_ptr d) \<union> ptr_set (temp_ptr d)) \<inter>
       (circ_fp (circ_obj d) \<union> temp_fp (temp_obj d)) = {} \<and>
     ptr_set (circ_ptr d) \<union> ptr_set (temp_ptr d) \<subseteq> dom (blocks h) \<and>
     circ_fp (circ_obj d) \<inter> temp_fp (temp_obj d) = {} \<and>
     circ_ok (circ_obj d) h \<and> temp_ok (temp_obj d) h"

text \<open>A step of the device that touches nothing but the blocks of the device.\<close>

definition dev_step :: "aesd_dev \<Rightarrow> heap \<Rightarrow> aesd_dev \<Rightarrow> heap \<Rightarrow> bool" where
  "dev_step d h d' h' \<longleftrightarrow> heap_ok h' \<and> dev_ok d' h' \<and> grant h' = grant h \<and>
     blocks h' |` (- dev_fp d') = blocks h |` (- dev_fp d)"

lemma dev_fp_live: "dev_ok d h \<Longrightarrow> dev_fp d \<subseteq> dom (blocks h)"
  using circ_fp_live [of "circ_obj d" h] temp_ok_fp_live [of "temp_obj d" h]
  by (auto simp: dev_ok_def dev_fp_def)

lemma contents_frame:
  assumes "\<And>a. a \<in> circ_fp b \<Longrightarrow> blocks h' a = blocks h a"
  shows "contents b h' = contents b h" "circ_ok b h' = circ_ok b h"
proof -
  have "set (addrs (live b)) \<subseteq> circ_fp b"
    by (fastforce simp: circ_fp_ring set_addrs live_def dest: set_takeWhileD)
  then show "contents b h' = contents b h"
    unfolding contents_def using assms by (intro entries_frame(2)) blast
  show "circ_ok b h' = circ_ok b h"
    using entries_frame(1) [of "entry b" h' h] assms by (simp add: circ_ok_def circ_fp_def)
qed

lemma dev_frame:
  assumes "\<And>a. a \<in> dev_fp d \<Longrightarrow> blocks h' a = blocks h a"
  shows "dev_ok d h' = dev_ok d h" "dev_log d h' = dev_log d h" "dev_pending d h' = dev_pending d h"
proof -
  have c: "contents (circ_obj d) h' = contents (circ_obj d) h"
    "circ_ok (circ_obj d) h' = circ_ok (circ_obj d) h"
    using assms by (intro contents_frame; auto simp: dev_fp_def)+
  have t: "temp_ok (temp_obj d) h' = temp_ok (temp_obj d) h"
    "temp_data (temp_obj d) h' = temp_data (temp_obj d) h"
    using assms by (intro temp_frame; auto simp: dev_fp_def)+
  have "a \<in> dom (blocks h') \<longleftrightarrow> a \<in> dom (blocks h)"
    if "a \<in> ptr_set (circ_ptr d) \<union> ptr_set (temp_ptr d)" for a
  proof -
    have "blocks h' a = blocks h a" using that by (intro assms) (auto simp: dev_fp_def)
    then show ?thesis by (simp add: domIff)
  qed
  then have "ptr_set (circ_ptr d) \<union> ptr_set (temp_ptr d) \<subseteq> dom (blocks h') \<longleftrightarrow>
      ptr_set (circ_ptr d) \<union> ptr_set (temp_ptr d) \<subseteq> dom (blocks h)" by (simp add: subset_iff)
  with c t show "dev_ok d h' = dev_ok d h" by (simp only: dev_ok_def)
  show "dev_log d h' = dev_log d h" "dev_pending d h' = dev_pending d h"
    by (simp_all add: dev_log_def dev_pending_def c t)
qed

text \<open>Adding an entry to the device's circular buffer.\<close>

lemma dev_add_entry:
  assumes "heap_ok h" "dev_ok d h" "blocks h s = Some bs" "s \<notin> circ_fp (circ_obj d)"
    and "unat n \<le> length bs"
  shows "\<exists>r b' h'. aesd_circular_buffer_add_entry (bufferCircular d) (Some \<lparr>e_buffptr = Ptr s, e_size = n\<rparr>) h
      = Inr (Some b', h') \<and> dev_step d h (d\<lparr>circ_obj := b'\<rparr>) h' \<and>
    add_post (circ_obj d) h (take (unat n) bs) r b' h' \<and> temp_data (temp_obj d) h' = temp_data (temp_obj d) h \<and>
    ((\<forall>k. grant h k) \<and> used h + unat n \<le> PTRDIFF_MAX \<longrightarrow> r)"
proof -
  let ?x = "\<lparr>e_buffptr = Ptr s, e_size = n\<rparr>" and ?b = "circ_obj d"
  let ?G = "ptr_set (circ_ptr d) \<union> ptr_set (temp_ptr d) \<union> temp_fp (temp_obj d)"
  have ok: "circ_ok ?b h" "circ_ptr d \<noteq> NULL" using assms(2) by (auto simp: dev_ok_def)
  from circ_add_spec [OF assms(1) ok(1) assms(3,4), of ?x] assms(5) obtain r b' h' where
    add: "aesd_circular_buffer_add_entry (Some ?b) (Some ?x) h = Inr (Some b', h')"
    and post: "add_post ?b h (take (unat n) bs) r b' h'"
    and gr: "(\<forall>k. grant h k) \<and> used h + unat n \<le> PTRDIFF_MAX \<longrightarrow> r" by auto
  have G: "?G \<inter> circ_fp ?b = {}" "?G \<subseteq> dom (blocks h)"
    using assms(2) temp_ok_fp_live [of "temp_obj d" h] by (auto simp: dev_ok_def)
  have p: "heap_ok h'" "circ_ok b' h'" "grant h' = grant h"
    "blocks h' |` (- circ_fp b') = blocks h |` (- circ_fp ?b)"
    using post by (auto simp: add_post_def)
  note fu = frame_union [OF p(4) G]
  have t: "temp_ok (temp_obj d) h' = temp_ok (temp_obj d) h"
    "temp_data (temp_obj d) h' = temp_data (temp_obj d) h"
    using fu(3) by (intro temp_frame; blast)+
  have fp: "dev_fp d = circ_fp ?b \<union> ?G" "dev_fp (d\<lparr>circ_obj := b'\<rparr>) = circ_fp b' \<union> ?G"
    by (auto simp: dev_fp_def)
  have "dev_ok (d\<lparr>circ_obj := b'\<rparr>) h'"
    using assms(2) p(2) t fu(2,4) by (auto simp: dev_ok_def)
  then have "dev_step d h (d\<lparr>circ_obj := b'\<rparr>) h'"
    unfolding dev_step_def fp using p fu(1) by simp
  with add post gr t ok(2) show ?thesis by (auto simp: bufferCircular_def)
qed

text \<open>Adding bytes to the device's temporary buffer.\<close>

lemma dev_add_pending:
  assumes "heap_ok h" "dev_ok d h" "blocks h s = Some bs" "s \<notin> temp_fp (temp_obj d)"
    and "length bs = unat n"
  shows "\<exists>r t' h'. aesd_temperary_buffer_add (temp_obj d) (Ptr s) n h = Inr (r, t', h') \<and>
    dev_step d h (d\<lparr>temp_obj := t'\<rparr>) h' \<and> dev_log d h' = dev_log d h \<and>
    (if r then temp_data t' h' = temp_data (temp_obj d) h @ bs \<and> used h' = used h + unat n
     else t' = temp_obj d \<and> blocks h' = blocks h \<and> used h' = used h) \<and>
    ((\<forall>k. grant h k) \<and> used h + length (temp_data (temp_obj d) h) + unat n \<le> PTRDIFF_MAX \<longrightarrow> r)"
proof -
  let ?t = "temp_obj d"
  let ?G = "ptr_set (circ_ptr d) \<union> ptr_set (temp_ptr d) \<union> circ_fp (circ_obj d)"
  have ok: "temp_ok ?t h" using assms(2) by (simp add: dev_ok_def)
  have le: "unat n \<le> length bs" and tk: "take (unat n) bs = bs" using assms(5) by simp_all
  from kbuf.add_spec [OF assms(1) ok assms(3) le assms(4), unfolded tk] obtain r t' h' where
    add: "aesd_temperary_buffer_add ?t (Ptr s) n h = Inr (r, t', h')" "heap_ok h'" "temp_ok t' h'"
      "grant h' = grant h" "blocks h' |` (- temp_fp t') = blocks h |` (- temp_fp ?t)"
    and res: "if r then temp_data t' h' = temp_data ?t h @ bs \<and> used h' = used h + unat n
         else t' = ?t \<and> blocks h' = blocks h \<and> used h' = used h"
    and gr: "(\<forall>k. grant h k) \<and> used h + length (temp_data ?t h) + unat n \<le> PTRDIFF_MAX \<longrightarrow> r"
    by blast
  have G: "?G \<inter> temp_fp ?t = {}" "?G \<subseteq> dom (blocks h)"
    using assms(2) circ_fp_live [of "circ_obj d" h] by (auto simp: dev_ok_def)
  note fu = frame_union [OF add(5) G]
  have c: "contents (circ_obj d) h' = contents (circ_obj d) h"
    "circ_ok (circ_obj d) h' = circ_ok (circ_obj d) h"
    using fu(3) by (intro contents_frame; blast)+
  have fp: "dev_fp d = temp_fp ?t \<union> ?G" "dev_fp (d\<lparr>temp_obj := t'\<rparr>) = temp_fp t' \<union> ?G"
    by (auto simp: dev_fp_def)
  have "dev_ok (d\<lparr>temp_obj := t'\<rparr>) h'"
    using assms(2) add(3) c fu(2,4) by (auto simp: dev_ok_def)
  then have "dev_step d h (d\<lparr>temp_obj := t'\<rparr>) h'"
    unfolding dev_step_def fp using add fu(1) by simp
  with add(1) res gr c show ?thesis by (auto simp: dev_log_def)
qed

subsection \<open>Correctness of write\<close>

lemma newline_loop_iff: "newline_loop xs \<longleftrightarrow> newline \<in> set xs"
  by (induction xs) auto

lemma dev_step_trans: "dev_step d h d1 h1 \<Longrightarrow> dev_step d1 h1 d2 h2 \<Longrightarrow> dev_step d h d2 h2"
  by (simp add: dev_step_def)

lemma dev_step_refl: "heap_ok h \<Longrightarrow> dev_ok d h \<Longrightarrow> dev_step d h d h"
  by (simp add: dev_step_def)

lemma temp_used_clean:
  assumes "heap_ok h" "temp_ok t h" "heap_ok h'" "blocks h' = blocks h |` (- temp_fp t)"
  shows "used h' + length (temp_data t h) = used h"
  using assms(2)
proof (cases rule: temp_ok_cases)
  case (Block a bs)
  then have "blocks h' = (blocks h)(a := None)"
    unfolding assms(4) by (auto simp: temp_fp_def restrict_map_def)
  with Block assms(1,3) blocksum_split [of "blocks h" a bs] show ?thesis
    by (simp add: heap_ok_def temp_data_def)
qed (use assms in \<open>simp add: heap_ok_def temp_data_def temp_fp_def\<close>)

lemma dev_delete_pending:
  assumes "heap_ok h" "dev_ok d h"
  shows "\<exists>h'. aesd_temperary_buffer_delete (temp_obj d) h = Inr (aesd_temperary_buffer_init, h') \<and>
    dev_step d h (d\<lparr>temp_obj := aesd_temperary_buffer_init\<rparr>) h' \<and> dev_log d h' = dev_log d h \<and>
    used h' + length (dev_pending d h) = used h"
proof -
  let ?t = "temp_obj d" and ?d = "d\<lparr>temp_obj := aesd_temperary_buffer_init\<rparr>"
  have tok: "temp_ok ?t h" using assms(2) by (simp add: dev_ok_def)
  from kbuf.clean_spec [OF assms(1) tok] obtain h' where
    h': "aesd_temperary_buffer_clean ?t h = Inr (aesd_temperary_buffer_init, h')" "heap_ok h'"
    "grant h' = grant h" "blocks h' = blocks h |` (- temp_fp ?t)" by auto
  have keep: "blocks h' a = blocks h a" if "a \<notin> temp_fp ?t" for a
    using that h'(4) by simp
  have c: "contents (circ_obj d) h' = contents (circ_obj d) h"
    "circ_ok (circ_obj d) h' = circ_ok (circ_obj d) h"
    using assms(2) keep by (intro contents_frame; force simp: dev_ok_def)+
  have i: "temp_fp aesd_temperary_buffer_init = {}" "temp_ok aesd_temperary_buffer_init h'"
    by (simp_all add: kbuf.init_ok)
  have live: "ptr_set (circ_ptr d) \<union> ptr_set (temp_ptr d) \<subseteq> dom (blocks h')"
  proof
    fix a assume a: "a \<in> ptr_set (circ_ptr d) \<union> ptr_set (temp_ptr d)"
    then have "a \<notin> temp_fp ?t" "a \<in> dom (blocks h)" using assms(2) by (auto simp: dev_ok_def)
    with keep [of a] show "a \<in> dom (blocks h')" by (simp add: domIff)
  qed
  have "dev_ok ?d h'" using assms(2) c i live by (auto simp: dev_ok_def)
  moreover have "dev_fp d = dev_fp ?d \<union> temp_fp ?t" using i by (auto simp: dev_fp_def)
  then have "blocks h' |` (- dev_fp ?d) = blocks h |` (- dev_fp d)"
    unfolding h'(4) by (simp add: Int_commute)
  moreover have "used h' + length (dev_pending d h) = used h"
    using temp_used_clean [OF assms(1) tok h'(2,4)] by (simp add: dev_pending_def)
  ultimately show ?thesis using h' c by (simp add: temp_delete_clean dev_step_def dev_log_def)
qed

text \<open>The kernel copy of the user's data exists beside the device and is gone afterwards.\<close>

lemma kbuf_fill:
  assumes "heap_ok h" "dev_ok d h" "kmalloc n h = (Ptr k, h1)" "unat n \<le> length user"
  obtains h2 where "store (Ptr k) 0 (take (unat n) user) h1 = Inr h2"
    "load (Ptr k) 0 (unat n) h2 = Inr (take (unat n) user)" "heap_ok h2" "grant h2 = grant h"
    "blocks h2 = (blocks h)(k \<mapsto> take (unat n) user)" "blocks h k = None" "k \<notin> dev_fp d"
    "used h2 = used h + unat n" "dev_ok d h2" "dev_log d h2 = dev_log d h"
    "dev_pending d h2 = dev_pending d h"
proof -
  let ?xs = "take (unat n) user"
  from kmalloc_Ptr [OF assms(3,1)] obtain bs where h1: "heap_ok h1" "grant h1 = grant h"
    "blocks h k = None" "blocks h1 = (blocks h)(k \<mapsto> bs)" "length bs = unat n" by auto
  have len: "length ?xs = unat n" using assms(4) by simp
  from store_block [OF h1(1), of k bs 0 ?xs] h1 len obtain h2 where
    h2: "store (Ptr k) 0 ?xs h1 = Inr h2" "heap_ok h2" "grant h2 = grant h"
    "blocks h2 = (blocks h)(k \<mapsto> ?xs)" by auto
  have k: "k \<notin> dev_fp d" using dev_fp_live [OF assms(2)] h1(3) by auto
  then have "blocks h2 a = blocks h a" if "a \<in> dev_fp d" for a using h2(4) that by auto
  note fr = dev_frame [OF this]
  have "load (Ptr k) 0 (unat n) h2 = Inr ?xs" using len by (simp add: load_def h2(4))
  moreover have "used h2 = used h + unat n"
    using used_add [OF assms(1) h2(2,4) h1(3)] len by simp
  ultimately show thesis using that h2 h1(3) k fr assms(2) by blast
qed

lemma kbuf_free:
  assumes "blocks h2 = (blocks h)(k \<mapsto> xs)" "blocks h k = None" "grant h2 = grant h" "k \<notin> dev_fp d"
    and "dev_step d h2 d' h3"
  obtains h4 where "kfree (Ptr k) h3 = Inr h4" "dev_step d h d' h4" "dev_log d' h4 = dev_log d' h3"
    "dev_pending d' h4 = dev_pending d' h3" "used h4 + length xs = used h3"
proof -
  have st: "heap_ok h3" "dev_ok d' h3" "grant h3 = grant h2"
    "blocks h3 |` (- dev_fp d') = blocks h2 |` (- dev_fp d)"
    using assms(5) by (auto simp: dev_step_def)
  from frame_keep [OF st(4) assms(4)] assms(1) have k: "k \<notin> dev_fp d'" "blocks h3 k = Some xs" by auto
  from kfree_Ptr [OF st(1) k(2)] obtain h4 where h4: "kfree (Ptr k) h3 = Inr h4" "heap_ok h4"
    "blocks h4 = (blocks h3)(k := None)" "grant h4 = grant h3" .
  have "blocks h4 a = blocks h3 a" if "a \<in> dev_fp d'" for a using h4(3) k(1) that by auto
  note fr = dev_frame [OF this]
  have "blocks h4 |` (- dev_fp d') = (blocks h3 |` (- dev_fp d'))(k := None)"
    unfolding h4(3) by (auto simp: restrict_map_def)
  also have "\<dots> = blocks h |` (- dev_fp d)"
    unfolding st(4) assms(1) using assms(2) by (auto simp: restrict_map_def)
  finally show thesis
    using that h4 fr st assms(3) blocksum_split [of "blocks h3" k xs] k(2)
    by (simp add: dev_step_def heap_ok_def)
qed

text \<open>
  The two things a completed write does. Data with a newline completes the pending bytes into an
  entry; \<open>r\<close> tells whether the circular buffer could copy it. Other data is only collected.
\<close>

definition write_effect :: "aesd_dev \<Rightarrow> heap \<Rightarrow> bytes \<Rightarrow> bool \<Rightarrow> aesd_dev \<Rightarrow> heap \<Rightarrow> bool" where
  "write_effect d h data r d' h' \<longleftrightarrow>
     (if newline \<in> set data then
        dev_pending d' h' = [] \<and>
        (r \<longrightarrow> circ_exact (circ_obj d')) \<and>
        out_offs (circ_obj d') =
          (if full (circ_obj d) then next_offs (out_offs (circ_obj d)) else out_offs (circ_obj d)) \<and>
        (circ_dense (circ_obj d) \<longrightarrow>
           dev_log d' h' = (if full (circ_obj d) then tl (dev_log d h) else dev_log d h) @
             (if r then [dev_pending d h @ data] else []) \<and>
           (r \<longrightarrow> circ_dense (circ_obj d')))
      else circ_obj d' = circ_obj d \<and> dev_log d' h' = dev_log d h \<and>
        dev_pending d' h' = dev_pending d h @ data)"

definition ample :: "heap \<Rightarrow> nat \<Rightarrow> bool" where
  "ample h n \<longleftrightarrow> (\<forall>k. grant h k) \<and> used h + n \<le> PTRDIFF_MAX"

lemma kmalloc_ample: "ample h (unat n) \<Longrightarrow> fst (kmalloc n h) \<noteq> NULL"
  by (simp add: ample_def kmalloc_def Let_def)

text \<open>The branch for a newline with nothing pending.\<close>

lemma write_newline_empty:
  assumes "heap_ok h" "dev_ok d h" "blocks h k = Some xs" "k \<notin> dev_fp d" "length xs = unat n"
    and "dev_pending d h = []" "newline \<in> set xs"
  obtains r b' h' where
    "aesd_circular_buffer_add_entry (bufferCircular d) (Some \<lparr>e_buffptr = Ptr k, e_size = n\<rparr>) h = Inr (Some b', h')"
    "dev_step d h (set_circ d (Some b')) h'" "write_effect d h xs r (set_circ d (Some b')) h'"
    "ample h (unat n) \<longrightarrow> r" "used h' \<le> used h + unat n"
proof -
  have k: "k \<notin> circ_fp (circ_obj d)" using assms(4) by (simp add: dev_fp_def)
  from dev_add_entry [OF assms(1-3) k, of n] assms(5) obtain r b' h' where
    add: "aesd_circular_buffer_add_entry (bufferCircular d) (Some \<lparr>e_buffptr = Ptr k, e_size = n\<rparr>) h = Inr (Some b', h')"
      "dev_step d h (d\<lparr>circ_obj := b'\<rparr>) h'" "add_post (circ_obj d) h xs r b' h'"
      "temp_data (temp_obj d) h' = temp_data (temp_obj d) h"
      "(\<forall>k. grant h k) \<and> used h + unat n \<le> PTRDIFF_MAX \<longrightarrow> r" by auto
  have "write_effect d h xs r (set_circ d (Some b')) h'"
    using add(3,4) assms(6,7)
    by (simp add: write_effect_def add_post_def dev_log_def dev_pending_def set_circ_def)
  moreover have "used h' \<le> used h + unat n"
    using add(3) assms(5) by (auto simp: add_post_def split: if_splits)
  ultimately show thesis using add that by (simp add: set_circ_def ample_def)
qed

text \<open>The branch for a newline that completes pending bytes, once they are collected.\<close>

lemma write_newline_pending:
  assumes "heap_ok h" "dev_ok d h" "dev_pending d h = ys" "ys \<noteq> []" "newline \<in> set ys"
  obtains r b' h1 h2 where
    "aesd_circular_buffer_add_entry (bufferCircular d)
       (Some \<lparr>e_buffptr = t_buffptr (temp_obj d), e_size = t_size (temp_obj d)\<rparr>) h = Inr (Some b', h1)"
    "aesd_temperary_buffer_delete (temp_obj d) h1 = Inr (aesd_temperary_buffer_init, h2)"
    "dev_step d h (d\<lparr>circ_obj := b', temp_obj := aesd_temperary_buffer_init\<rparr>) h2"
    "add_post (circ_obj d) h ys r b' h1"
    "dev_log (d\<lparr>circ_obj := b', temp_obj := aesd_temperary_buffer_init\<rparr>) h2 = contents b' h1"
    "ample h (length ys) \<longrightarrow> r" "used h2 \<le> used h"
proof -
  have "temp_ok (temp_obj d) h" using assms(2) by (simp add: dev_ok_def)
  then obtain a where a: "t_buffptr (temp_obj d) = Ptr a" "blocks h a = Some ys"
    "length ys = unat (t_size (temp_obj d))"
    using assms(3,4) by (cases rule: temp_ok_cases) (auto simp: dev_pending_def temp_data_def)
  have "a \<notin> circ_fp (circ_obj d)" using assms(2) a(1) by (auto simp: dev_ok_def temp_fp_def)
  from dev_add_entry [OF assms(1,2) a(2) this, of "t_size (temp_obj d)"] a obtain r b' h1 where
    add: "aesd_circular_buffer_add_entry (bufferCircular d)
        (Some \<lparr>e_buffptr = Ptr a, e_size = t_size (temp_obj d)\<rparr>) h = Inr (Some b', h1)"
      "dev_step d h (d\<lparr>circ_obj := b'\<rparr>) h1" "add_post (circ_obj d) h ys r b' h1"
      "(\<forall>k. grant h k) \<and> used h + unat (t_size (temp_obj d)) \<le> PTRDIFF_MAX \<longrightarrow> r"
      "temp_data (temp_obj d) h1 = temp_data (temp_obj d) h" by auto
  let ?d1 = "d\<lparr>circ_obj := b'\<rparr>"
  have "heap_ok h1" "dev_ok ?d1 h1" using add(2) by (auto simp: dev_step_def)
  from dev_delete_pending [OF this] obtain h2 where
    del: "aesd_temperary_buffer_delete (temp_obj d) h1 = Inr (aesd_temperary_buffer_init, h2)"
      "dev_step ?d1 h1 (?d1\<lparr>temp_obj := aesd_temperary_buffer_init\<rparr>) h2" "dev_log ?d1 h2 = dev_log ?d1 h1"
      "used h2 + length (dev_pending ?d1 h1) = used h1"
    by auto
  have "length (dev_pending ?d1 h1) = length ys" using add(5) assms(3) by (simp add: dev_pending_def)
  then have "used h2 \<le> used h"
    using add(3) del(4) by (auto simp: add_post_def split: if_splits)
  with dev_step_trans [OF add(2) del(2)] add del a that show thesis
    by (simp add: dev_log_def ample_def)
qed

text \<open>What holds after a write, whatever it returns.\<close>

definition write_post ::
    "aesd_dev \<Rightarrow> heap \<Rightarrow> bytes \<Rightarrow> size_t \<Rightarrow> errno + size_t \<Rightarrow> aesd_dev \<Rightarrow> heap \<Rightarrow> bool" where
  "write_post d h user n ret d' h' \<longleftrightarrow> dev_step d h d' h' \<and> used h' \<le> used h + unat n \<and>
     (case ret of
        Inl e \<Rightarrow> d' = d \<and> dev_log d' h' = dev_log d h \<and> dev_pending d' h' = dev_pending d h \<and>
          (if length user < unat n then e = EFAULT \<or> e = ENOMEM else e = ENOMEM)
      | Inr m \<Rightarrow> m = n \<and> unat n \<le> length user \<and>
          (\<exists>r. write_effect d h (take (unat n) user) r d' h' \<and>
             (ample h (length (dev_pending d h) + 3 * unat n) \<longrightarrow> r))) \<and>
     (ample h (length (dev_pending d h) + 3 * unat n) \<and> unat n \<le> length user \<longrightarrow> ret = Inr n)"

lemma write_refused:
  assumes "heap_ok h" "dev_ok d h" "private_data f" "kmalloc n h = (NULL, h1)"
  shows "aesd_write d f user n h = Inr (Inl ENOMEM, d, h1)" "write_post d h user n (Inl ENOMEM) d h1"
proof -
  show "aesd_write d f user n h = Inr (Inl ENOMEM, d, h1)"
    using assms(3,4) by (simp add: aesd_write_def filp_dev_def)
  have h1: "heap_ok h1" "blocks h1 = blocks h" "grant h1 = grant h"
    using kmalloc_NULL [OF assms(4,1)] by auto
  note fr = dev_frame [of d h1 h]
  have "\<not> ample h (length (dev_pending d h) + 3 * unat n)"
    using assms(4) by (auto simp: kmalloc_def Let_def ample_def split: if_splits)
  moreover have "used h1 = used h" using h1 assms(1) by (simp add: heap_ok_def)
  ultimately show "write_post d h user n (Inl ENOMEM) d h1"
    using h1 fr assms(2) by (simp add: write_post_def dev_step_def)
qed

lemma write_user_fault:
  assumes "heap_ok h" "dev_ok d h" "private_data f" "kmalloc n h = (Ptr k, h1)"
    and "length user < unat n"
  obtains h2 where "aesd_write d f user n h = Inr (Inl EFAULT, d, h2)"
    "write_post d h user n (Inl EFAULT) d h2"
proof -
  from kmalloc_Ptr [OF assms(4,1)] obtain bs where h1: "heap_ok h1" "grant h1 = grant h"
    "blocks h k = None" "blocks h1 = (blocks h)(k \<mapsto> bs)" by auto
  have k: "k \<notin> dev_fp d" using dev_fp_live [OF assms(2)] h1(3) by auto
  then have "blocks h1 a = blocks h a" if "a \<in> dev_fp d" for a using h1(4) that by auto
  note fr = dev_frame [OF this]
  have "dev_step d h1 d h1" using h1(1) fr(1) assms(2) by (simp add: dev_step_refl)
  from kbuf_free [OF h1(4,3,2) k this] obtain h2 where "kfree (Ptr k) h1 = Inr h2"
    "dev_step d h d h2" "dev_log d h2 = dev_log d h1" "dev_pending d h2 = dev_pending d h1"
    "used h2 + length bs = used h1" .
  with fr that assms(3-5) used_add [OF assms(1) h1(1,4,3)] show thesis
    by (simp add: aesd_write_def filp_dev_def write_post_def)
qed

lemma write_collect:
  assumes "heap_ok h" "dev_ok d h" "private_data f" "kmalloc n h = (Ptr k, h1)"
    and "unat n \<le> length user" "newline \<notin> set (take (unat n) user)"
  shows "\<exists>ret d' h'. aesd_write d f user n h = Inr (ret, d', h') \<and> write_post d h user n ret d' h'"
proof -
  let ?xs = "take (unat n) user"
  from kbuf_fill [OF assms(1,2,4,5)] obtain h2 where
    kb: "store (Ptr k) 0 ?xs h1 = Inr h2" "load (Ptr k) 0 (unat n) h2 = Inr ?xs" "heap_ok h2"
    "grant h2 = grant h" "blocks h2 = (blocks h)(k \<mapsto> ?xs)" "blocks h k = None" "k \<notin> dev_fp d"
    "used h2 = used h + unat n" "dev_ok d h2" "dev_log d h2 = dev_log d h"
    "dev_pending d h2 = dev_pending d h" .
  have k: "blocks h2 k = Some ?xs" "k \<notin> temp_fp (temp_obj d)"
    using kb(5,7) by (auto simp: dev_fp_def)
  have len: "length ?xs = unat n" using assms(5) by simp
  from dev_add_pending [OF kb(3,9) k len] obtain r t' h3 where
    ad: "aesd_temperary_buffer_add (temp_obj d) (Ptr k) n h2 = Inr (r, t', h3)"
    "dev_step d h2 (d\<lparr>temp_obj := t'\<rparr>) h3" "dev_log d h3 = dev_log d h2"
    "if r then temp_data t' h3 = temp_data (temp_obj d) h2 @ ?xs \<and> used h3 = used h2 + unat n
     else t' = temp_obj d \<and> blocks h3 = blocks h2 \<and> used h3 = used h2"
    "(\<forall>k. grant h2 k) \<and> used h2 + length (temp_data (temp_obj d) h2) + unat n \<le> PTRDIFF_MAX \<longrightarrow> r"
    by blast
  from kbuf_free [OF kb(5,6,4,7) ad(2)] obtain h4 where
    fr: "kfree (Ptr k) h3 = Inr h4" "dev_step d h (d\<lparr>temp_obj := t'\<rparr>) h4"
    "dev_log (d\<lparr>temp_obj := t'\<rparr>) h4 = dev_log (d\<lparr>temp_obj := t'\<rparr>) h3"
    "dev_pending (d\<lparr>temp_obj := t'\<rparr>) h4 = dev_pending (d\<lparr>temp_obj := t'\<rparr>) h3"
    "used h4 + length ?xs = used h3" .
  let ?ret = "if r then Inr n else Inl ENOMEM"
  have tp: "temp_ptr d \<noteq> NULL" using assms(2) by (simp add: dev_ok_def)
  have "aesd_write d f user n h = Inr (?ret, d\<lparr>temp_obj := t'\<rparr>, h4)"
    using assms(3-6) kb(1,2) ad(1) fr(1) tp
    by (simp add: aesd_write_def filp_dev_def newline_loop_iff bufferTemperary_def)
  moreover have log: "dev_log (d\<lparr>temp_obj := t'\<rparr>) h4 = dev_log d h"
    using fr(3) ad(3) kb(10) by (simp add: dev_log_def)
  moreover have "ample h (length (dev_pending d h) + 3 * unat n) \<longrightarrow> r"
    using ad(5) kb(4,8,11) by (simp add: ample_def dev_pending_def)
  moreover have "dev_pending (d\<lparr>temp_obj := t'\<rparr>) h4 = dev_pending d h @ (if r then ?xs else [])"
  proof (cases r)
    case True
    with fr(4) ad(4) kb(11) show ?thesis by (simp add: dev_pending_def)
  next
    case False
    with ad(4) have "t' = temp_obj d" "blocks h3 = blocks h2" by auto
    with fr(4) kb(11) temp_frame(2) [of t' h3 h2] False show ?thesis by (simp add: dev_pending_def)
  qed
  moreover have "used h4 \<le> used h + unat n"
    using ad(4) fr(5) kb(8) len by (simp split: if_splits)
  ultimately show ?thesis
    using fr(2) assms(5,6) ad(4) by (cases r) (auto simp: write_post_def write_effect_def)
qed

lemma write_complete_empty:
  assumes "heap_ok h" "dev_ok d h" "private_data f" "kmalloc n h = (Ptr k, h1)"
    and "unat n \<le> length user" "newline \<in> set (take (unat n) user)" "dev_pending d h = []"
  shows "\<exists>ret d' h'. aesd_write d f user n h = Inr (ret, d', h') \<and> write_post d h user n ret d' h'"
proof -
  let ?xs = "take (unat n) user"
  from kbuf_fill [OF assms(1,2,4,5)] obtain h2 where
    kb: "store (Ptr k) 0 ?xs h1 = Inr h2" "load (Ptr k) 0 (unat n) h2 = Inr ?xs" "heap_ok h2"
    "grant h2 = grant h" "blocks h2 = (blocks h)(k \<mapsto> ?xs)" "blocks h k = None" "k \<notin> dev_fp d"
    "used h2 = used h + unat n" "dev_ok d h2" "dev_log d h2 = dev_log d h"
    "dev_pending d h2 = dev_pending d h" .
  have k: "blocks h2 k = Some ?xs" and len: "length ?xs = unat n" and pd: "dev_pending d h2 = []"
    using kb(5,11) assms(5,7) by auto
  from write_newline_empty [OF kb(3,9) k kb(7) len pd assms(6)] obtain r b' h3 where
    ad: "aesd_circular_buffer_add_entry (bufferCircular d) (Some \<lparr>e_buffptr = Ptr k, e_size = n\<rparr>) h2 =
        Inr (Some b', h3)"
    "dev_step d h2 (set_circ d (Some b')) h3" "write_effect d h2 ?xs r (set_circ d (Some b')) h3"
    "ample h2 (unat n) \<longrightarrow> r" "used h3 \<le> used h2 + unat n" .
  from kbuf_free [OF kb(5,6,4,7) ad(2)] obtain h4 where
    fr: "kfree (Ptr k) h3 = Inr h4" "dev_step d h (set_circ d (Some b')) h4"
    "dev_log (set_circ d (Some b')) h4 = dev_log (set_circ d (Some b')) h3"
    "dev_pending (set_circ d (Some b')) h4 = dev_pending (set_circ d (Some b')) h3"
    "used h4 + length ?xs = used h3" .
  have tp: "temp_ptr d \<noteq> NULL" "temp_ok (temp_obj d) h" using assms(2) by (auto simp: dev_ok_def)
  then have "aesd_temperary_buffer_is_empty (temp_obj d)"
    using kbuf.is_empty_iff assms(7) by (simp add: dev_pending_def)
  then have "aesd_write d f user n h = Inr (Inr n, set_circ d (Some b'), h4)"
    using assms(3-6) kb(1,2) ad(1) fr(1) tp
    by (simp add: aesd_write_def filp_dev_def newline_loop_iff bufferTemperary_def)
  moreover have "write_effect d h ?xs r (set_circ d (Some b')) h4"
    using ad(3) fr(3,4) kb(10,11) by (simp add: write_effect_def)
  moreover have "ample h (length (dev_pending d h) + 3 * unat n) \<longrightarrow> r"
    using ad(4) kb(4,8) by (simp add: ample_def)
  moreover have "used h4 \<le> used h + unat n" using ad(5) fr(5) kb(8) len by simp
  ultimately show ?thesis using fr(2) assms(5) by (auto simp: write_post_def)
qed

lemma write_complete_pending:
  assumes "heap_ok h" "dev_ok d h" "private_data f" "kmalloc n h = (Ptr k, h1)"
    and "unat n \<le> length user" "newline \<in> set (take (unat n) user)" "dev_pending d h \<noteq> []"
  shows "\<exists>ret d' h'. aesd_write d f user n h = Inr (ret, d', h') \<and> write_post d h user n ret d' h'"
proof -
  let ?xs = "take (unat n) user" and ?ys = "dev_pending d h @ take (unat n) user"
  from kbuf_fill [OF assms(1,2,4,5)] obtain h2 where
    kb: "store (Ptr k) 0 ?xs h1 = Inr h2" "load (Ptr k) 0 (unat n) h2 = Inr ?xs" "heap_ok h2"
    "grant h2 = grant h" "blocks h2 = (blocks h)(k \<mapsto> ?xs)" "blocks h k = None" "k \<notin> dev_fp d"
    "used h2 = used h + unat n" "dev_ok d h2" "dev_log d h2 = dev_log d h"
    "dev_pending d h2 = dev_pending d h" .
  have k: "blocks h2 k = Some ?xs" "k \<notin> temp_fp (temp_obj d)" and len: "length ?xs = unat n"
    using kb(5,7) assms(5) by (auto simp: dev_fp_def)
  from dev_add_pending [OF kb(3,9) k len] obtain r t1 h3 where
    ad: "aesd_temperary_buffer_add (temp_obj d) (Ptr k) n h2 = Inr (r, t1, h3)"
    "dev_step d h2 (d\<lparr>temp_obj := t1\<rparr>) h3" "dev_log d h3 = dev_log d h2"
    "if r then temp_data t1 h3 = temp_data (temp_obj d) h2 @ ?xs \<and> used h3 = used h2 + unat n
     else t1 = temp_obj d \<and> blocks h3 = blocks h2 \<and> used h3 = used h2"
    "(\<forall>k. grant h2 k) \<and> used h2 + length (temp_data (temp_obj d) h2) + unat n \<le> PTRDIFF_MAX \<longrightarrow> r"
    by blast
  let ?d1 = "d\<lparr>temp_obj := t1\<rparr>"
  have tp: "temp_ptr d \<noteq> NULL" "temp_ok (temp_obj d) h" using assms(2) by (auto simp: dev_ok_def)
  have ne: "\<not> aesd_temperary_buffer_is_empty (temp_obj d)"
    using kbuf.is_empty_iff [OF tp(2)] assms(7) by (simp add: dev_pending_def)
  have r: "ample h (length (dev_pending d h) + 3 * unat n) \<longrightarrow> r"
    using ad(5) kb(4,8,11) by (simp add: ample_def dev_pending_def)
  show ?thesis
  proof (cases r)
    case False
    then have same: "?d1 = d" "blocks h3 = blocks h2" using ad(4) by auto
    from kbuf_free [OF kb(5,6,4,7) ad(2)] same obtain h4 where
      fr: "kfree (Ptr k) h3 = Inr h4" "dev_step d h d h4" "dev_log d h4 = dev_log d h3"
      "dev_pending d h4 = dev_pending d h3" "used h4 + length ?xs = used h3" by auto
    have "aesd_write d f user n h = Inr (Inl ENOMEM, d, h4)"
      using assms(3-6) kb(1,2) ad(1) fr(1) tp(1) ne False same
      by (simp add: aesd_write_def filp_dev_def newline_loop_iff bufferTemperary_def)
    moreover have "dev_pending d h3 = dev_pending d h2"
      using dev_frame(3) [of d h3 h2] same(2) by simp
    moreover have "used h4 \<le> used h + unat n" using ad(4) False fr(5) kb(8) len by simp
    ultimately show ?thesis
      using fr(2-4) ad(3) kb(10,11) r False assms(5) by (auto simp: write_post_def)
  next
    case True
    have d1: "heap_ok h3" "dev_ok ?d1 h3" "grant h3 = grant h2" using ad(2) by (auto simp: dev_step_def)
    have pend: "dev_pending ?d1 h3 = ?ys" using ad(4) True kb(11) by (simp add: dev_pending_def)
    have ys: "?ys \<noteq> []" "newline \<in> set ?ys" using assms(6,7) by auto
    from write_newline_pending [OF d1(1,2) pend ys] obtain r2 b' h4 h5 where
      raw: "aesd_circular_buffer_add_entry (bufferCircular ?d1)
         (Some \<lparr>e_buffptr = t_buffptr (temp_obj ?d1), e_size = t_size (temp_obj ?d1)\<rparr>) h3 = Inr (Some b', h4)"
      "aesd_temperary_buffer_delete (temp_obj ?d1) h4 = Inr (aesd_temperary_buffer_init, h5)"
      "dev_step ?d1 h3 (?d1\<lparr>circ_obj := b', temp_obj := aesd_temperary_buffer_init\<rparr>) h5"
      "add_post (circ_obj ?d1) h3 ?ys r2 b' h4"
      "dev_log (?d1\<lparr>circ_obj := b', temp_obj := aesd_temperary_buffer_init\<rparr>) h5 = contents b' h4"
      "ample h3 (length ?ys) \<longrightarrow> r2" "used h5 \<le> used h3" .
    note wr = raw [simplified]
    let ?d2 = "d\<lparr>circ_obj := b', temp_obj := aesd_temperary_buffer_init\<rparr>"
    from kbuf_free [OF kb(5,6,4,7) dev_step_trans [OF ad(2) wr(3)]] obtain h6 where
      fr: "kfree (Ptr k) h5 = Inr h6" "dev_step d h ?d2 h6" "dev_log ?d2 h6 = dev_log ?d2 h5"
      "dev_pending ?d2 h6 = dev_pending ?d2 h5" "used h6 + length ?xs = used h5" .
    have "bufferCircular ?d1 = bufferCircular d" by (simp add: bufferCircular_def)
    then have "aesd_write d f user n h = Inr (Inr n, ?d2, h6)"
      using assms(3-6) kb(1,2) ad(1) fr(1) tp(1) ne True wr(1,2)
      by (simp add: aesd_write_def filp_dev_def newline_loop_iff bufferTemperary_def set_circ_def)
    moreover have "contents (circ_obj d) h3 = dev_log d h" "dev_pending ?d2 h6 = []"
      using ad(3) kb(10) fr(4) kbuf.init_ok(2) by (auto simp: dev_log_def dev_pending_def)
    then have "write_effect d h ?xs r2 ?d2 h6"
      using wr(4,5) fr(3) assms(6) by (simp add: write_effect_def add_post_def)
    moreover have "ample h (length (dev_pending d h) + 3 * unat n) \<longrightarrow> r2"
      using wr(6) ad(4) True kb(4,8) d1(3) len by (simp add: ample_def)
    moreover have "used h6 \<le> used h + unat n" using wr(7) fr(5) ad(4) True kb(8) len by simp
    ultimately show ?thesis using fr(2) assms(5) by (auto simp: write_post_def)
  qed
qed

lemma aesd_write_spec:
  assumes "heap_ok h" "dev_ok d h" "private_data f"
  shows "\<exists>ret d' h'. aesd_write d f user n h = Inr (ret, d', h') \<and> write_post d h user n ret d' h'"
proof -
  obtain p h1 where al: "kmalloc n h = (p, h1)" by fastforce
  show ?thesis
  proof (cases p)
    case NULL
    with write_refused [OF assms] al show ?thesis by blast
  next
    case (Ptr k)
    note al = al [unfolded Ptr]
    show ?thesis
    proof (cases "length user < unat n")
      case True
      show ?thesis by (rule write_user_fault [OF assms al True]) blast
    next
      case False
      then have "unat n \<le> length user" by simp
      then show ?thesis
        using write_collect [OF assms al] write_complete_empty [OF assms al]
          write_complete_pending [OF assms al] by blast
    qed
  qed
qed

subsection \<open>Healthy devices\<close>

text \<open>
  A device whose circular buffer has no hole and whose \<open>full\<close> flag is exact: every device that
  has not been refused memory while storing an entry. For it the stored entries are a log of at
  most ten, and \<open>size\<close> is the number of bytes a reader sees.
\<close>

definition healthy :: "aesd_dev \<Rightarrow> bool" where
  "healthy d \<longleftrightarrow> circ_dense (circ_obj d) \<and> circ_exact (circ_obj d)"

lemma healthy_full:
  "dev_ok d h \<Longrightarrow> healthy d \<Longrightarrow> full (circ_obj d) \<longleftrightarrow> length (dev_log d h) = 10"
  by (simp add: healthy_def circ_exact_def dev_log_def dev_ok_def contents_count)

lemma healthy_log_le: "dev_ok d h \<Longrightarrow> healthy d \<Longrightarrow> length (dev_log d h) \<le> 10"
  using slots_le [of "circ_obj d"] by (simp add: healthy_def dev_log_def dev_ok_def contents_count)

lemma dense_total:
  assumes "heap_ok h" "circ_ok b h" "circ_dense b"
  shows "unat (c_size b) = length (concat (contents b h))"
proof -
  have "sum_list (map (unat \<circ> e_size) (ring b)) =
      sum_list (map (unat \<circ> e_size) (take (slots b) (ring b) @ drop (slots b) (ring b)))" by simp
  also have "\<dots> = sum_list (map (unat \<circ> e_size) (take (slots b) (ring b)))"
    using assms(2) by (simp add: circ_ok_ring sum_list_replicate empty_entry_def del: append_take_drop_id)
  finally have "sum_list (map (unat \<circ> e_size) (ring b)) =
      sum_list (map (unat \<circ> e_size) (take (slots b) (ring b)))" .
  moreover have "sum_list (map (unat \<circ> e_size) (ring b)) \<le> PTRDIFF_MAX"
    using ring_sum_take [OF assms(1,2), of 10] assms(2) by (simp add: circ_ok_def)
  moreover have "length (concat (contents b h)) = sum_list (map (unat \<circ> e_size) (take (slots b) (ring b)))"
    using contents_take_sum [OF assms(2), of "slots b"] contents_count [OF assms(2,3)] by simp
  ultimately show ?thesis
    using assms(2) sum_list_size_unat [of "ring b"] by (simp add: circ_ok_ring ring_ok_def)
qed

lemma write_effect_healthy:
  assumes "dev_ok d h" "healthy d" "write_effect d h data True d' h'"
  shows "healthy d'"
    "newline \<in> set data \<Longrightarrow> dev_log d' h' = log_push (dev_log d h) (dev_pending d h @ data)"
    "newline \<in> set data \<Longrightarrow> dev_pending d' h' = []"
    "newline \<notin> set data \<Longrightarrow> dev_log d' h' = dev_log d h"
    "newline \<notin> set data \<Longrightarrow> dev_pending d' h' = dev_pending d h @ data"
    "length (dev_log d h) < 10 \<Longrightarrow> out_offs (circ_obj d') = out_offs (circ_obj d)"
    "out_offs (circ_obj d') = (if newline \<in> set data \<and> length (dev_log d h) = 10
       then next_offs (out_offs (circ_obj d)) else out_offs (circ_obj d))"
  using assms healthy_full [OF assms(1,2)]
  by (auto simp: write_effect_def healthy_def log_push_def split: if_splits)

text \<open>
  A line whose own copy is granted memory but whose copy in the circular buffer is not: the write
  still succeeds.
\<close>

lemma write_dropped:
  assumes "heap_ok h" "dev_ok d h" "private_data f" "healthy d" "dev_pending d h = []"
    and "unat n \<le> length user" "newline \<in> set (take (unat n) user)"
    and "grant h (brk h)" "used h + unat n \<le> PTRDIFF_MAX" "\<not> grant h (Suc (brk h))"
  obtains d' h' where "aesd_write d f user n h = Inr (Inr n, d', h')" "dev_pending d' h' = []"
    "dev_log d' h' = (if full (circ_obj d) then tl (dev_log d h) else dev_log d h)"
proof -
  let ?xs = "take (unat n) user"
  obtain h1 where al: "kmalloc n h = (Ptr (brk h), h1)" "brk h1 = Suc (brk h)"
    using assms(8,9) by (simp add: kmalloc_def Let_def)
  from kbuf_fill [OF assms(1,2) al(1) assms(6)] obtain h2 where
    kb: "store (Ptr (brk h)) 0 ?xs h1 = Inr h2" "load (Ptr (brk h)) 0 (unat n) h2 = Inr ?xs" "heap_ok h2"
    "grant h2 = grant h" "dev_ok d h2" "dev_log d h2 = dev_log d h" by blast
  have ok: "circ_ok (circ_obj d) h2" "circ_dense (circ_obj d)" "bufferCircular d = Some (circ_obj d)"
    "temp_ptr d \<noteq> NULL" "temp_ok (temp_obj d) h"
    using kb(5) assms(2,4) by (auto simp: dev_ok_def healthy_def bufferCircular_def)
  have "\<not> grant h2 (brk h2)" using assms(10) kb(4) store_brk [OF kb(1)] al(2) by simp
  from add_entry_refused_spec [OF kb(3) ok(1,2) this, of "\<lparr>e_buffptr = Ptr (brk h), e_size = n\<rparr>"] obtain b' h3 where
    ad: "aesd_circular_buffer_add_entry (Some (circ_obj d)) (Some \<lparr>e_buffptr = Ptr (brk h), e_size = n\<rparr>) h2 =
      Inr (Some b', h3)"
    "contents b' h3 = (if full (circ_obj d) then tl (contents (circ_obj d) h2) else contents (circ_obj d) h2)" by blast
  have "aesd_temperary_buffer_is_empty (temp_obj d)"
    using kbuf.is_empty_iff [OF ok(5)] assms(5) by (simp add: dev_pending_def)
  then have run: "aesd_write d f user n h =
      andthen (kfree (Ptr (brk h)) h3) (\<lambda>h4. Inr (Inr n, set_circ d (Some b'), h4))"
    using assms(3,6,7) al(1) kb(1,2) ok(3,4) ad(1)
    by (simp add: aesd_write_def filp_dev_def newline_loop_iff bufferTemperary_def)
  from aesd_write_spec [OF assms(1-3), of user n] obtain ret d' h' where
    w: "aesd_write d f user n h = Inr (ret, d', h')" "write_post d h user n ret d' h'" by blast
  then have d': "ret = Inr n" "circ_obj d' = b'"
    using run by (auto simp: andthen_eq_Inr_iff set_circ_def)
  from w(2) d'(1) obtain r where eff: "write_effect d h ?xs r d' h'" by (auto simp: write_post_def)
  then have log: "dev_pending d' h' = []"
    "dev_log d' h' = (if full (circ_obj d) then tl (dev_log d h) else dev_log d h) @
       (if r then [dev_pending d h @ ?xs] else [])"
    using assms(7) ok(2) by (auto simp: write_effect_def)
  have "length (dev_log d' h') = length (contents b' h3)" by (simp add: dev_log_def contents_def d'(2))
  then have "\<not> r" using log(2) ad(2) kb(6) by (auto simp: dev_log_def split: if_splits)
  with that w(1) d'(1) log show thesis by simp
qed

subsection \<open>Correctness of read\<close>

lemma aesd_read_spec:
  assumes "heap_ok h" "dev_ok d h" "private_data f"
  shows "aesd_read d f user_room n pos h =
    (let ys = log_read (dev_log d h) (unat pos) (unat n) in
     if user_room < length ys then Inr (Inl EFAULT, [], pos)
     else Inr (Inr (of_nat (length ys)), ys, pos + of_nat (length ys)))"
proof -
  have ok: "circ_ok (circ_obj d) h" "bufferCircular d = Some (circ_obj d)"
    using assms(2) by (auto simp: dev_ok_def bufferCircular_def)
  show ?thesis
  proof (cases "locate (dev_log d h) (unat pos)")
    case None
    from cindex.find_miss [OF assms(1) ok(1)] None assms(3) ok(2) show ?thesis
      by (simp add: aesd_read_def filp_dev_def dev_log_def log_read_def)
  next
    case (Some ik)
    obtain i k where ik: "ik = (i, k)" by fastforce
    from cindex.read_found [OF assms(1) ok(1), of pos i k n] Some ik
    obtain j e where r: "aesd_circular_buffer_find_entry_offset_for_fpos (Some (circ_obj d)) pos False =
        Inr (Some (j, of_nat k))" "entry_at (circ_obj d) j = Inr e"
      "load (e_buffptr e) (unat (of_nat k :: size_t)) (unat (min n (e_size e - of_nat k))) h =
        Inr (log_read (dev_log d h) (unat pos) (unat n))"
      "unat (min n (e_size e - of_nat k)) = length (log_read (dev_log d h) (unat pos) (unat n))"
      by (auto simp: dev_log_def)
    have "min n (e_size e - of_nat k) = of_nat (length (log_read (dev_log d h) (unat pos) (unat n)))"
      unfolding r(4) [symmetric] by simp
    with r assms(3) ok(2) show ?thesis
      by (simp add: aesd_read_def filp_dev_def circ_deref_def Let_def)
  qed
qed

subsection \<open>The seek ioctl\<close>

lemma unat_ucast_u32: "unat (ucast x :: size_t) = unat x" for x :: u32
  by (simp add: unsigned_ucast_eq take_bit_nat_eq_self_iff order.strict_trans [OF unsigned_less])

text \<open>
  The handler exactly as written. Its own bound check reads the size of slot \<open>write_cmd\<close> of the
  array; the lookup that follows counts from the oldest entry.
\<close>

lemma aesd_ioctl_spec:
  assumes "heap_ok h" "dev_ok d h" "private_data f"
  shows "aesd_ioctl d f AESDCHAR_IOCSEEKTO (Some s) =
    (let c = unat (write_cmd s); k = unat (write_cmd_offset s); log = dev_log d h in
     if 10 \<le> c \<or> unat (e_size (entry (circ_obj d) ! c)) \<le> k then Inr (Inl EINVAL, f)
     else Inr (Inr 0, f\<lparr>f_pos := (if c < length log \<and> k < length (log ! c)
       then of_nat (length (concat (take c log)) + k) else 0)\<rparr>))"
proof -
  have ok: "circ_ok (circ_obj d) h" "bufferCircular d = Some (circ_obj d)"
    and len: "length (entry (circ_obj d)) = 10"
    using assms(2) by (auto simp: dev_ok_def bufferCircular_def circ_ok_def)
  note fi = find_ioctl_spec [OF assms(1) ok(1), of "ucast (write_cmd s)" "ucast (write_cmd_offset s)"]
  show ?thesis
    using assms(3) IOCSEEKTO_fields ok(2) len fi
    by (auto simp: aesd_ioctl_def filp_dev_def circ_deref_def entry_at_def Let_def ioctl_result_def
        dev_log_def word_le_nat_alt unat_ucast_u32)
qed

text \<open>While nothing has been overwritten, slot numbers and write commands agree.\<close>

lemma unwrapped_slot:
  assumes "circ_ok b h" "circ_dense b" "out_offs b = 0" "c < 10"
  shows "unat (e_size (entry b ! c)) = (if c < length (contents b h) then length (contents b h ! c) else 0)"
proof -
  have r: "ring b = entry b" using assms(3) by (simp add: ring_def)
  show ?thesis
  proof (cases "c < length (contents b h)")
    case True
    with contents_length(1) [OF assms(1)] r show ?thesis by simp
  next
    case False
    then have "slots b \<le> c" using contents_count [OF assms(1,2)] by simp
    then have "entry b ! c = drop (slots b) (ring b) ! (c - slots b)"
      using slots_le [of b] assms(1) r by (subst nth_drop) (auto simp: circ_ok_def)
    also have "\<dots> = empty_entry"
      using assms(1,4) \<open>slots b \<le> c\<close> by (simp add: circ_ok_def)
    finally show ?thesis using False by (simp add: empty_entry_def)
  qed
qed

lemma ioctl_unwrapped:
  assumes "heap_ok h" "dev_ok d h" "private_data f" "healthy d" "out_offs (circ_obj d) = 0"
    and "c = unat (write_cmd s)" "k = unat (write_cmd_offset s)"
  shows "if c < length (dev_log d h) \<and> k < length (dev_log d h ! c)
    then \<exists>p. aesd_ioctl d f AESDCHAR_IOCSEEKTO (Some s) = Inr (Inr 0, f\<lparr>f_pos := p\<rparr>) \<and>
      drop (unat p) (concat (dev_log d h)) = drop k (dev_log d h ! c) @ concat (drop (Suc c) (dev_log d h))
    else aesd_ioctl d f AESDCHAR_IOCSEEKTO (Some s) = Inr (Inl EINVAL, f)"
proof -
  let ?log = "dev_log d h"
  have ok: "circ_ok (circ_obj d) h" "circ_dense (circ_obj d)" and le: "length ?log \<le> 10"
    using assms(2,4) healthy_log_le by (auto simp: dev_ok_def healthy_def)
  note sz = unwrapped_slot [OF ok assms(5), of c, folded dev_log_def]
  note spec = aesd_ioctl_spec [OF assms(1-3), of s, folded assms(6,7)]
  show ?thesis
  proof (cases "c < length ?log \<and> k < length (?log ! c)")
    case True
    let ?p = "length (concat (take c ?log)) + k"
    have "?p < length (concat ?log)"
      using locate_None_iff [of ?log ?p] locate_unique [of c ?log k] True by auto
    then have "unat (of_nat ?p :: loff_t) = ?p"
      using cindex.view_fits [OF assms(1) ok(1)] by (intro unat_of_nat_size) (simp add: dev_log_def)
    moreover have "drop ?p (concat ?log) = drop k (?log ! c) @ concat (drop (Suc c) ?log)"
      using locate_unique [of c ?log k] True by (intro locate_drop) simp
    ultimately show ?thesis using True spec sz le by (auto simp: Let_def)
  next
    case False
    then have "10 \<le> c \<or> unat (e_size (entry (circ_obj d) ! c)) \<le> k"
      using sz by (cases "c < 10") auto
    with spec False show ?thesis by (simp add: Let_def)
  qed
qed

text \<open>Once the buffer has wrapped, slot \<open>c\<close> holds another entry of the log than the \<open>c\<close>-th.\<close>

lemma wrapped_slot:
  assumes "circ_ok b h" "circ_dense b" "length (contents b h) = 10" "c < 10"
  shows "unat (e_size (entry b ! c)) = length (contents b h ! ((c + 10 - unat (out_offs b)) mod 10))"
proof -
  let ?o = "unat (out_offs b)" and ?j = "(c + 10 - unat (out_offs b)) mod 10"
  have o: "?o < 10" "length (entry b) = 10" using assms(1) by (auto simp: circ_ok_def)
  have "(?o + ?j) mod 10 = (c + 10) mod 10" using o(1) by (simp add: mod_add_right_eq)
  then have "(?o + ?j) mod 10 = c" using assms(4) by simp
  then have "ring b ! ?j = entry b ! c" using ring_nth [of b ?j] o by simp
  with contents_length(1) [OF assms(1), of ?j] assms(3) show ?thesis by simp
qed

subsection \<open>Module life cycle\<close>

lemma kmalloc_dev_frame:
  assumes "kmalloc n h = (Ptr a, h')" "heap_ok h"
  shows "heap_ok h'" "grant h' = grant h" "blocks h a = None" "a \<in> dom (blocks h')"
    "blocks h' |` (- {a}) = blocks h" "\<And>x. x \<noteq> a \<Longrightarrow> blocks h' x = blocks h x"
proof -
  from kmalloc_Ptr [OF assms] obtain bs where k: "heap_ok h'" "grant h' = grant h" "blocks h a = None"
    "blocks h' = (blocks h)(a \<mapsto> bs)" by auto
  then show "heap_ok h'" "grant h' = grant h" "blocks h a = None" "a \<in> dom (blocks h')"
    "\<And>x. x \<noteq> a \<Longrightarrow> blocks h' x = blocks h x" by auto
  show "blocks h' |` (- {a}) = blocks h" unfolding k(4) using k(3) by (auto simp: restrict_map_def)
qed

lemma init_module_ok:
  assumes "heap_ok h0" "aesd_init_module rr cr m0 h0 = (Inr 0, m, h)"
  shows "heap_ok h" "dev_ok (aesd_device m) h" "grant h = grant h0" "region m" "cdev m"
    "blocks h |` (- dev_fp (aesd_device m)) = blocks h0" "healthy (aesd_device m)"
    "dev_log (aesd_device m) h = []" "dev_pending (aesd_device m) h = []"
proof -
  obtain p h1 where al: "kmalloc sizeof_circular h0 = (p, h1)" by fastforce
  obtain q h2 where al2: "kmalloc sizeof_temperary h1 = (q, h2)" by fastforce
  from assms(2) al obtain c where c: "p = Ptr c"
    by (cases p) (auto simp: aesd_init_module_def Let_def split: if_splits)
  from assms(2) al al2 c obtain t where t: "q = Ptr t"
    by (cases q) (auto simp: aesd_init_module_def Let_def split: if_splits)
  let ?d = "\<lparr>temp_ptr = Ptr t, temp_obj = aesd_temperary_buffer_init, circ_ptr = Ptr c,
    circ_obj = zero_circular_buffer\<rparr>"
  have m: "aesd_device m = ?d" "h = h2" "region m" "cdev m"
    using assms(2) al al2 c t
    by (auto simp: aesd_init_module_def Let_def aesd_setup_cdev_def zero_dev_def
        aesd_circular_buffer_init_def split: if_splits)
  note k1 = kmalloc_dev_frame [OF al [unfolded c] assms(1)]
  note k2 = kmalloc_dev_frame [OF al2 [unfolded t] k1(1)]
  have ne: "c \<noteq> t" using k1(4) k2(3) by auto
  have fp: "dev_fp ?d = {c, t}" by (auto simp: dev_fp_def circ_init kbuf.init_ok)
  have "c \<in> dom (blocks h2)" using k1(4) k2(6) [OF ne] by (simp add: domIff)
  then have ok: "dev_ok ?d h2"
    using ne k2(4) by (auto simp: dev_ok_def circ_init kbuf.init_ok)
  have "blocks h2 |` (- {c, t}) = (blocks h2 |` (- {t})) |` (- {c})"
    by (auto simp: restrict_map_def)
  also have "\<dots> = blocks h0" by (simp add: k1(5) k2(5))
  finally have fr: "blocks h2 |` (- {c, t}) = blocks h0" .
  show "heap_ok h" "dev_ok (aesd_device m) h" "grant h = grant h0" "region m" "cdev m"
    using m ok k1(2) k2(1,2) by simp_all
  show "blocks h |` (- dev_fp (aesd_device m)) = blocks h0" using m fp fr by simp
  show "healthy (aesd_device m)" "dev_log (aesd_device m) h = []" "dev_pending (aesd_device m) h = []"
    using m by (simp_all add: healthy_def circ_init dev_log_def dev_pending_def kbuf.init_ok)
qed

lemma cleanup_module_ok:
  assumes "heap_ok h" "dev_ok (aesd_device m) h"
  obtains m' h' where "aesd_cleanup_module m h = Inr (m', h')" "heap_ok h'" "\<not> region m'" "\<not> cdev m'"
    "blocks h' = blocks h |` (- dev_fp (aesd_device m))"
proof -
  let ?d = "aesd_device m"
  let ?c = "circ_obj ?d" and ?t = "temp_obj ?d"
  from assms(2) obtain c t where p: "circ_ptr ?d = Ptr c" "temp_ptr ?d = Ptr t"
    by (cases "circ_ptr ?d"; cases "temp_ptr ?d") (auto simp: dev_ok_def)
  have ok: "circ_ok ?c h" "temp_ok ?t h" and sep: "c \<noteq> t" "c \<notin> circ_fp ?c" "c \<notin> temp_fp ?t"
    "t \<notin> circ_fp ?c" "t \<notin> temp_fp ?t" "circ_fp ?c \<inter> temp_fp ?t = {}"
    and live: "c \<in> dom (blocks h)" "t \<in> dom (blocks h)"
    using assms(2) p by (auto simp: dev_ok_def)
  from cleanup_spec [OF assms(1) ok(1)] obtain h1 where
    h1: "aesd_circular_buffer_cleanup (Some ?c) h = Inr h1" "heap_ok h1"
    "blocks h1 = blocks h |` (- circ_fp ?c)" by auto
  have "c \<in> dom (blocks h1)" unfolding h1(3) using live sep by simp
  then obtain bs where "blocks h1 c = Some bs" by auto
  from kfree_Ptr [OF h1(2) this] obtain h2 where
    h2: "kfree (Ptr c) h1 = Inr h2" "heap_ok h2" "blocks h2 = (blocks h1)(c := None)" by auto
  have "blocks h2 a = blocks h a" if "a \<in> temp_fp ?t" for a
  proof -
    have "a \<noteq> c" "a \<notin> circ_fp ?c" using that sep by auto
    then show ?thesis by (simp add: h2(3) h1(3))
  qed
  then have "temp_ok ?t h2" using temp_frame(1) ok(2) by blast
  from kbuf.clean_spec [OF h2(2) this] obtain h3 where
    h3: "aesd_temperary_buffer_clean ?t h2 = Inr (aesd_temperary_buffer_init, h3)" "heap_ok h3"
    "blocks h3 = blocks h2 |` (- temp_fp ?t)" by auto
  have "t \<in> dom (blocks h3)" unfolding h3(3) h2(3) h1(3) using live sep by simp
  then obtain bs2 where "blocks h3 t = Some bs2" by auto
  from kfree_Ptr [OF h3(2) this] obtain h4 where
    h4: "kfree (Ptr t) h3 = Inr h4" "heap_ok h4" "blocks h4 = (blocks h3)(t := None)" by auto
  have "blocks h4 = blocks h |` (- dev_fp ?d)"
    unfolding h4(3) h3(3) h2(3) h1(3) dev_fp_def p by (auto simp: restrict_map_def)
  then show thesis
    using that [of "m\<lparr>cdev := False, aesd_device := ?d\<lparr>temp_obj := aesd_temperary_buffer_init\<rparr>, region := False\<rparr>" h4]
      h1(1) h2(1) h3(1) h4 p
    by (simp add: aesd_cleanup_module_def bufferCircular_def bufferTemperary_def)
qed

text \<open>
  The states a loaded module can be in: initialisation succeeded in some heap, then any number
  of writes with any arguments, succeeding or not. (Reads and seeks leave device and heap as
  they are.)
\<close>

inductive module_run :: "heap \<Rightarrow> kmodule \<Rightarrow> heap \<Rightarrow> bool" for h0 where
  loaded: "aesd_init_module rr cr m0 h0 = (Inr 0, m, h) \<Longrightarrow> module_run h0 m h"
| written: "module_run h0 m h \<Longrightarrow> private_data f \<Longrightarrow>
    aesd_write (aesd_device m) f user n h = Inr (ret, d', h') \<Longrightarrow>
    module_run h0 (m\<lparr>aesd_device := d'\<rparr>) h'"

lemma module_run_inv:
  assumes "module_run h0 m h" "heap_ok h0"
  shows "heap_ok h \<and> dev_ok (aesd_device m) h \<and> blocks h |` (- dev_fp (aesd_device m)) = blocks h0"
  using assms(1)
proof (induction rule: module_run.induct)
  case (loaded rr cr m0 m h)
  from init_module_ok [OF assms(2) this] show ?case by simp
next
  case (written m h f user n ret d' h')
  then have "write_post (aesd_device m) h user n ret d' h'"
    using aesd_write_spec [of h "aesd_device m" f user n] by auto
  with written.IH show ?case by (auto simp: write_post_def dev_step_def)
qed

subsection \<open>Sequences of writes\<close>

text \<open>The abstract device: the log of complete entries and the bytes still pending.\<close>

definition spec_write :: "bytes list \<times> bytes \<Rightarrow> bytes \<Rightarrow> bytes list \<times> bytes" where
  "spec_write st data = (case st of (log, pend) \<Rightarrow>
     if newline \<in> set data then (log_push log (pend @ data), []) else (log, pend @ data))"

fun write_all ::
    "aesd_dev \<Rightarrow> filp \<Rightarrow> bytes list \<Rightarrow> heap \<Rightarrow> ((errno + size_t) list \<times> aesd_dev \<times> heap) res" where
  "write_all d f [] h = Inr ([], d, h)"
| "write_all d f (x # xs) h =
     andthen (aesd_write d f x (of_nat (length x)) h) (\<lambda>(r, d1, h1).
     andthen (write_all d1 f xs h1) (\<lambda>(rs, d2, h2). Inr (r # rs, d2, h2)))"

text \<open>An amount of memory that suffices for a sequence of writes, counted from the start.\<close>

definition demand :: "bytes \<Rightarrow> bytes list \<Rightarrow> nat" where
  "demand pend xs = length pend + 4 * length (concat xs)"

lemma write_one:
  assumes "heap_ok h" "dev_ok d h" "private_data f" "healthy d"
    and "ample h (length (dev_pending d h) + 3 * length x)"
  obtains d' h' where "aesd_write d f x (of_nat (length x)) h = Inr (Inr (of_nat (length x)), d', h')"
    "dev_step d h d' h'" "healthy d'" "used h' \<le> used h + length x"
    "(dev_log d' h', dev_pending d' h') = spec_write (dev_log d h, dev_pending d h) x"
    "length (dev_log d h) < 10 \<longrightarrow> out_offs (circ_obj d') = out_offs (circ_obj d)"
    "out_offs (circ_obj d') = (if newline \<in> set x \<and> length (dev_log d h) = 10
       then next_offs (out_offs (circ_obj d)) else out_offs (circ_obj d))"
proof -
  have n: "unat (of_nat (length x) :: size_t) = length x"
    using assms(5) by (intro unat_of_nat_size) (simp add: ample_def)
  from aesd_write_spec [OF assms(1-3), of x "of_nat (length x)"] obtain ret d' h' where
    w: "aesd_write d f x (of_nat (length x)) h = Inr (ret, d', h')"
    and p: "write_post d h x (of_nat (length x)) ret d' h'" by blast
  from p assms(5) n have ret: "ret = Inr (of_nat (length x))" by (simp add: write_post_def)
  with p n assms(5) have st: "dev_step d h d' h'" "used h' \<le> used h + length x"
    "write_effect d h x True d' h'" by (auto simp: write_post_def)
  note he = write_effect_healthy [OF assms(2,4) st(3)]
  have "(dev_log d' h', dev_pending d' h') = spec_write (dev_log d h, dev_pending d h) x"
    using he by (auto simp: spec_write_def)
  with that w ret st he(1,6,7) show thesis by simp
qed

lemma spec_write_pending: "length (snd (spec_write st x)) \<le> length (snd st) + length x"
  by (auto simp: spec_write_def split: prod.splits)

lemma write_all_spec:
  "heap_ok h \<Longrightarrow> dev_ok d h \<Longrightarrow> private_data f \<Longrightarrow> healthy d \<Longrightarrow> ample h (demand (dev_pending d h) xs) \<Longrightarrow>
   \<exists>d' h'. write_all d f xs h = Inr (map (\<lambda>x. Inr (of_nat (length x))) xs, d', h') \<and>
     dev_step d h d' h' \<and> healthy d' \<and>
     (dev_log d' h', dev_pending d' h') = foldl spec_write (dev_log d h, dev_pending d h) xs \<and>
     (length (dev_log d h) + length xs \<le> 10 \<longrightarrow> out_offs (circ_obj d') = out_offs (circ_obj d))"
proof (induction xs arbitrary: d h)
  case Nil
  then show ?case by (simp add: dev_step_refl)
next
  case (Cons x xs)
  have "ample h (length (dev_pending d h) + 3 * length x)"
    using Cons.prems(5) by (simp add: ample_def demand_def)
  from write_one [OF Cons.prems(1-4) this] obtain d1 h1 where
    w: "aesd_write d f x (of_nat (length x)) h = Inr (Inr (of_nat (length x)), d1, h1)"
    "dev_step d h d1 h1" "healthy d1" "used h1 \<le> used h + length x"
    "(dev_log d1 h1, dev_pending d1 h1) = spec_write (dev_log d h, dev_pending d h) x"
    "length (dev_log d h) < 10 \<longrightarrow> out_offs (circ_obj d1) = out_offs (circ_obj d)" .
  have le: "length (dev_log d1 h1) \<le> Suc (length (dev_log d h))"
    using w(5) by (auto simp: spec_write_def log_push_def split: if_splits)
  have "length (dev_pending d1 h1) \<le> length (dev_pending d h) + length x"
    using spec_write_pending [of "(dev_log d h, dev_pending d h)" x] by (simp flip: w(5))
  then have "ample h1 (demand (dev_pending d1 h1) xs)"
    using Cons.prems(5) w(2,4) by (simp add: ample_def demand_def dev_step_def)
  from Cons.IH [OF _ _ Cons.prems(3) w(3) this] w(2) obtain d' h' where
    "write_all d1 f xs h1 = Inr (map (\<lambda>x. Inr (of_nat (length x))) xs, d', h')"
    "dev_step d1 h1 d' h'" "healthy d'"
    "(dev_log d' h', dev_pending d' h') = foldl spec_write (dev_log d1 h1, dev_pending d1 h1) xs"
    "length (dev_log d1 h1) + length xs \<le> 10 \<longrightarrow> out_offs (circ_obj d') = out_offs (circ_obj d1)"
    by (auto simp: dev_step_def)
  with w dev_step_trans [OF w(2)] le show ?case by auto
qed

text \<open>Complete lines written to an empty device leave the last ten of them.\<close>

lemma spec_writes_lines:
  assumes "\<And>x. x \<in> set xs \<Longrightarrow> newline \<in> set x"
  shows "foldl spec_write ([], []) xs = (drop (length xs - 10) xs, [])"
  using assms
proof (induction xs rule: rev_induct)
  case (snoc x xs)
  then have "foldl spec_write ([], []) xs = (drop (length xs - 10) xs, [])" by simp
  moreover from snoc.prems have "spec_write (l, []) x = (log_push l x, [])" for l
    by (simp add: spec_write_def)
  moreover have "log_push (drop (length xs - 10) xs) x = drop (Suc (length xs) - 10) (xs @ [x])"
  proof (cases "length xs < 10")
    case False
    then have "Suc (length xs) - 10 = Suc (length xs - 10)" by simp
    with False show ?thesis by (simp add: log_push_def tl_drop drop_Suc)
  qed (simp add: log_push_def)
  ultimately show ?case by simp
qed simp

subsection \<open>Reading a device to its end\<close>

text \<open>
  What a client does that reads until it gets no more bytes: reads of \<open>n\<close> bytes, each at the
  position the last one left. The fuel bounds the number of reads.
\<close>

fun read_all :: "nat \<Rightarrow> aesd_dev \<Rightarrow> filp \<Rightarrow> size_t \<Rightarrow> loff_t \<Rightarrow> heap \<Rightarrow> bytes option res" where
  "read_all 0 d f n pos h = Inr None"
| "read_all (Suc fuel) d f n pos h =
     andthen (aesd_read d f (unat n) n pos h) (\<lambda>(ret, xs, pos1).
       case ret of
         Inl _ \<Rightarrow> Inr None
       | Inr m \<Rightarrow> if m = 0 then Inr (Some [])
                  else andthen (read_all fuel d f n pos1 h) (\<lambda>r. Inr (map_option ((@) xs) r)))"

lemma unat_pos_advance:
  assumes "k \<le> length (concat log) - unat pos" "length (concat log) \<le> PTRDIFF_MAX" "0 < k"
  shows "unat (pos + of_nat k :: loff_t) = unat pos + k"
proof -
  have k: "unat (of_nat k :: loff_t) = k" using assms by (intro unat_of_nat_size) simp
  moreover have "unat pos + k \<le> PTRDIFF_MAX" using assms by linarith
  ultimately show ?thesis
    by (subst unat_plus_simple [THEN iffD1]) (auto simp: no_olen_add_nat PTRDIFF_MAX_def)
qed

lemma read_all_spec:
  assumes "heap_ok h" "dev_ok d h" "private_data f" "n \<noteq> 0"
  shows "length (concat (dev_log d h)) - unat pos < fuel \<Longrightarrow>
    read_all fuel d f n pos h = Inr (Some (drop (unat pos) (concat (dev_log d h))))"
proof (induction fuel arbitrary: pos)
  case (Suc fuel)
  let ?log = "dev_log d h"
  let ?ys = "log_read ?log (unat pos) (unat n)"
  have n: "unat n \<noteq> 0" using assms(4) by (simp add: unat_eq_zero)
  have fits: "length (concat ?log) \<le> PTRDIFF_MAX"
    using cindex.view_fits [OF assms(1)] assms(2) by (simp add: dev_ok_def dev_log_def)
  note len = log_read_length [of ?log "unat pos" "unat n"]
  have k: "unat (of_nat (length ?ys) :: size_t) = length ?ys"
    using len(2) fits by (intro unat_of_nat_size) linarith
  show ?case
  proof (cases "?ys = []")
    case True
    with n have "length (concat ?log) \<le> unat pos" by (simp add: log_read_Nil_iff)
    with True show ?thesis by (simp add: aesd_read_spec [OF assms(1-3)])
  next
    case False
    then have "0 < length ?ys" by simp
    then have pos: "unat (pos + of_nat (length ?ys)) = unat pos + length ?ys"
      using len(2) fits by (intro unat_pos_advance) auto
    obtain zs where zs: "drop (unat pos) (concat ?log) = ?ys @ zs" by (rule log_read_prefix)
    have "drop (unat pos + length ?ys) (concat ?log) = zs"
      using arg_cong [OF zs, of "drop (length ?ys)"] by (simp add: add.commute)
    moreover have "length (concat ?log) - unat (pos + of_nat (length ?ys)) < fuel"
      using Suc.prems len(2) pos \<open>0 < length ?ys\<close> by linarith
    moreover have "(of_nat (length ?ys) :: size_t) \<noteq> 0"
      using k False by (metis length_0_conv unat_0)
    ultimately show ?thesis
      using Suc.IH [of "pos + of_nat (length ?ys)"] len(1) pos zs
      by (simp add: aesd_read_spec [OF assms(1-3)] Let_def)
  qed
qed simp

subsection \<open>A loaded module\<close>

text \<open>The module right after loading into an empty heap that refuses no allocation.\<close>

definition unloaded_module :: kmodule where
  "unloaded_module = \<lparr>aesd_device = zero_dev, region = False, cdev = False\<rparr>"

definition loaded_module :: kmodule where
  "loaded_module = fst (snd (aesd_init_module 0 0 unloaded_module (empty_heap (\<lambda>_. True))))"

definition loaded_heap :: heap where
  "loaded_heap = snd (snd (aesd_init_module 0 0 unloaded_module (empty_heap (\<lambda>_. True))))"

definition opened :: filp where
  "opened = snd (aesd_open \<lparr>f_pos = 0, private_data = False\<rparr>)"

lemma opened_private [simp]: "private_data opened"
  by (simp add: opened_def aesd_open_def)

lemma loaded_init:
  "aesd_init_module 0 0 unloaded_module (empty_heap (\<lambda>_. True)) = (Inr 0, loaded_module, loaded_heap)"
  by (simp add: loaded_module_def loaded_heap_def aesd_init_module_def empty_heap_def kmalloc_def
      Let_def PTRDIFF_MAX_def sizeof_circular_def sizeof_temperary_def aesd_setup_cdev_def)

lemma loaded_offs: "out_offs (circ_obj (aesd_device loaded_module)) = 0"
  by (simp add: loaded_module_def aesd_init_module_def empty_heap_def kmalloc_def
      Let_def PTRDIFF_MAX_def sizeof_circular_def sizeof_temperary_def aesd_setup_cdev_def
      aesd_circular_buffer_init_def zero_circular_buffer_def)

lemma loaded_used: "used loaded_heap = 192" "grant loaded_heap = (\<lambda>_. True)"
  by (simp_all add: loaded_heap_def aesd_init_module_def empty_heap_def kmalloc_def
      Let_def PTRDIFF_MAX_def sizeof_circular_def sizeof_temperary_def aesd_setup_cdev_def)

lemma loaded_ample: "n \<le> 2 ^ 62 \<Longrightarrow> ample loaded_heap n"
  by (simp add: ample_def loaded_used PTRDIFF_MAX_def)

lemmas loaded_ok = init_module_ok [OF heap_ok_empty loaded_init]

text \<open>
  A device that has taken eleven writes: ten entries, the newest in slot 0, the oldest in slot 1.
\<close>

definition wrapped_dev :: aesd_dev where
  "wrapped_dev = \<lparr>temp_ptr = Ptr 1, temp_obj = aesd_temperary_buffer_init, circ_ptr = Ptr 0,
    circ_obj = \<lparr>entry = [\<lparr>e_buffptr = Ptr 12, e_size = 1\<rparr>, \<lparr>e_buffptr = Ptr 3, e_size = 3\<rparr>,
        \<lparr>e_buffptr = Ptr 4, e_size = 1\<rparr>, \<lparr>e_buffptr = Ptr 5, e_size = 1\<rparr>, \<lparr>e_buffptr = Ptr 6, e_size = 1\<rparr>,
        \<lparr>e_buffptr = Ptr 7, e_size = 1\<rparr>, \<lparr>e_buffptr = Ptr 8, e_size = 1\<rparr>, \<lparr>e_buffptr = Ptr 9, e_size = 1\<rparr>,
        \<lparr>e_buffptr = Ptr 10, e_size = 1\<rparr>, \<lparr>e_buffptr = Ptr 11, e_size = 1\<rparr>],
      in_offs = 1, out_offs = 1, full = True, c_size = 12\<rparr>\<rparr>"

definition wrapped_blocks :: "nat \<Rightarrow> bytes option" where
  "wrapped_blocks = [0 \<mapsto> replicate 176 nul, 1 \<mapsto> replicate 16 nul, 3 \<mapsto> [CHR ''a'', CHR ''b'', newline],
     4 \<mapsto> [newline], 5 \<mapsto> [newline], 6 \<mapsto> [newline], 7 \<mapsto> [newline], 8 \<mapsto> [newline], 9 \<mapsto> [newline],
     10 \<mapsto> [newline], 11 \<mapsto> [newline], 12 \<mapsto> [newline]]"

definition wrapped_heap :: heap where
  "wrapped_heap = \<lparr>blocks = wrapped_blocks, brk = 13, grant = (\<lambda>_. True), junk = (\<lambda>_ _. nul), used = 204\<rparr>"

lemma wrapped_sum: "blocksum wrapped_blocks = 204"
  by (simp add: wrapped_blocks_def blocksum_insert)

lemma wrapped_heap_ok: "heap_ok wrapped_heap"
  using wrapped_sum by (simp add: heap_ok_def wrapped_heap_def) (simp add: wrapped_blocks_def PTRDIFF_MAX_def)

lemma wrapped_slots: "slots (circ_obj wrapped_dev) = 10" "length (entry (circ_obj wrapped_dev)) = 10"
  by (simp_all add: wrapped_dev_def slots_def)

lemma wrapped_ring:
  "ring (circ_obj wrapped_dev) =
     map (\<lambda>a. \<lparr>e_buffptr = Ptr a, e_size = (if a = 3 then 3 else 1)\<rparr>) [3,4,5,6,7,8,9,10,11,12]"
  by (simp add: wrapped_dev_def ring_def)

lemma wrapped_circ_ok: "circ_ok (circ_obj wrapped_dev) wrapped_heap"
  using wrapped_slots wrapped_ring
  by (simp add: circ_ok_def) (simp add: wrapped_dev_def wrapped_heap_def wrapped_blocks_def entry_ok_def)

lemma wrapped_dev_ok: "dev_ok wrapped_dev wrapped_heap"
  using wrapped_circ_ok
  by (simp add: dev_ok_def) (simp add: wrapped_dev_def wrapped_heap_def wrapped_blocks_def circ_fp_def
      kbuf.init_ok)

lemma wrapped_log: "dev_log wrapped_dev wrapped_heap = [CHR ''a'', CHR ''b'', newline] # replicate 9 [newline]"
  by (simp add: dev_log_def contents_def live_def wrapped_ring entry_data_def wrapped_heap_def
      wrapped_blocks_def numeral_eq_Suc)

lemma wrapped_healthy: "healthy wrapped_dev"
  by (simp add: healthy_def circ_dense_def circ_exact_def wrapped_slots wrapped_ring) (simp add: wrapped_dev_def)

subsection \<open>Seeking\<close>

lemma sint_of_int_range: "- (2 ^ 63) \<le> t \<Longrightarrow> t < 2 ^ 63 \<Longrightarrow> sint (of_int t :: loff_t) = t"
  by (simp add: signed_of_int signed_take_bit_int_eq_self)

end
