(* ===== verification/Device_Log.thy ===== *)
theory Device_Log
  imports Driver
begin

text \<open>
  What the seek ioctl and the writes of \<^verbatim>\<open>aesd-char-driver/main.c\<close> do to the abstract device, beside
  the log and the pending bytes of \<^verbatim>\<open>Driver\<close>: the ioctl checks its offset against a slot of the
  array, so the slot the log starts in, its \<open>base\<close>, can be seen from outside. The clients of the
  driver (\<^verbatim>\<open>Device_Sessions\<close> and, over \<^verbatim>\<open>Device_File\<close>, the server) are specified with these operations.
\<close>

text \<open>The number of bytes in array slot \<open>c\<close>: the log starts in slot \<open>base\<close>.\<close>

definition slot_size :: "bytes list \<Rightarrow> nat \<Rightarrow> nat \<Rightarrow> nat" where
  "slot_size log base c = (let j = (c + 10 - base) mod 10 in if j < length log then length (log ! j) else 0)"

text \<open>Where the seek ioctl puts the position, \<open>None\<close> if it is refused.\<close>

definition seek_target :: "bytes list \<Rightarrow> nat \<Rightarrow> nat \<Rightarrow> nat \<Rightarrow> nat option" where
  "seek_target log base c k =
     (if 10 \<le> c \<or> slot_size log base c \<le> k then None
      else Some (if c < length log \<and> k < length (log ! c) then length (concat (take c log)) + k else 0))"

text \<open>A write that evicts the oldest entry moves the base on.\<close>

definition next_base :: "nat \<Rightarrow> bytes list \<Rightarrow> bytes \<Rightarrow> nat" where
  "next_base base log data = (if newline \<in> set data \<and> length log = 10 then (base + 1) mod 10 else base)"

definition dev_base :: "aesd_dev \<Rightarrow> nat" where
  "dev_base d = unat (out_offs (circ_obj d))"

text \<open>What a slot of the array holds, in a buffer without holes.\<close>

lemma slot_size_dense:
  assumes "circ_ok b h" "circ_dense b" "c < 10"
  shows "unat (e_size (entry b ! c)) = slot_size (contents b h) (unat (out_offs b)) c"
proof -
  let ?o = "unat (out_offs b)"
  define j where "j = (c + 10 - ?o) mod 10"
  have o: "?o < 10" "length (entry b) = 10" "j < 10" using assms(1) by (auto simp: circ_ok_def j_def)
  have "(?o + j) mod 10 = (c + 10) mod 10" unfolding j_def using o(1) by (simp add: mod_add_right_eq)
  then have e: "entry b ! c = ring b ! j" using ring_nth [of b j] o assms(3) by simp
  show ?thesis
  proof (cases "j < length (contents b h)")
    case True
    with contents_length(1) [OF assms(1)] e show ?thesis by (simp add: slot_size_def Let_def flip: j_def)
  next
    case False
    then have "slots b \<le> j" using contents_count [OF assms(1,2)] by simp
    then have "ring b ! j = drop (slots b) (ring b) ! (j - slots b)"
      using slots_le [of b] o(2) by (subst nth_drop) simp_all
    also have "\<dots> = empty_entry" using assms(1) o(3) \<open>slots b \<le> j\<close> by (simp add: circ_ok_def)
    finally show ?thesis using False e by (simp add: slot_size_def Let_def empty_entry_def flip: j_def)
  qed
qed

lemma aesd_ioctl_seek:
  assumes "heap_ok h" "dev_ok d h" "private_data f" "healthy d"
  shows "aesd_ioctl d f AESDCHAR_IOCSEEKTO (Some s) =
    Inr (case seek_target (dev_log d h) (dev_base d) (unat (write_cmd s)) (unat (write_cmd_offset s)) of
      None \<Rightarrow> (Inl EINVAL, f) | Some p \<Rightarrow> (Inr 0, f\<lparr>f_pos := of_nat p\<rparr>))"
proof -
  have "circ_ok (circ_obj d) h" "circ_dense (circ_obj d)"
    using assms(2,4) by (auto simp: dev_ok_def healthy_def)
  note slot = slot_size_dense [OF this, folded dev_log_def]
  show ?thesis
    using aesd_ioctl_spec [OF assms(1-3), of s] slot [of "unat (write_cmd s)"]
    by (auto simp: seek_target_def dev_base_def Let_def)
qed

lemma write_base:
  assumes "dev_ok d h" "healthy d" "write_effect d h data True d' h'"
  shows "dev_base d' = next_base (dev_base d) (dev_log d h) data"
  using write_effect_healthy(7) [OF assms] by (simp add: dev_base_def next_base_def unat_next_offs)

end
