(* ===== verification/Simulation.thy ===== *)
theory Simulation
  imports Prelude
begin

text \<open>
  Runs of a component over a sequence of requests, and the forward simulation that lifts the
  refinement of single requests to runs. The relation between concrete and abstract states may
  depend on the requests still to come, so that it can hold the resources they need.

  The locale \<open>forward_simulation\<close> is interpreted on the driver under any number of open files
  (\<^verbatim>\<open>Device_Sessions\<close>) and, through the locale of \<^verbatim>\<open>Packet_Service\<close>, on the two builds of the server.
\<close>

fun run_all :: "('r \<Rightarrow> 's \<Rightarrow> ('x \<times> 's) res) \<Rightarrow> 'r list \<Rightarrow> 's \<Rightarrow> ('x list \<times> 's) res" where
  "run_all step [] s = Inr ([], s)"
| "run_all step (r # rs) s =
     andthen (step r s) (\<lambda>(x, s1). andthen (run_all step rs s1) (\<lambda>(xs, s2). Inr (x # xs, s2)))"

fun run_spec :: "('r \<Rightarrow> 'a \<Rightarrow> 'x \<times> 'a) \<Rightarrow> 'r list \<Rightarrow> 'a \<Rightarrow> 'x list \<times> 'a" where
  "run_spec step [] a = ([], a)"
| "run_spec step (r # rs) a =
     (let (x, a1) = step r a; (xs, a2) = run_spec step rs a1 in (x # xs, a2))"

lemma run_all_append:
  "run_all step (rs @ ts) s =
     andthen (run_all step rs s) (\<lambda>(xs, s1). andthen (run_all step ts s1) (\<lambda>(ys, s2). Inr (xs @ ys, s2)))"
proof (induction rs arbitrary: s)
  case Nil
  show ?case by (cases "run_all step ts s") auto
next
  case (Cons r rs)
  then show ?case by (cases "step r s") (auto simp: andthen_def split: sum.splits)
qed

locale forward_simulation =
  fixes impl :: "'r \<Rightarrow> 's \<Rightarrow> ('x \<times> 's) res"
    and spec :: "'r \<Rightarrow> 'a \<Rightarrow> 'x \<times> 'a"
    and rel :: "'r list \<Rightarrow> 's \<Rightarrow> 'a \<Rightarrow> bool"
  assumes sim: "rel (r # rs) s a \<Longrightarrow>
    \<exists>s'. impl r s = Inr (fst (spec r a), s') \<and> rel rs s' (snd (spec r a))"
begin

lemma run_sim:
  "rel rs s a \<Longrightarrow>
   \<exists>s'. run_all impl rs s = Inr (fst (run_spec spec rs a), s') \<and> rel [] s' (snd (run_spec spec rs a))"
proof (induction rs arbitrary: s a)
  case (Cons r rs)
  from sim [OF Cons.prems] obtain s1 where
    s1: "impl r s = Inr (fst (spec r a), s1)" "rel rs s1 (snd (spec r a))" by blast
  from Cons.IH [OF s1(2)] s1(1) show ?case by (auto simp: case_prod_beta)
qed simp

end

text \<open>A request that keeps an invariant and never faults, over runs: progress and preservation.\<close>

locale safe_steps =
  fixes impl :: "'r \<Rightarrow> 's \<Rightarrow> ('x \<times> 's) res"
    and inv :: "'s \<Rightarrow> bool"
    and step :: "'s \<Rightarrow> 's \<Rightarrow> bool"
  assumes progress: "inv s \<Longrightarrow> \<exists>x s'. impl r s = Inr (x, s') \<and> step s s'"
    and preserved: "step s s' \<Longrightarrow> inv s'"
    and step_refl: "inv s \<Longrightarrow> step s s"
    and step_trans: "step s s1 \<Longrightarrow> step s1 s2 \<Longrightarrow> step s s2"
begin

lemma run_safe:
  "inv s \<Longrightarrow> \<exists>xs s'. run_all impl rs s = Inr (xs, s') \<and> length xs = length rs \<and> step s s'"
proof (induction rs arbitrary: s)
  case (Cons r rs)
  from progress [OF Cons.prems, of r] obtain x s1 where s1: "impl r s = Inr (x, s1)" "step s s1" by blast
  from Cons.IH [OF preserved [OF s1(2)]] s1 step_trans [OF s1(2)] show ?case by auto
qed (simp add: step_refl)

end

end
