(* ===== verification/Device_Sessions.thy ===== *)
theory Device_Sessions
  imports Device_Log Simulation
begin

text \<open>
  The driver under any number of open files. A session is the loaded module, the kernel's heap
  and the table of open files; a request is one system call on a descriptor of the device. The
  kernel passes the position of the file to \<open>read\<close> and stores the new one when the handler
  reports no error; a descriptor that is not open is refused before the driver is called, and so is
  a \<open>read\<close> or \<open>write\<close> at a position that the kernel does not accept. Which positions and counts these
  are is the kernel's choice: the argument \<open>area\<close> gives the error for them, and the theorems hold for
  every such choice.

  \<open>session_run\<close> is the sequence of replies to a sequence of requests. Two contracts are shown
  for it: it is type safe (no request of any session faults, whatever memory is refused), and
  with memory available it implements the abstract device \<open>spec_handle\<close>, which knows nothing
  but the log, the pending bytes, the base of the ring and the file positions.
\<close>

datatype request =
    Open nat
  | Release nat
  | Read nat nat size_t
  | Write nat bytes size_t
  | Llseek nat loff_t int
  | Ioctl nat u32 "aesd_seekto option"

datatype reply = BadFd | Done | Data bytes | Count size_t | Position loff_t | Failed errno

record session =
  kmod :: kmodule
  kmem :: heap
  files :: "nat \<Rightarrow> filp option"

abbreviation sdev :: "session \<Rightarrow> aesd_dev" where
  "sdev s \<equiv> aesd_device (kmod s)"

definition set_file :: "nat \<Rightarrow> filp \<Rightarrow> session \<Rightarrow> session" where
  "set_file fd f s = s\<lparr>files := (files s)(fd \<mapsto> f)\<rparr>"

type_synonym area_check = "loff_t \<Rightarrow> size_t \<Rightarrow> errno option"

text \<open>A request to an open file, by the entries of \<open>aesd_fops\<close>.\<close>

fun handle_file :: "area_check \<Rightarrow> request \<Rightarrow> nat \<Rightarrow> filp \<Rightarrow> session \<Rightarrow> (reply \<times> session) res" where
  "handle_file area (Open _) fd f s = Inr (BadFd, s)"
| "handle_file area (Release _) fd f s =
     (case aesd_release f of (_, _) \<Rightarrow> Inr (Done, s\<lparr>files := (files s)(fd := None)\<rparr>))"
| "handle_file area (Read _ user_room n) fd f s =
     (case area (f_pos f) n of
        Some e \<Rightarrow> Inr (Failed e, s)
      | None \<Rightarrow>
          andthen (aesd_read (sdev s) f user_room n (f_pos f) (kmem s)) (\<lambda>(ret, xs, pos).
            case ret of Inl e \<Rightarrow> Inr (Failed e, s)
            | Inr m \<Rightarrow> Inr (Data (take (unat m) xs), set_file fd (f\<lparr>f_pos := pos\<rparr>) s)))"
| "handle_file area (Write _ user n) fd f s =
     (case area (f_pos f) n of
        Some e \<Rightarrow> Inr (Failed e, s)
      | None \<Rightarrow>
          andthen (aesd_write (sdev s) f user n (kmem s)) (\<lambda>(ret, d, h).
            Inr (case ret of Inl e \<Rightarrow> Failed e | Inr m \<Rightarrow> Count m,
                 s\<lparr>kmod := (kmod s)\<lparr>aesd_device := d\<rparr>, kmem := h\<rparr>)))"
| "handle_file area (Llseek _ offset whence) fd f s =
     andthen (aesd_llseek (sdev s) f offset whence) (\<lambda>(ret, f1).
       Inr (case ret of Inl e \<Rightarrow> Failed e | Inr p \<Rightarrow> Position p, set_file fd f1 s))"
| "handle_file area (Ioctl _ cmd arg) fd f s =
     andthen (aesd_ioctl (sdev s) f cmd arg) (\<lambda>(ret, f1).
       Inr (case ret of Inl e \<Rightarrow> Failed e | Inr _ \<Rightarrow> Done, set_file fd f1 s))"

fun request_fd :: "request \<Rightarrow> nat" where
  "request_fd (Open fd) = fd"
| "request_fd (Release fd) = fd"
| "request_fd (Read fd _ _) = fd"
| "request_fd (Write fd _ _) = fd"
| "request_fd (Llseek fd _ _) = fd"
| "request_fd (Ioctl fd _ _) = fd"

definition handle :: "area_check \<Rightarrow> request \<Rightarrow> session \<Rightarrow> (reply \<times> session) res" where
  "handle area r s =
     (case files s (request_fd r) of
        Some f \<Rightarrow> handle_file area r (request_fd r) f s
      | None \<Rightarrow>
          (case r of
             Open fd \<Rightarrow> Inr (Done, set_file fd (snd (aesd_open \<lparr>f_pos = 0, private_data = False\<rparr>)) s)
           | _ \<Rightarrow> Inr (BadFd, s)))"

abbreviation session_run :: "area_check \<Rightarrow> request list \<Rightarrow> session \<Rightarrow> (reply list \<times> session) res" where
  "session_run area \<equiv> run_all (handle area)"

subsection \<open>Type safety\<close>

text \<open>
  A well-formed session: a well-formed heap and device, and every open file belongs to the
  device. \<open>session_step\<close> is what a request may do to memory: nothing outside the device.
\<close>

definition session_ok :: "session \<Rightarrow> bool" where
  "session_ok s \<longleftrightarrow> heap_ok (kmem s) \<and> dev_ok (sdev s) (kmem s) \<and>
     (\<forall>fd f. files s fd = Some f \<longrightarrow> private_data f)"

definition session_step :: "session \<Rightarrow> session \<Rightarrow> bool" where
  "session_step s s' \<longleftrightarrow> session_ok s' \<and> grant (kmem s') = grant (kmem s) \<and>
     blocks (kmem s') |` (- dev_fp (sdev s')) = blocks (kmem s) |` (- dev_fp (sdev s))"

lemma session_step_refl: "session_ok s \<Longrightarrow> session_step s s"
  by (simp add: session_step_def)

lemma session_step_trans: "session_step s s1 \<Longrightarrow> session_step s1 s2 \<Longrightarrow> session_step s s2"
  by (simp add: session_step_def)

lemma set_file_step: "session_ok s \<Longrightarrow> private_data f \<Longrightarrow> session_step s (set_file fd f s)"
  by (simp add: session_step_def session_ok_def set_file_def)

lemma llseek_total:
  assumes "dev_ok d h" "private_data f"
  obtains ret f' where "aesd_llseek d f offset whence = Inr (ret, f')" "private_data f'"
proof -
  have "circ_ptr d \<noteq> NULL" using assms(1) by (simp add: dev_ok_def)
  then have "\<exists>ret f'. aesd_llseek d f offset whence = Inr (ret, f') \<and> private_data f'"
    using assms(2) by (simp add: aesd_llseek_def filp_dev_def circ_deref_def bufferCircular_def)
  with that show thesis by blast
qed

text \<open>Any other command number is refused, whatever its type and number fields say.\<close>

lemma ioctl_other: "private_data f \<Longrightarrow> cmd \<noteq> AESDCHAR_IOCSEEKTO \<Longrightarrow> aesd_ioctl d f cmd arg = Inr (Inl EINVAL, f)"
  by (simp add: aesd_ioctl_def filp_dev_def)

lemma ioctl_fault: "private_data f \<Longrightarrow> aesd_ioctl d f AESDCHAR_IOCSEEKTO None = Inr (Inl EFAULT, f)"
  using IOCSEEKTO_fields by (simp add: aesd_ioctl_def filp_dev_def)

lemma ioctl_total:
  assumes "heap_ok h" "dev_ok d h" "private_data f"
  obtains ret f' where "aesd_ioctl d f cmd arg = Inr (ret, f')" "private_data f'"
proof (cases "cmd = AESDCHAR_IOCSEEKTO")
  case True
  show thesis
  proof (cases arg)
    case None
    with True ioctl_fault [OF assms(3)] assms(3) that show thesis by simp
  next
    case (Some x)
    with True aesd_ioctl_spec [OF assms, of x] assms(3) that show thesis
      by (simp add: Let_def split: if_splits)
  qed
qed (use ioctl_other [OF assms(3)] assms(3) that in simp)

lemma handle_file_safe:
  assumes "session_ok s" "files s fd = Some f"
  shows "\<exists>x s'. handle_file area r fd f s = Inr (x, s') \<and> session_step s s'"
proof -
  have ok: "heap_ok (kmem s)" "dev_ok (sdev s) (kmem s)" "private_data f"
    using assms by (auto simp: session_ok_def)
  show ?thesis
  proof (cases r)
    case (Read fd' room n)
    then show ?thesis
      using aesd_read_spec [OF ok, of room n "f_pos f"] set_file_step [OF assms(1)] session_step_refl [OF assms(1)] ok(3)
      by (simp add: Let_def split: option.split)
  next
    case (Write fd' user n)
    from aesd_write_spec [OF ok, of user n] obtain ret d' h' where
      w: "aesd_write (sdev s) f user n (kmem s) = Inr (ret, d', h')" "dev_step (sdev s) (kmem s) d' h'"
      by (auto simp: write_post_def)
    with Write assms(1) show ?thesis
      by (auto simp: session_step_def session_ok_def dev_step_def split: option.split)
  next
    case (Llseek fd' offset whence)
    from llseek_total [OF ok(2,3), of offset whence] obtain ret f' where
      "aesd_llseek (sdev s) f offset whence = Inr (ret, f')" "private_data f'" .
    with Llseek set_file_step [OF assms(1)] show ?thesis by simp
  next
    case (Ioctl fd' cmd arg)
    from ioctl_total [OF ok, of cmd arg] obtain ret f' where
      "aesd_ioctl (sdev s) f cmd arg = Inr (ret, f')" "private_data f'" .
    with Ioctl set_file_step [OF assms(1)] show ?thesis by simp
  qed (use assms in \<open>auto simp: session_step_def session_ok_def aesd_release_def\<close>)
qed

lemma handle_safe:
  assumes "session_ok s"
  shows "\<exists>x s'. handle area r s = Inr (x, s') \<and> session_step s s'"
proof (cases "files s (request_fd r)")
  case None
  then show ?thesis
    using assms set_file_step [OF assms, of opened] session_step_refl [OF assms]
    by (cases r) (simp_all add: handle_def opened_def aesd_open_def)
qed (use handle_file_safe [OF assms] in \<open>simp add: handle_def\<close>)

interpretation requests: safe_steps "handle area" session_ok session_step for area
  by unfold_locales
    (auto simp: handle_safe session_step_refl intro: session_step_trans, simp add: session_step_def)

subsection \<open>The abstract device\<close>

record adevice =
  a_log :: "bytes list"
  a_pend :: bytes
  a_base :: nat
  a_pos :: "nat \<Rightarrow> loff_t option"

definition move :: "nat \<Rightarrow> loff_t \<Rightarrow> adevice \<Rightarrow> adevice" where
  "move fd p a = a\<lparr>a_pos := (a_pos a)(fd \<mapsto> p)\<rparr>"

fun spec_file :: "area_check \<Rightarrow> request \<Rightarrow> nat \<Rightarrow> loff_t \<Rightarrow> adevice \<Rightarrow> reply \<times> adevice" where
  "spec_file area (Open _) fd p a = (BadFd, a)"
| "spec_file area (Release _) fd p a = (Done, a\<lparr>a_pos := (a_pos a)(fd := None)\<rparr>)"
| "spec_file area (Read _ user_room n) fd p a =
     (case area p n of
        Some e \<Rightarrow> (Failed e, a)
      | None \<Rightarrow>
          let ys = log_read (a_log a) (unat p) (unat n) in
          if user_room < length ys then (Failed EFAULT, a) else (Data ys, move fd (p + of_nat (length ys)) a))"
| "spec_file area (Write _ user n) fd p a =
     (case area p n of
        Some e \<Rightarrow> (Failed e, a)
      | None \<Rightarrow>
          if length user < unat n then (Failed EFAULT, a)
          else
            let data = take (unat n) user; (log, pend) = spec_write (a_log a, a_pend a) data in
            (Count n, a\<lparr>a_log := log, a_pend := pend,
               a_base := next_base (a_base a) (a_log a) data\<rparr>))"
| "spec_file area (Llseek _ offset whence) fd p a =
     (let target = (if whence = SEEK_SET then offset
                    else if whence = SEEK_CUR then p + offset
                    else if whence = SEEK_END then of_nat (length (concat (a_log a))) + offset
                    else p) in
      if (whence = SEEK_SET \<or> whence = SEEK_CUR) \<and> sint target < 0 then (Failed EINVAL, a)
      else (Position target, move fd target a))"
| "spec_file area (Ioctl _ cmd arg) fd p a =
     (if cmd \<noteq> AESDCHAR_IOCSEEKTO then (Failed EINVAL, a)
      else case arg of None \<Rightarrow> (Failed EFAULT, a)
      | Some x \<Rightarrow>
          (case seek_target (a_log a) (a_base a) (unat (write_cmd x)) (unat (write_cmd_offset x)) of
             None \<Rightarrow> (Failed EINVAL, a) | Some target \<Rightarrow> (Done, move fd (of_nat target) a)))"

definition spec_handle :: "area_check \<Rightarrow> request \<Rightarrow> adevice \<Rightarrow> reply \<times> adevice" where
  "spec_handle area r a =
     (case a_pos a (request_fd r) of
        Some p \<Rightarrow> spec_file area r (request_fd r) p a
      | None \<Rightarrow> (case r of Open fd \<Rightarrow> (Done, move fd 0 a) | _ \<Rightarrow> (BadFd, a)))"

abbreviation spec_run :: "area_check \<Rightarrow> request list \<Rightarrow> adevice \<Rightarrow> reply list \<times> adevice" where
  "spec_run area \<equiv> run_spec (spec_handle area)"

subsection \<open>The driver implements the abstract device\<close>

definition abs_session :: "session \<Rightarrow> adevice" where
  "abs_session s = \<lparr>a_log = dev_log (sdev s) (kmem s), a_pend = dev_pending (sdev s) (kmem s),
     a_base = dev_base (sdev s), a_pos = (\<lambda>fd. map_option f_pos (files s fd))\<rparr>"

lemma abs_simps [simp]:
  "a_log (abs_session s) = dev_log (sdev s) (kmem s)"
  "a_pend (abs_session s) = dev_pending (sdev s) (kmem s)"
  "a_base (abs_session s) = dev_base (sdev s)"
  "a_pos (abs_session s) fd = map_option f_pos (files s fd)"
  by (simp_all add: abs_session_def)

lemma abs_set_file [simp]: "abs_session (set_file fd f s) = move fd (f_pos f) (abs_session s)"
  by (auto simp: abs_session_def set_file_def move_def)

text \<open>A session whose device has no holes, with the memory that \<open>n\<close> more bytes may need.\<close>

definition session_rich :: "nat \<Rightarrow> session \<Rightarrow> bool" where
  "session_rich n s \<longleftrightarrow> session_ok s \<and> healthy (sdev s) \<and>
     ample (kmem s) (length (dev_pending (sdev s) (kmem s)) + 4 * n)"

fun request_bytes :: "request \<Rightarrow> nat" where
  "request_bytes (Write fd user n) = unat n"
| "request_bytes _ = 0"

definition refines :: "request \<Rightarrow> session \<Rightarrow> nat \<Rightarrow> (reply \<times> session) res \<Rightarrow> reply \<times> adevice \<Rightarrow> bool" where
  "refines r s n impl spec \<longleftrightarrow> (\<exists>s'. impl = Inr (fst spec, s') \<and> abs_session s' = snd spec \<and>
     session_rich (n - request_bytes r) s')"

lemma rich_set_file: "session_rich n s \<Longrightarrow> private_data f \<Longrightarrow> session_rich n (set_file fd f s)"
  by (simp add: session_rich_def session_ok_def set_file_def)

lemma log_read_count:
  "unat (of_nat (length (log_read l p (unat n))) :: size_t) = length (log_read l p (unat n))" for n :: size_t
proof -
  have "unat n < 2 ^ LENGTH(64)" by (rule unsigned_less)
  then have "length (log_read l p (unat n)) < 2 ^ 64"
    using log_read_length(1) [of l p "unat n"] by simp
  then show ?thesis by (simp add: unat_of_nat)
qed

lemma write_refines:
  assumes "session_rich n s" "files s fd = Some f" "unat m \<le> n" "area (f_pos f) m = None"
  shows "refines (Write fd user m) s n (handle_file area (Write fd user m) fd f s)
    (spec_file area (Write fd user m) fd (f_pos f) (abs_session s))"
proof -
  let ?d = "sdev s" and ?h = "kmem s"
  have ok: "heap_ok ?h" "dev_ok ?d ?h" "private_data f" "healthy ?d"
    and am: "ample ?h (length (dev_pending ?d ?h) + 4 * n)"
    using assms(1,2) by (auto simp: session_rich_def session_ok_def)
  have am1: "ample ?h (length (dev_pending ?d ?h) + 3 * unat m)" using am assms(3) by (simp add: ample_def)
  from aesd_write_spec [OF ok(1-3), of user m] obtain ret d' h' where
    w: "aesd_write ?d f user m ?h = Inr (ret, d', h')" and p: "write_post ?d ?h user m ret d' h'" by blast
  let ?s = "s\<lparr>kmod := (kmod s)\<lparr>aesd_device := d'\<rparr>, kmem := h'\<rparr>"
  have st: "session_ok ?s" "grant h' = grant ?h" "used h' \<le> used ?h + unat m"
    using p assms(1) by (auto simp: write_post_def dev_step_def session_rich_def session_ok_def)
  show ?thesis
  proof (cases "length user < unat m")
    case True
    have "fst (kmalloc m ?h) \<noteq> NULL" using am1 by (intro kmalloc_ample) (simp add: ample_def)
    then have ret: "ret = Inl EFAULT"
      using w True ok(3)
      by (auto simp: aesd_write_def filp_dev_def andthen_eq_Inr_iff split: prod.splits ptr.splits)
    with p have "d' = ?d" "dev_log d' h' = dev_log ?d ?h" "dev_pending d' h' = dev_pending ?d ?h"
      by (auto simp: write_post_def)
    with True w ret st am ok(4) assms(3,4) show ?thesis
      by (auto simp: refines_def abs_session_def session_rich_def ample_def)
  next
    case False
    with p am1 have ret: "ret = Inr m" by (simp add: write_post_def)
    with p am1 have "write_effect ?d ?h (take (unat m) user) True d' h'" by (auto simp: write_post_def)
    note he = write_effect_healthy [OF ok(2,4) this]
    have sp: "(dev_log d' h', dev_pending d' h') = spec_write (dev_log ?d ?h, dev_pending ?d ?h) (take (unat m) user)"
      using he(2-5) by (auto simp: spec_write_def)
    have "length (dev_pending d' h') \<le> length (dev_pending ?d ?h) + unat m"
      using spec_write_pending [of "(dev_log ?d ?h, dev_pending ?d ?h)" "take (unat m) user"] False
      by (simp flip: sp)
    moreover have "used ?h + (length (dev_pending ?d ?h) + 4 * n) \<le> PTRDIFF_MAX" "\<forall>k. grant ?h k"
      using am by (auto simp: ample_def)
    ultimately have "ample h' (length (dev_pending d' h') + 4 * (n - unat m))"
      using st(2,3) assms(3) by (simp add: ample_def)
    then have "session_rich (n - unat m) ?s" using st(1) he(1) by (simp add: session_rich_def)
    with False w ret sp he(7) assms(4) show ?thesis
      by (auto simp: refines_def abs_session_def dev_base_def unat_next_offs next_base_def Let_def split: prod.splits)
  qed
qed

lemma file_refines:
  assumes "session_rich n s" "files s fd = Some f" "request_bytes r \<le> n"
  shows "refines r s n (handle_file area r fd f s) (spec_file area r fd (f_pos f) (abs_session s))"
proof -
  let ?d = "sdev s" and ?h = "kmem s"
  have sok: "session_ok s" "heap_ok ?h" "dev_ok ?d ?h" "private_data f" "healthy ?d"
    using assms(1,2) by (auto simp: session_rich_def session_ok_def)
  have c: "circ_ok (circ_obj ?d) ?h" "circ_dense (circ_obj ?d)" "circ_ptr ?d \<noteq> NULL"
    using sok(3,5) by (auto simp: dev_ok_def healthy_def)
  note rich = rich_set_file [OF assms(1)]
  show ?thesis
  proof (cases r)
    case (Read fd' room m)
    then show ?thesis
      using aesd_read_spec [OF sok(2-4), of room m "f_pos f"] rich assms(1) sok(4)
      by (auto simp: refines_def Let_def log_read_count split: option.split)
  next
    case (Write fd' user m)
    show ?thesis
    proof (cases "area (f_pos f) m")
      case None
      with Write write_refines [OF assms(1,2), of m area user] assms(3) show ?thesis by (simp add: refines_def)
    next
      case (Some e)
      have "session_rich (n - k) s" for k using assms(1) by (auto simp: session_rich_def ample_def)
      with Write Some show ?thesis by (simp add: refines_def)
    qed
  next
    case (Llseek fd' offset whence)
    have "c_size (circ_obj ?d) = of_nat (length (concat (dev_log ?d ?h)))"
      using dense_total [OF sok(2) c(1,2)] by (metis dev_log_def of_nat_unat ucast_id)
    then show ?thesis
      using Llseek sok(4) c(3) rich assms(1,2)
      by (auto simp: refines_def aesd_llseek_def filp_dev_def circ_deref_def bufferCircular_def Let_def
          move_def abs_session_def set_file_def)
  next
    case (Ioctl fd' cmd arg)
    have "refines r s n (Inr (Failed e, set_file fd f s)) (Failed e, abs_session s)" for e
      using rich [OF sok(4)] assms(2) Ioctl by (auto simp: refines_def move_def abs_session_def set_file_def)
    then show ?thesis
      using Ioctl ioctl_other [OF sok(4)] ioctl_fault [OF sok(4)] aesd_ioctl_seek [OF sok(2-5)] rich sok(4)
      by (auto simp: refines_def split: option.splits)
  qed (use assms sok in \<open>auto simp: refines_def aesd_release_def session_rich_def session_ok_def abs_session_def\<close>)
qed

lemma handle_refines:
  assumes "session_rich n s" "request_bytes r \<le> n"
  shows "refines r s n (handle area r s) (spec_handle area r (abs_session s))"
proof (cases "files s (request_fd r)")
  case None
  then show ?thesis
    using assms(1) rich_set_file [OF assms(1), of opened]
    by (cases r) (auto simp: refines_def handle_def spec_handle_def session_rich_def session_ok_def ample_def
        opened_def aesd_open_def)
next
  case (Some f)
  with file_refines [OF assms(1) Some assms(2)] show ?thesis by (simp add: handle_def spec_handle_def)
qed

definition session_rel :: "request list \<Rightarrow> session \<Rightarrow> adevice \<Rightarrow> bool" where
  "session_rel rs s a \<longleftrightarrow> session_rich (sum_list (map request_bytes rs)) s \<and> abs_session s = a"

interpretation device: forward_simulation "handle area" "spec_handle area" session_rel for area
proof unfold_locales
  fix r rs s a
  assume "session_rel (r # rs) s a"
  then show "\<exists>s'. handle area r s = Inr (fst (spec_handle area r a), s') \<and> session_rel rs s' (snd (spec_handle area r a))"
    using handle_refines [of "sum_list (map request_bytes (r # rs))" s r area]
    by (auto simp: session_rel_def refines_def)
qed

subsection \<open>Sessions from load to removal\<close>

definition fresh_session :: "kmodule \<Rightarrow> heap \<Rightarrow> session" where
  "fresh_session m h = \<lparr>kmod = m, kmem = h, files = Map.empty\<rparr>"

lemma fresh_session_ok:
  assumes "heap_ok h0" "aesd_init_module rr cr m0 h0 = (Inr 0, m, h)"
  shows "session_ok (fresh_session m h)"
    "blocks (kmem (fresh_session m h)) |` (- dev_fp (sdev (fresh_session m h))) = blocks h0"
  using init_module_ok [OF assms] by (simp_all add: fresh_session_def session_ok_def)

lemma session_lifetime:
  assumes "heap_ok h0" "aesd_init_module rr cr m0 h0 = (Inr 0, m, h)"
  obtains xs s' m' h' where "session_run area rs (fresh_session m h) = Inr (xs, s')" "length xs = length rs"
    "session_ok s'" "aesd_cleanup_module (kmod s') (kmem s') = Inr (m', h')" "blocks h' = blocks h0"
proof -
  note f = fresh_session_ok [OF assms]
  from requests.run_safe [OF f(1), of area rs] obtain xs s' where
    r: "session_run area rs (fresh_session m h) = Inr (xs, s')" "length xs = length rs"
    "session_step (fresh_session m h) s'" by blast
  then have ok: "session_ok s'" "blocks (kmem s') |` (- dev_fp (sdev s')) = blocks h0"
    using f(2) by (auto simp: session_step_def)
  obtain m' h' where "aesd_cleanup_module (kmod s') (kmem s') = Inr (m', h')"
    "blocks h' = blocks (kmem s') |` (- dev_fp (sdev s'))"
    using cleanup_module_ok [of "kmem s'" "kmod s'"] ok(1) by (metis session_ok_def)
  with that r(1,2) ok show thesis by simp
qed

lemma fresh_session_rich:
  assumes "heap_ok h0" "aesd_init_module rr cr m0 h0 = (Inr 0, m, h)" "ample h (4 * n)"
  shows "session_rich n (fresh_session m h)"
    "a_log (abs_session (fresh_session m h)) = []" "a_pend (abs_session (fresh_session m h)) = []"
  using init_module_ok [OF assms(1,2)] fresh_session_ok(1) [OF assms(1,2)] assms(3)
  by (simp_all add: session_rich_def fresh_session_def)

definition empty_device :: adevice where
  "empty_device = \<lparr>a_log = [], a_pend = [], a_base = 0, a_pos = Map.empty\<rparr>"

lemma init_module_offs:
  assumes "aesd_init_module rr cr m0 h0 = (Inr 0, m, h)"
  shows "out_offs (circ_obj (aesd_device m)) = 0"
  using assms
  by (auto simp: aesd_init_module_def Let_def aesd_setup_cdev_def aesd_circular_buffer_init_def
      zero_circular_buffer_def split: if_splits prod.splits ptr.splits)

lemma fresh_session_abs:
  assumes "heap_ok h0" "aesd_init_module rr cr m0 h0 = (Inr 0, m, h)"
  shows "abs_session (fresh_session m h) = empty_device"
  using init_module_ok(8,9) [OF assms] init_module_offs [OF assms(2)]
  by (simp add: abs_session_def fresh_session_def empty_device_def dev_base_def)

subsection \<open>Properties of sessions\<close>

text \<open>
  C33. Type safety of the whole file interface: after a successful load into any heap, every
  sequence of opens, reads, writes, seeks, ioctls and releases on any number of descriptors, with
  any arguments, any pattern of refused allocations and any check of positions by the kernel, runs without undefined behaviour, gives
  one reply per request and leaves a well-formed device; removing the module then gives back
  exactly the memory it took.
\<close>

theorem device_sessions_safe:
  assumes "heap_ok h0" "aesd_init_module rr cr m0 h0 = (Inr 0, m, h)"
  shows "\<exists>xs s' m' h'. session_run area rs (fresh_session m h) = Inr (xs, s') \<and> length xs = length rs \<and>
    dev_ok (sdev s') (kmem s') \<and> (\<forall>fd f. files s' fd = Some f \<longrightarrow> private_data f) \<and>
    aesd_cleanup_module (kmod s') (kmem s') = Inr (m', h') \<and> blocks h' = blocks h0"
proof -
  obtain xs s' m' h' where "session_run area rs (fresh_session m h) = Inr (xs, s')" "length xs = length rs"
    "session_ok s'" "aesd_cleanup_module (kmod s') (kmem s') = Inr (m', h')" "blocks h' = blocks h0"
    by (rule session_lifetime [OF assms])
  then show ?thesis by (auto simp: session_ok_def)
qed

text \<open>What Linux checks: neither the position nor the end of the range may be negative.\<close>

definition kernel_area :: area_check where
  "kernel_area pos n = (if sint pos < 0 \<or> sint (pos + n) < 0 then Some EINVAL else None)"

theorem device_sessions_safe_witness:
  "\<exists>xs s' m' h'. session_run kernel_area [Open 3, Open 4, Write 3 [newline] 7, Llseek 4 (- 5) SEEK_END, Read 4 10 10]
      (fresh_session loaded_module loaded_heap) = Inr (xs, s') \<and> length xs = 5 \<and>
    aesd_cleanup_module (kmod s') (kmem s') = Inr (m', h') \<and> blocks h' = Map.empty"
  using device_sessions_safe [OF heap_ok_empty loaded_init,
      of kernel_area "[Open 3, Open 4, Write 3 [newline] 7, Llseek 4 (- 5) SEEK_END, Read 4 10 10]"]
  by (auto simp: empty_heap_def)

text \<open>
  C34. The driver is the abstract device: while memory is available, every sequence of requests
  on any number of descriptors gets exactly the replies of the abstract device, which has a log
  of at most ten entries, pending bytes, the position of each open file and the base of the ring
  (all the seek ioctl can see of the implementation), and the state after it is that of the
  abstract device; the kernel's check of positions is the same for both, and may be any.
\<close>

theorem device_sessions_refine:
  assumes "heap_ok h0" "aesd_init_module rr cr m0 h0 = (Inr 0, m, h)"
    and "\<forall>k. grant h k" "used h + 4 * sum_list (map request_bytes rs) \<le> PTRDIFF_MAX"
  shows "\<exists>s'. session_run area rs (fresh_session m h) = Inr (fst (spec_run area rs empty_device), s') \<and>
    abs_session s' = snd (spec_run area rs empty_device)"
proof -
  have "ample h (4 * sum_list (map request_bytes rs))" using assms(3,4) by (simp add: ample_def)
  then have "session_rel rs (fresh_session m h) empty_device"
    using fresh_session_rich(1) [OF assms(1,2)] fresh_session_abs [OF assms(1,2)] by (simp add: session_rel_def)
  from device.run_sim [OF this] show ?thesis by (auto simp: session_rel_def)
qed

theorem device_sessions_refine_witness:
  "\<exists>s'. session_run kernel_area [Open 3, Write 3 ''a'' 1, Write 3 [CHR ''b'', newline] 2, Open 4, Read 4 9 9, Read 4 9 9,
        Ioctl 4 AESDCHAR_IOCSEEKTO (Some \<lparr>write_cmd = 0, write_cmd_offset = 1\<rparr>), Read 4 9 9]
      (fresh_session loaded_module loaded_heap) =
    Inr ([Done, Count 1, Count 2, Done, Data [CHR ''a'', CHR ''b'', newline], Data [], Done,
       Data [CHR ''b'', newline]], s')"
    (is "\<exists>s'. session_run kernel_area ?rs _ = Inr (?xs, s')")
proof -
  have "fst (spec_run kernel_area ?rs empty_device) = ?xs"
    by (simp add: empty_device_def spec_handle_def spec_write_def log_push_def move_def log_read_def
        slot_size_def seek_target_def next_base_def kernel_area_def Let_def)
  moreover have "sum_list (map request_bytes ?rs) = 3" by simp
  ultimately show ?thesis
    using device_sessions_refine [OF heap_ok_empty loaded_init, of ?rs kernel_area]
    by (simp only: loaded_used) (auto simp: PTRDIFF_MAX_def simp del: run_all.simps run_spec.simps)
qed

end
