(* ===== verification/Concurrent_Writes.thy ===== *)
theory Concurrent_Writes
  imports Driver
begin

text \<open>
  Several writers inside \<open>aesd_write\<close> of \<^verbatim>\<open>aesd-char-driver/main.c\<close> at once. The handler takes
  no lock, so the kernel may switch between writers at any of its calls. Here the handler is cut
  at its calls: \<open>write_step\<close> is one piece, \<open>wpc\<close> says which piece comes next and holds the local
  variables that live across the cut (\<open>kbuf\<close> and \<open>entry\<close>), and \<open>writes_run\<close> runs the pieces of
  several writers in the order of a schedule.

  The pieces of one writer, run without interruption, are \<open>aesd_write\<close> itself
  (\<open>write_alone\<close>), so a schedule that serves one writer after the other, as under a lock, is a
  sequence of writes; a schedule that does not may free a block another writer is copying.
\<close>

record job =
  j_file :: filp
  j_user :: bytes
  j_count :: size_t

datatype wpc =
    WStart
  | WTest nat
  | WPut nat
  | WAppend nat bool
  | WEntry nat
  | WStore nat aesd_buffer_entry
  | WDelete nat
  | WFree nat "errno + size_t"
  | WDone "errno + size_t"

fun write_step :: "job \<Rightarrow> wpc \<Rightarrow> aesd_dev \<Rightarrow> heap \<Rightarrow> (wpc \<times> aesd_dev \<times> heap) res" where
  "write_step j WStart d h =
     andthen (filp_dev (j_file j)) (\<lambda>_.
       case kmalloc (j_count j) h of
         (NULL, h1) \<Rightarrow> Inr (WDone (Inl ENOMEM), d, h1)
       | (Ptr kbuf, h1) \<Rightarrow>
           if length (j_user j) < unat (j_count j) then Inr (WFree kbuf (Inl EFAULT), d, h1)
           else andthen (store (Ptr kbuf) 0 (take (unat (j_count j)) (j_user j)) h1) (\<lambda>h2.
                Inr (WTest kbuf, d, h2)))"
| "write_step j (WTest kbuf) d h =
     andthen (load (Ptr kbuf) 0 (unat (j_count j)) h) (\<lambda>data.
       if newline_loop data then
         andthen (bufferTemperary d) (\<lambda>t.
           Inr (if aesd_temperary_buffer_is_empty t then WPut kbuf else WAppend kbuf True, d, h))
       else Inr (WAppend kbuf False, d, h))"
| "write_step j (WPut kbuf) d h =
     andthen (aesd_circular_buffer_add_entry (bufferCircular d)
                (Some \<lparr>e_buffptr = Ptr kbuf, e_size = j_count j\<rparr>) h) (\<lambda>(c, h1).
     Inr (WFree kbuf (Inr (j_count j)), set_circ d c, h1))"
| "write_step j (WAppend kbuf nl) d h =
     andthen (bufferTemperary d) (\<lambda>t.
     andthen (aesd_temperary_buffer_add t (Ptr kbuf) (j_count j) h) (\<lambda>(ok, t1, h1).
     Inr (if ok \<noteq> True then WFree kbuf (Inl ENOMEM)
          else if nl then WEntry kbuf else WFree kbuf (Inr (j_count j)), d\<lparr>temp_obj := t1\<rparr>, h1)))"
| "write_step j (WEntry kbuf) d h =
     andthen (bufferTemperary d) (\<lambda>t.
     Inr (WStore kbuf \<lparr>e_buffptr = t_buffptr t, e_size = t_size t\<rparr>, d, h))"
| "write_step j (WStore kbuf e) d h =
     andthen (aesd_circular_buffer_add_entry (bufferCircular d) (Some e) h) (\<lambda>(c, h1).
     Inr (WDelete kbuf, set_circ d c, h1))"
| "write_step j (WDelete kbuf) d h =
     andthen (bufferTemperary d) (\<lambda>t.
     andthen (aesd_temperary_buffer_delete t h) (\<lambda>(t1, h1).
     Inr (WFree kbuf (Inr (j_count j)), d\<lparr>temp_obj := t1\<rparr>, h1)))"
| "write_step j (WFree kbuf ret) d h =
     andthen (kfree (Ptr kbuf) h) (\<lambda>h1. Inr (WDone ret, d, h1))"
| "write_step j (WDone ret) d h = Inr (WDone ret, d, h)"

type_synonym writers = "wpc list \<times> aesd_dev \<times> heap"

fun writes_run :: "nat list \<Rightarrow> job list \<Rightarrow> writers \<Rightarrow> writers res" where
  "writes_run [] js s = Inr s"
| "writes_run (i # is) js (pcs, d, h) =
     andthen (write_step (js ! i) (pcs ! i) d h) (\<lambda>(pc, d1, h1).
     writes_run is js (pcs[i := pc], d1, h1))"

lemma writes_run_append:
  "writes_run (is @ ks) js s = andthen (writes_run is js s) (writes_run ks js)"
proof (induction "is" arbitrary: s)
  case (Cons i "is")
  obtain pcs d h where s: "s = (pcs, d, h)" by (cases s)
  show ?case
    by (cases "write_step (js ! i) (pcs ! i) d h") (auto simp: s Cons.IH)
qed simp

subsection \<open>One writer at a time\<close>

text \<open>A writer has at most seven pieces.\<close>

fun writer_run :: "nat \<Rightarrow> job \<Rightarrow> wpc \<Rightarrow> aesd_dev \<Rightarrow> heap \<Rightarrow> (wpc \<times> aesd_dev \<times> heap) res" where
  "writer_run 0 j pc d h = Inr (pc, d, h)"
| "writer_run (Suc n) j pc d h =
     andthen (write_step j pc d h) (\<lambda>(pc1, d1, h1). writer_run n j pc1 d1 h1)"

lemma writes_run_replicate:
  "i < length pcs \<Longrightarrow> writes_run (replicate n i) js (pcs, d, h) =
     andthen (writer_run n (js ! i) (pcs ! i) d h) (\<lambda>(pc, d1, h1). Inr (pcs[i := pc], d1, h1))"
proof (induction n arbitrary: pcs d h)
  case (Suc n)
  then show ?case
    by (cases "write_step (js ! i) (pcs ! i) d h") (auto simp: andthen_def split: sum.splits)
qed simp

lemma writer_done: "writer_run n j (WDone ret) d h = Inr (WDone ret, d, h)"
  by (induction n) simp_all

definition write_result :: "(errno + size_t) \<times> aesd_dev \<times> heap \<Rightarrow> (wpc \<times> aesd_dev \<times> heap) res" where
  "write_result = (\<lambda>(ret, d, h). Inr (WDone ret, d, h))"

lemma write_result_simp [simp]: "write_result (ret, d, h) = Inr (WDone ret, d, h)"
  by (simp add: write_result_def)

lemma writer_free:
  "writer_run (Suc n) j (WFree k ret) d h =
     andthen (andthen (kfree (Ptr k) h) (\<lambda>h1. Inr (ret, d, h1))) write_result"
  by (cases "kfree (Ptr k) h") (simp_all add: writer_done)

lemma set_circ_temp [simp]:
  "temp_ptr (set_circ d c) = temp_ptr d" "temp_obj (set_circ d c) = temp_obj d"
  "(set_circ d c)\<lparr>temp_obj := t\<rparr> = set_circ (d\<lparr>temp_obj := t\<rparr>) c"
  by (simp_all add: set_circ_def split: option.splits)

lemma bufferCircular_temp [simp]: "bufferCircular (d\<lparr>temp_obj := t\<rparr>) = bufferCircular d"
  by (simp add: bufferCircular_def)

text \<open>The rest of the handler once \<open>kbuf\<close> is filled, by its three branches.\<close>

lemma writer_put:
  "writer_run (Suc (Suc n)) j (WPut k) d h =
     andthen (andthen (aesd_circular_buffer_add_entry (bufferCircular d)
         (Some \<lparr>e_buffptr = Ptr k, e_size = j_count j\<rparr>) h) (\<lambda>(c, h1).
       andthen (kfree (Ptr k) h1) (\<lambda>h2. Inr (Inr (j_count j), set_circ d c, h2)))) write_result"
  by (auto simp: writer_done split: andthen_split)

lemma writer_append_quiet:
  assumes "temp_ptr d \<noteq> NULL"
  shows "writer_run (Suc (Suc n)) j (WAppend k False) d h =
     andthen (andthen (aesd_temperary_buffer_add (temp_obj d) (Ptr k) (j_count j) h) (\<lambda>(ok, t1, h1).
       if ok \<noteq> True then andthen (kfree (Ptr k) h1) (\<lambda>h2. Inr (Inl ENOMEM, d\<lparr>temp_obj := t1\<rparr>, h2))
       else andthen (kfree (Ptr k) h1) (\<lambda>h2. Inr (Inr (j_count j), d\<lparr>temp_obj := t1\<rparr>, h2)))) write_result"
  using assms by (auto simp: writer_done bufferTemperary_def split: andthen_split)

lemma writer_append_line:
  assumes "temp_ptr d \<noteq> NULL"
  shows "writer_run (Suc (Suc (Suc (Suc (Suc n))))) j (WAppend k True) d h =
     andthen (andthen (aesd_temperary_buffer_add (temp_obj d) (Ptr k) (j_count j) h) (\<lambda>(ok, t1, h1).
       if ok \<noteq> True then andthen (kfree (Ptr k) h1) (\<lambda>h2. Inr (Inl ENOMEM, d\<lparr>temp_obj := t1\<rparr>, h2))
       else
         andthen (aesd_circular_buffer_add_entry (bufferCircular d)
           (Some \<lparr>e_buffptr = t_buffptr t1, e_size = t_size t1\<rparr>) h1) (\<lambda>(c, h2).
         andthen (aesd_temperary_buffer_delete t1 h2) (\<lambda>(t2, h3).
         andthen (kfree (Ptr k) h3) (\<lambda>h4.
         Inr (Inr (j_count j), set_circ (d\<lparr>temp_obj := t2\<rparr>) c, h4)))))) write_result"
  using assms by (auto simp: writer_done bufferTemperary_def split: andthen_split)

lemma writer_append_null: "temp_ptr d = NULL \<Longrightarrow> writer_run (Suc n) j (WAppend k nl) d h = Inl NullDeref"
  by (simp add: bufferTemperary_def)

lemmas writer_branches = writer_append_null writer_put writer_append_quiet writer_append_line

lemma write_alone:
  "writer_run 7 j WStart d h = andthen (aesd_write d (j_file j) (j_user j) (j_count j) h) write_result"
proof -
  have 7: "7 = Suc (Suc (Suc (Suc (Suc (Suc (Suc 0))))))" by simp
  obtain p h1 where al: "kmalloc (j_count j) h = (p, h1)" by fastforce
  show ?thesis
  proof (cases "filp_dev (j_file j)"; cases p)
    fix x k
    assume f: "filp_dev (j_file j) = Inr x" and p: "p = Ptr k"
    show ?thesis
    proof (cases "length (j_user j) < unat (j_count j)")
      case True
      then show ?thesis
        unfolding 7 aesd_write_def using f p al by (auto simp: writer_done split: andthen_split)
    next
      case False
      show ?thesis
      proof (cases "store (Ptr k) 0 (take (unat (j_count j)) (j_user j)) h1")
        case (Inr h2)
        have two: "writer_run (Suc (Suc n)) j WStart d h =
            andthen (load (Ptr k) 0 (unat (j_count j)) h2) (\<lambda>data.
              if newline_loop data then
                andthen (bufferTemperary d) (\<lambda>t.
                  writer_run n j (if aesd_temperary_buffer_is_empty t then WPut k else WAppend k True) d h2)
              else writer_run n j (WAppend k False) d h2)" for n
          using False f p al Inr by (auto split: andthen_split)
        show ?thesis
          using False f p al Inr
          by (cases "load (Ptr k) 0 (unat (j_count j)) h2"; cases "temp_ptr d = NULL")
            (auto simp: 7 two aesd_write_def Let_def bufferTemperary_def writer_branches
              simp del: writer_run.simps(2))
      qed (use False f p al in \<open>simp add: 7 aesd_write_def\<close>)
    qed
  qed (use al in \<open>simp_all add: 7 aesd_write_def\<close>)
qed

subsection \<open>Two writers inside the handler\<close>

text \<open>Addresses are not handed out twice: the counter of the allocator only grows.\<close>

lemma kmalloc_brk: "kmalloc n h = (p, h') \<Longrightarrow> brk h' = Suc (brk h)"
  by (auto simp: kmalloc_def Let_def split: if_splits)

lemma memcpy_brk: "memcpy p i q k n h = Inr h' \<Longrightarrow> brk h' = brk h"
  by (auto simp: memcpy_def andthen_eq_Inr_iff store_brk)

lemma temp_add_brk: "aesd_temperary_buffer_add b p n h = Inr (r, b', h') \<Longrightarrow> brk h' = Suc (brk h)"
  by (auto simp: aesd_temperary_buffer_add_def andthen_eq_Inr_iff Let_def kfree_brk
      dest!: kmalloc_brk memcpy_brk split: if_splits prod.splits ptr.splits)

lemma evict_brk: "evict_oldest b h = Inr (b1, h1) \<Longrightarrow> brk h1 = brk h"
  by (auto simp: evict_oldest_def andthen_eq_Inr_iff my_free_def kfree_brk split: if_splits)

lemma live_below_brk: "heap_ok h \<Longrightarrow> blocks h a = Some bs \<Longrightarrow> a < brk h"
  by (auto simp: heap_ok_def)

lemma kmalloc_granted:
  assumes "ample h (unat n)"
  obtains k h' where "kmalloc n h = (Ptr k, h')"
  using kmalloc_ample [OF assms] by (cases "kmalloc n h"; cases "fst (kmalloc n h)") auto

text \<open>The pieces up to the copy into the temporary buffer, for data that meets pending bytes.\<close>

lemma writer_collects:
  assumes "heap_ok h" "dev_ok d h" "private_data (j_file j)" "dev_pending d h \<noteq> []"
    and "unat (j_count j) \<le> length (j_user j)" "xs = take (unat (j_count j)) (j_user j)"
    and "ample h (length (dev_pending d h) + 2 * length xs)"
  obtains k t l h' where "blocks h k = None"
    "writer_run 3 j WStart d h =
       Inr (if newline \<in> set xs then WEntry k else WFree k (Inr (j_count j)), d\<lparr>temp_obj := t\<rparr>, h')"
    "heap_ok h'" "dev_ok (d\<lparr>temp_obj := t\<rparr>) h'" "grant h' = grant h" "used h' = used h + 2 * length xs"
    "t_buffptr t = Ptr l" "blocks h' l = Some (dev_pending d h @ xs)" "unat (t_size t) = length (dev_pending d h @ xs)"
    "brk h \<le> brk h'" "\<forall>a\<in>temp_fp (temp_obj d). blocks h' a = None"
proof -
  have len: "length xs = unat (j_count j)" using assms(5,6) by simp
  have "ample h (unat (j_count j))" using assms(7) len by (simp add: ample_def)
  then obtain k h1 where al: "kmalloc (j_count j) h = (Ptr k, h1)" by (rule kmalloc_granted)
  from kbuf_fill [OF assms(1,2) al assms(5), folded assms(6)] obtain h2 where
    kb: "store (Ptr k) 0 xs h1 = Inr h2" "load (Ptr k) 0 (unat (j_count j)) h2 = Inr xs" "heap_ok h2"
    "grant h2 = grant h" "blocks h2 = (blocks h)(k \<mapsto> xs)" "blocks h k = None" "k \<notin> dev_fp d"
    "used h2 = used h + unat (j_count j)" "dev_ok d h2" "dev_pending d h2 = dev_pending d h" by metis
  have k: "blocks h2 k = Some xs" "k \<notin> temp_fp (temp_obj d)" using kb(5,7) by (auto simp: dev_fp_def)
  have tok: "temp_ptr d \<noteq> NULL" "temp_ok (temp_obj d) h2" using kb(9) by (auto simp: dev_ok_def)
  from tok(2) obtain l0 ls where l0: "t_buffptr (temp_obj d) = Ptr l0" "blocks h2 l0 = Some ls"
    "length ls = unat (t_size (temp_obj d))" "dev_pending d h = ls"
    using kb(10) assms(4) by (cases rule: temp_ok_cases) (auto simp: dev_pending_def temp_data_def)
  have "unat (t_size (temp_obj d) + j_count j) \<le> length ls + length xs"
    using l0(3) len by (simp add: unat_word_ariths)
  then have "ample h2 (unat (t_size (temp_obj d) + j_count j))"
    using assms(7) kb(4,8) l0(4) len by (simp add: ample_def)
  then obtain l h3 where al2: "kmalloc (t_size (temp_obj d) + j_count j) h2 = (Ptr l, h3)" by (rule kmalloc_granted)
  have kl0: "k \<noteq> l0" using k(2) l0(1) by (auto simp: temp_fp_def)
  let ?t = "(temp_obj d)\<lparr>t_buffptr := Ptr l, t_size := t_size (temp_obj d) + j_count j\<rparr>"
  from temp_add_more [OF kb(3) k(1) _ kl0 l0(1-3) al2] len obtain h4 where
    ad: "aesd_temperary_buffer_add (temp_obj d) (Ptr k) (j_count j) h2 = Inr (True, ?t, h4)"
    "blocks h4 = (blocks h2)(l \<mapsto> ls @ xs, l0 := None)" "blocks h2 l = None"
    "unat (t_size (temp_obj d) + j_count j) = length ls + unat (j_count j)" by auto
  from dev_add_pending [OF kb(3,9) k len] ad(1) have
    st: "dev_step d h2 (d\<lparr>temp_obj := ?t\<rparr>) h4" "used h4 = used h2 + unat (j_count j)" by auto
  have ne: "l \<noteq> l0" using ad(3) l0(2) by auto
  have "\<not> aesd_temperary_buffer_is_empty (temp_obj d)"
    using kbuf.is_empty_iff [OF tok(2)] kb(10) assms(4) by (simp add: dev_pending_def)
  then have run: "writer_run 3 j WStart d h =
      Inr (if newline \<in> set xs then WEntry k else WFree k (Inr (j_count j)), d\<lparr>temp_obj := ?t\<rparr>, h4)"
    using assms(3,5) al kb(1,2) ad(1) tok(1)
    by (simp add: numeral_3_eq_3 filp_dev_def newline_loop_iff bufferTemperary_def flip: assms(6))
  have "brk h \<le> brk h4"
    using kmalloc_brk [OF al] store_brk [OF kb(1)] temp_add_brk [OF ad(1)] by simp
  moreover have "heap_ok h4" "dev_ok (d\<lparr>temp_obj := ?t\<rparr>) h4" "grant h4 = grant h"
    using st(1) kb(4) by (auto simp: dev_step_def)
  moreover have "used h4 = used h + 2 * length xs" using st(2) kb(8) len by simp
  moreover have "blocks h4 l = Some (dev_pending d h @ xs)" "blocks h4 l0 = None" using ad(2) ne l0(4) by simp_all
  moreover have "unat (t_size ?t) = length (dev_pending d h @ xs)" using ad(4) l0(4) len by simp
  ultimately show thesis using that [OF kb(6) run, of l] l0(1) by (simp add: temp_fp_def)
qed

text \<open>Copying from a block that has been freed.\<close>

lemma store_freed:
  assumes "heap_ok h" "dev_ok d h" "blocks h l = None" "l < brk h" "e_buffptr e = Ptr l"
    and "ample h (unat (e_size e))"
  shows "aesd_circular_buffer_add_entry (bufferCircular d) (Some e) h = Inl UseAfterFree"
proof -
  let ?b = "circ_obj d"
  have ok: "circ_ok ?b h" "bufferCircular d = Some ?b" using assms(2) by (auto simp: dev_ok_def bufferCircular_def)
  obtain b1 h1 n where ev: "evict_oldest ?b h = Inr (b1, h1)" "evict_post ?b h n b1 h1"
    using evict_spec [OF assms(1) ok(1)] by blast
  have "l \<notin> circ_fp ?b" using circ_fp_live [OF ok(1)] assms(3) by auto
  then have h1: "blocks h1 l = None" "heap_ok h1" "length (entry b1) = 10" "unat (in_offs b1) < 10"
    "ample h1 (unat (e_size e))"
    using ev(2) assms(3,6) ok(1) by (auto simp: evict_post_def room_def ample_def circ_ok_def)
  obtain a h2 where al: "my_malloc (e_size e) h1 = (Ptr a, h2)"
    using kmalloc_granted [OF h1(5)] by (metis my_malloc_def)
  have "a = brk h1" "\<exists>bs. blocks h2 = (blocks h1)(a \<mapsto> bs)"
    using kmalloc_Ptr [OF al [unfolded my_malloc_def] h1(2)] by auto
  then have "blocks h2 l = None" using h1(1) evict_brk [OF ev(1)] assms(4) by auto
  then have "store_entry b1 e h1 = Inl UseAfterFree"
    using al h1(3,4) assms(5)
    by (simp add: store_entry_def entry_at_def Let_def my_memcpy_def memcpy_def load_def)
  with ev(1) ok(2) show ?thesis by (simp add: aesd_circular_buffer_add_entry_def)
qed

text \<open>One writer after the other, as a lock would have it.\<close>

lemma serial_writes:
  assumes "heap_ok h" "dev_ok d h" "private_data (j_file a)" "private_data (j_file b)"
    and "unat (j_count a) \<le> length (j_user a)" "unat (j_count b) \<le> length (j_user b)"
    and "newline \<in> set (take (unat (j_count a)) (j_user a))"
    and "ample h (length (dev_pending d h) + 3 * unat (j_count a) + 3 * unat (j_count b))"
  shows "\<exists>d' h'. writes_run (replicate 7 0 @ replicate 7 1) [a, b] ([WStart, WStart], d, h) =
      Inr ([WDone (Inr (j_count a)), WDone (Inr (j_count b))], d', h') \<and> heap_ok h' \<and> dev_ok d' h'"
proof -
  have am: "ample h (length (dev_pending d h) + 3 * unat (j_count a))" using assms(8) by (simp add: ample_def)
  from aesd_write_spec [OF assms(1-3), of "j_user a" "j_count a"] obtain ra d1 h1 where
    wa: "aesd_write d (j_file a) (j_user a) (j_count a) h = Inr (ra, d1, h1)"
    "write_post d h (j_user a) (j_count a) ra d1 h1" by blast
  have ra: "ra = Inr (j_count a)" using wa(2) am assms(5) by (simp add: write_post_def)
  have p1: "heap_ok h1" "dev_ok d1 h1" "grant h1 = grant h" "used h1 \<le> used h + unat (j_count a)"
    "dev_pending d1 h1 = []"
    using wa(2) assms(7) ra by (auto simp: write_post_def dev_step_def write_effect_def)
  have am1: "ample h1 (length (dev_pending d1 h1) + 3 * unat (j_count b))"
    using assms(8) p1(3-5) by (simp add: ample_def)
  from aesd_write_spec [OF p1(1,2) assms(4), of "j_user b" "j_count b"] obtain rb d2 h2 where
    wb: "aesd_write d1 (j_file b) (j_user b) (j_count b) h1 = Inr (rb, d2, h2)"
    "write_post d1 h1 (j_user b) (j_count b) rb d2 h2" by blast
  have "rb = Inr (j_count b)" "heap_ok h2" "dev_ok d2 h2"
    using wb(2) am1 assms(6) by (auto simp: write_post_def dev_step_def)
  with wa(1) wb(1) ra show ?thesis
    by (simp add: writes_run_append writes_run_replicate write_alone)
qed

text \<open>
  C35. The driver's writes are not safe against each other: let bytes be pending and let two
  writers be in the handler, both with memory to be had. Served one after the other, both writes
  succeed and leave a well-formed device. But when the second writer appends its data after the
  first has built its \<open>entry\<close> from the temporary buffer and before that entry is copied, the
  first copies from a block the second has freed.
\<close>

theorem unlocked_writes_race:
  assumes "heap_ok h" "dev_ok d h" "private_data (j_file a)" "private_data (j_file b)" "dev_pending d h \<noteq> []"
    and "unat (j_count a) \<le> length (j_user a)" "unat (j_count b) \<le> length (j_user b)"
    and "newline \<in> set (take (unat (j_count a)) (j_user a))" "\<forall>k. grant h k"
    and "used h + 4 * (length (dev_pending d h) + unat (j_count a) + unat (j_count b)) \<le> PTRDIFF_MAX"
  shows "writes_run [0, 0, 0, 0, 1, 1, 1, 0] [a, b] ([WStart, WStart], d, h) = Inl UseAfterFree \<and>
    (\<exists>d' h'. writes_run (replicate 7 0 @ replicate 7 1) [a, b] ([WStart, WStart], d, h) =
      Inr ([WDone (Inr (j_count a)), WDone (Inr (j_count b))], d', h') \<and> heap_ok h' \<and> dev_ok d' h')"
proof
  let ?xs = "take (unat (j_count a)) (j_user a)" and ?ys = "take (unat (j_count b)) (j_user b)"
  have len: "length ?xs = unat (j_count a)" "length ?ys = unat (j_count b)" using assms(6,7) by simp_all
  have "ample h (length (dev_pending d h) + 2 * length ?xs)" using assms(9,10) len by (simp add: ample_def)
  from writer_collects [OF assms(1-3,5,6) refl this] obtain k t l h1 where
    A: "writer_run 3 a WStart d h = Inr (if newline \<in> set ?xs then WEntry k else WFree k (Inr (j_count a)), d\<lparr>temp_obj := t\<rparr>, h1)"
    and h1: "heap_ok h1" "dev_ok (d\<lparr>temp_obj := t\<rparr>) h1" "grant h1 = grant h" "used h1 = used h + 2 * length ?xs"
    "t_buffptr t = Ptr l" "blocks h1 l = Some (dev_pending d h @ ?xs)"
    "unat (t_size t) = length (dev_pending d h @ ?xs)" by metis
  let ?d1 = "d\<lparr>temp_obj := t\<rparr>"
  have pd: "dev_pending ?d1 h1 = dev_pending d h @ ?xs" using h1(5,6) by (simp add: dev_pending_def temp_data_def)
  then have "dev_pending ?d1 h1 \<noteq> []" "ample h1 (length (dev_pending ?d1 h1) + 2 * length ?ys)"
    using assms(5,9,10) h1(3,4) len by (simp_all add: ample_def)
  from writer_collects [OF h1(1,2) assms(4) this(1) assms(7) refl this(2)] obtain k' t' l' h2 where "blocks h1 k' = None"
    and B: "writer_run 3 b WStart ?d1 h1 =
      Inr (if newline \<in> set ?ys then WEntry k' else WFree k' (Inr (j_count b)), ?d1\<lparr>temp_obj := t'\<rparr>, h2)"
    and h2: "heap_ok h2" "dev_ok (?d1\<lparr>temp_obj := t'\<rparr>) h2" "grant h2 = grant h1" "used h2 = used h1 + 2 * length ?ys"
    and "t_buffptr t' = Ptr l'" "blocks h2 l' = Some (dev_pending ?d1 h1 @ ?ys)"
      "unat (t_size t') = length (dev_pending ?d1 h1 @ ?ys)"
    and old: "brk h1 \<le> brk h2" "\<forall>a\<in>temp_fp (temp_obj ?d1). blocks h2 a = None" .
  have l: "blocks h2 l = None" "l < brk h2"
    using old h1(5) live_below_brk [OF h1(1,6)] by (auto simp: temp_fp_def)
  have "ample h2 (unat (t_size t))" using assms(9,10) h1 h2(3,4) len by (simp add: ample_def)
  from store_freed [OF h2(1,2) l, of "\<lparr>e_buffptr = t_buffptr t, e_size = t_size t\<rparr>"] this h1(5)
  have F: "aesd_circular_buffer_add_entry (bufferCircular d) (Some \<lparr>e_buffptr = Ptr l, e_size = t_size t\<rparr>) h2 =
      Inl UseAfterFree" by simp
  have sched: "[0, 0, 0, 0, 1, 1, 1, 0] = replicate 3 0 @ [0] @ replicate 3 1 @ [0 :: nat]"
    by (simp add: numeral_3_eq_3)
  have "temp_ptr d \<noteq> NULL" using assms(2) by (simp add: dev_ok_def)
  then show "writes_run [0, 0, 0, 0, 1, 1, 1, 0] [a, b] ([WStart, WStart], d, h) = Inl UseAfterFree"
    unfolding sched using A B F assms(8) h1(5)
    by (simp add: writes_run_append writes_run_replicate bufferTemperary_def)
  have "ample h (length (dev_pending d h) + 3 * unat (j_count a) + 3 * unat (j_count b))"
    using assms(9,10) by (simp add: ample_def)
  from serial_writes [OF assms(1-4,6-8) this]
  show "\<exists>d' h'. writes_run (replicate 7 0 @ replicate 7 1) [a, b] ([WStart, WStart], d, h) =
      Inr ([WDone (Inr (j_count a)), WDone (Inr (j_count b))], d', h') \<and> heap_ok h' \<and> dev_ok d' h'" .
qed

definition sample_job :: "bytes \<Rightarrow> job" where
  "sample_job xs = \<lparr>j_file = opened, j_user = xs, j_count = of_nat (length xs)\<rparr>"

theorem unlocked_writes_race_witness:
  "\<exists>d h. dev_ok d h \<and> dev_pending d h = ''p'' \<and>
    writes_run [0, 0, 0, 0, 1, 1, 1, 0] [sample_job [CHR ''a'', newline], sample_job ''b''] ([WStart, WStart], d, h) =
      Inl UseAfterFree"
proof -
  have "ample loaded_heap (length (dev_pending (aesd_device loaded_module) loaded_heap) + 3 * length ''p'')"
    by (rule loaded_ample) (simp add: loaded_ok(9))
  from write_one [OF loaded_ok(1,2) opened_private loaded_ok(7) this] obtain d h where
    w: "dev_step (aesd_device loaded_module) loaded_heap d h" "used h \<le> used loaded_heap + length ''p''"
    "(dev_log d h, dev_pending d h) =
       spec_write (dev_log (aesd_device loaded_module) loaded_heap, dev_pending (aesd_device loaded_module) loaded_heap) ''p''"
    by metis
  have d: "heap_ok h" "dev_ok d h" "\<forall>k. grant h k" "used h \<le> 193"
    using w(1,2) by (auto simp: dev_step_def loaded_used)
  have p: "dev_pending d h = ''p''" using w(3) loaded_ok(9) by (simp add: spec_write_def)
  let ?a = "sample_job [CHR ''a'', newline]" and ?b = "sample_job ''b''"
  have j: "private_data (j_file ?a)" "private_data (j_file ?b)" "unat (j_count ?a) \<le> length (j_user ?a)"
    "unat (j_count ?b) \<le> length (j_user ?b)" "newline \<in> set (take (unat (j_count ?a)) (j_user ?a))"
    "unat (j_count ?a) = 2" "unat (j_count ?b) = 1"
    by (simp_all add: sample_job_def)
  have "dev_pending d h \<noteq> []" "used h + 4 * (length (dev_pending d h) + unat (j_count ?a) + unat (j_count ?b)) \<le> PTRDIFF_MAX"
    using d(4) p j(6,7) by (simp_all add: PTRDIFF_MAX_def)
  from unlocked_writes_race [OF d(1,2) j(1,2) this(1) j(3-5) d(3) this(2)] d(2) p show ?thesis by blast
qed

end
