(* ===== verification/Concurrent_Reads.thy ===== *)
theory Concurrent_Reads
  imports Concurrent_Writes Device_Log
begin

text \<open>
  Readers beside the writers of \<^verbatim>\<open>Concurrent_Writes\<close>. \<open>aesd_read\<close> of \<^verbatim>\<open>aesd-char-driver/main.c\<close> takes
  no lock either; it looks up a slot of the ring, reads the size and the pointer from the slot,
  and copies from the block. Here it is cut between these accesses (\<open>read_step\<close>), and \<open>actors_run\<close>
  runs the pieces of readers and writers in the order of a schedule.

  The pieces of a reader without interruption are \<open>aesd_read\<close> (\<open>read_alone\<close>), and other readers make no
  difference. A block that has been freed is never handed out again, by any piece of a writer, so a reader that holds a pointer to
  an evicted entry faults whenever it resumes.
\<close>

record rjob =
  r_file :: filp
  r_room :: nat
  r_count :: size_t
  r_pos :: loff_t

datatype rpc =
    RStart
  | RSize nat size_t
  | RPtr nat size_t size_t
  | RCopy ptr size_t size_t
  | RDone "errno + size_t" bytes loff_t

fun read_step :: "rjob \<Rightarrow> rpc \<Rightarrow> aesd_dev \<Rightarrow> heap \<Rightarrow> rpc res" where
  "read_step r RStart d h =
     andthen (filp_dev (r_file r)) (\<lambda>_.
     andthen (aesd_circular_buffer_find_entry_offset_for_fpos (bufferCircular d) (r_pos r) False) (\<lambda>found.
       case found of None \<Rightarrow> Inr (RDone (Inr 0) [] (r_pos r))
       | Some (k, entry_offset) \<Rightarrow> Inr (RSize k entry_offset)))"
| "read_step r (RSize k entry_offset) d h =
     andthen (circ_deref d) (\<lambda>b.
     andthen (entry_at b k) (\<lambda>e. Inr (RPtr k entry_offset (min (r_count r) (e_size e - entry_offset)))))"
| "read_step r (RPtr k entry_offset to_copy) d h =
     andthen (circ_deref d) (\<lambda>b.
     andthen (entry_at b k) (\<lambda>e. Inr (RCopy (e_buffptr e) entry_offset to_copy)))"
| "read_step r (RCopy p entry_offset to_copy) d h =
     andthen (load p (unat entry_offset) (unat to_copy) h) (\<lambda>xs.
       if unat to_copy > r_room r then Inr (RDone (Inl EFAULT) [] (r_pos r))
       else Inr (RDone (Inr to_copy) xs (r_pos r + to_copy)))"
| "read_step r (RDone ret xs pos) d h = Inr (RDone ret xs pos)"

datatype actor = Reader rjob rpc | Writer job wpc

fun actor_step :: "actor \<Rightarrow> aesd_dev \<Rightarrow> heap \<Rightarrow> (actor \<times> aesd_dev \<times> heap) res" where
  "actor_step (Reader r pc) d h = andthen (read_step r pc d h) (\<lambda>pc1. Inr (Reader r pc1, d, h))"
| "actor_step (Writer j pc) d h = andthen (write_step j pc d h) (\<lambda>(pc1, d1, h1). Inr (Writer j pc1, d1, h1))"

fun actors_run :: "nat list \<Rightarrow> actor list \<times> aesd_dev \<times> heap \<Rightarrow> (actor list \<times> aesd_dev \<times> heap) res" where
  "actors_run [] s = Inr s"
| "actors_run (i # is) (as, d, h) =
     andthen (actor_step (as ! i) d h) (\<lambda>(a, d1, h1). actors_run is (as[i := a], d1, h1))"

lemma actors_run_append: "actors_run (is @ ks) s = andthen (actors_run is s) (actors_run ks)"
proof (induction "is" arbitrary: s)
  case (Cons i "is")
  obtain as d h where s: "s = (as, d, h)" by (cases s)
  show ?case by (cases "actor_step (as ! i) d h") (auto simp: s Cons.IH)
qed simp

lemma actors_run_writer:
  "i < length as \<Longrightarrow> as ! i = Writer j pc \<Longrightarrow> actors_run (replicate n i) (as, d, h) =
     andthen (writer_run n j pc d h) (\<lambda>(pc1, d1, h1). Inr (as[i := Writer j pc1], d1, h1))"
proof (induction n arbitrary: as pc d h)
  case (Suc n)
  then show ?case by (cases "write_step j pc d h") (auto simp: andthen_def split: sum.splits)
qed (simp, metis list_update_id)

subsection \<open>One reader at a time\<close>

fun reader_run :: "nat \<Rightarrow> rjob \<Rightarrow> rpc \<Rightarrow> aesd_dev \<Rightarrow> heap \<Rightarrow> rpc res" where
  "reader_run 0 r pc d h = Inr pc"
| "reader_run (Suc n) r pc d h = andthen (read_step r pc d h) (\<lambda>pc1. reader_run n r pc1 d h)"

lemma actors_run_reader:
  "i < length as \<Longrightarrow> as ! i = Reader r pc \<Longrightarrow> actors_run (replicate n i) (as, d, h) =
     andthen (reader_run n r pc d h) (\<lambda>pc1. Inr (as[i := Reader r pc1], d, h))"
proof (induction n arbitrary: as pc)
  case (Suc n)
  then show ?case by (cases "read_step r pc d h") (auto simp: andthen_def split: sum.splits)
qed (simp, metis list_update_id)

lemma read_alone:
  "reader_run 4 r RStart d h =
     andthen (aesd_read d (r_file r) (r_room r) (r_count r) (r_pos r) h) (\<lambda>(ret, xs, pos). Inr (RDone ret xs pos))"
proof -
  have 4: "4 = Suc (Suc (Suc (Suc 0)))" by simp
  show ?thesis
    unfolding 4 aesd_read_def by (auto simp: Let_def split: andthen_split option.splits prod.splits)
qed

subsection \<open>Readers without writers\<close>

text \<open>
  Readers change neither the device nor the heap, so that each of them gets as far as it would
  alone, whatever the order of their pieces.
\<close>

lemma readers_apart:
  assumes "length pcs = length rs" "length qcs = length rs" "set is \<subseteq> {..<length rs}"
    and "\<forall>i<length rs. reader_run (count_list is i) (rs ! i) (pcs ! i) d h = Inr (qcs ! i)"
  shows "actors_run is (map2 Reader rs pcs, d, h) = Inr (map2 Reader rs qcs, d, h)"
  using assms(1,3,4)
proof (induction "is" arbitrary: pcs)
  case Nil
  then have "pcs = qcs" using assms(2) by (auto intro: nth_equalityI)
  then show ?case by simp
next
  case (Cons i "is")
  have i: "i < length rs" using Cons.prems(2) by simp
  from Cons.prems(3) i have "reader_run (Suc (count_list is i)) (rs ! i) (pcs ! i) d h = Inr (qcs ! i)" by auto
  then obtain pc where pc: "read_step (rs ! i) (pcs ! i) d h = Inr pc" "reader_run (count_list is i) (rs ! i) pc d h = Inr (qcs ! i)"
    by (auto simp: andthen_eq_Inr_iff)
  have "reader_run (count_list is j) (rs ! j) (pcs[i := pc] ! j) d h = Inr (qcs ! j)" if "j < length rs" for j
    using Cons.prems(1,3) that pc(2) by (cases "j = i") auto
  then have "actors_run is (map2 Reader rs (pcs[i := pc]), d, h) = Inr (map2 Reader rs qcs, d, h)"
    using Cons.prems(1,2) by (intro Cons.IH) auto
  moreover have "map2 Reader rs (pcs[i := pc]) = (map2 Reader rs pcs)[i := Reader (rs ! i) pc]"
    using Cons.prems(1) i by (intro nth_equalityI) (auto simp: nth_list_update)
  ultimately show ?case using pc(1) i Cons.prems(1) by simp
qed

lemma reader_finished: "reader_run n r (RDone ret xs pos) d h = Inr (RDone ret xs pos)"
  by (induction n) simp_all

lemma reader_run_add: "reader_run (m + n) r pc d h = andthen (reader_run m r pc d h) (\<lambda>pc1. reader_run n r pc1 d h)"
proof (induction m arbitrary: pc)
  case (Suc m)
  then show ?case by (cases "read_step r pc d h") auto
qed simp

text \<open>
  C21. Readers of the driver without a writer among them do not disturb each other although there is no
  lock: on a well-formed device any number of them, interleaved in any way, once each has had its four
  pieces, have what \<open>aesd_read\<close> returns to each of them alone, and none has faulted; device and memory are
  as they were.
\<close>

theorem readers_do_not_interfere:
  assumes "heap_ok h" "dev_ok d h" "\<forall>r\<in>set rs. private_data (r_file r)"
    and "set is \<subseteq> {..<length rs}" "\<forall>i<length rs. 4 \<le> count_list is i"
  shows "\<exists>qcs. actors_run is (map (\<lambda>r. Reader r RStart) rs, d, h) = Inr (map2 Reader rs qcs, d, h) \<and>
    list_all2 (\<lambda>r q. \<exists>ret xs pos. aesd_read d (r_file r) (r_room r) (r_count r) (r_pos r) h = Inr (ret, xs, pos) \<and>
      q = RDone ret xs pos) rs qcs"
proof -
  define out where "out r = (case aesd_read d (r_file r) (r_room r) (r_count r) (r_pos r) h of
    Inr (ret, xs, pos) \<Rightarrow> RDone ret xs pos | Inl _ \<Rightarrow> RStart)" for r :: rjob
  have rd: "\<exists>ret xs pos. aesd_read d (r_file r) (r_room r) (r_count r) (r_pos r) h = Inr (ret, xs, pos) \<and> out r = RDone ret xs pos"
    if "r \<in> set rs" for r
    using aesd_read_spec [OF assms(1,2), of "r_file r" "r_room r" "r_count r" "r_pos r"] assms(3) that
    by (auto simp: out_def Let_def)
  have "reader_run (count_list is i) (rs ! i) RStart d h = Inr (out (rs ! i))" if "i < length rs" for i
  proof -
    from assms(5) that obtain n where "count_list is i = 4 + n" using le_Suc_ex by blast
    with rd [of "rs ! i"] that show ?thesis
      by (auto simp: reader_run_add read_alone reader_finished simp del: reader_run.simps)
  qed
  then have "actors_run is (map2 Reader rs (map (\<lambda>_. RStart) rs), d, h) = Inr (map2 Reader rs (map out rs), d, h)"
    using assms(4) by (intro readers_apart) auto
  moreover have "map2 Reader rs (map (\<lambda>_. RStart) rs) = map (\<lambda>r. Reader r RStart) rs" by (auto intro: nth_equalityI)
  moreover have "list_all2 (\<lambda>r q. \<exists>ret xs pos. aesd_read d (r_file r) (r_room r) (r_count r) (r_pos r) h = Inr (ret, xs, pos) \<and>
      q = RDone ret xs pos) rs (map out rs)" using rd by (auto simp: list_all2_conv_all_nth)
  ultimately show ?thesis by auto
qed

text \<open>Two readers in the first entry of a full device, in turns.\<close>

theorem readers_do_not_interfere_witness:
  "let r = \<lambda>n p. \<lparr>r_file = opened, r_room = 512, r_count = n, r_pos = p\<rparr>
   in actors_run [0, 1, 1, 0, 0, 1, 0, 1] ([Reader (r 512 1) RStart, Reader (r 1 0) RStart], wrapped_dev, wrapped_heap) =
     Inr ([Reader (r 512 1) (RDone (Inr 2) [CHR ''b'', newline] 3), Reader (r 1 0) (RDone (Inr 1) ''a'' 1)], wrapped_dev, wrapped_heap)"
proof -
  let ?r = "\<lambda>n p. \<lparr>r_file = opened, r_room = 512, r_count = n, r_pos = p\<rparr>" and ?is = "[0, 1, 1, 0, 0, 1, 0, 1]"
  have sch: "\<forall>r\<in>set [?r 512 1, ?r 1 0]. private_data (r_file r)" "set ?is \<subseteq> {..<length [?r 512 1, ?r 1 0]}"
    "\<forall>i<length [?r 512 1, ?r 1 0]. 4 \<le> count_list ?is i" by (auto simp: less_Suc_eq)
  have rd: "aesd_read wrapped_dev opened 512 512 1 wrapped_heap = Inr (Inr 2, [CHR ''b'', newline], 3)"
    "aesd_read wrapped_dev opened 512 1 0 wrapped_heap = Inr (Inr 1, ''a'', 1)"
    by (simp_all add: aesd_read_spec [OF wrapped_heap_ok wrapped_dev_ok opened_private] wrapped_log log_read_def Let_def)
  from readers_do_not_interfere [OF wrapped_heap_ok wrapped_dev_ok sch] obtain qcs where
    q: "actors_run ?is (map (\<lambda>r. Reader r RStart) [?r 512 1, ?r 1 0], wrapped_dev, wrapped_heap) =
        Inr (map2 Reader [?r 512 1, ?r 1 0] qcs, wrapped_dev, wrapped_heap)"
    "list_all2 (\<lambda>r q. \<exists>ret xs pos. aesd_read wrapped_dev (r_file r) (r_room r) (r_count r) (r_pos r) wrapped_heap =
        Inr (ret, xs, pos) \<and> q = RDone ret xs pos) [?r 512 1, ?r 1 0] qcs" by blast
  from q(2) have "qcs = [RDone (Inr 2) [CHR ''b'', newline] 3, RDone (Inr 1) ''a'' 1]"
    by (auto simp: list_all2_Cons1 rd)
  with q(1) show ?thesis by (simp add: Let_def del: actors_run.simps)
qed

subsection \<open>Freed blocks stay freed\<close>

definition gone :: "nat \<Rightarrow> heap \<Rightarrow> bool" where
  "gone a h \<longleftrightarrow> blocks h a = None \<and> a < brk h"

lemma kmalloc_gone: "kmalloc n h = (p, h') \<Longrightarrow> gone a h \<Longrightarrow> gone a h'"
  by (auto simp: gone_def kmalloc_def Let_def split: if_splits)

lemma kfree_gone: "kfree p h = Inr h' \<Longrightarrow> gone a h \<Longrightarrow> gone a h'"
  by (auto simp: gone_def kfree_def split: ptr.splits option.splits)

lemma store_gone: "store p off xs h = Inr h' \<Longrightarrow> gone a h \<Longrightarrow> gone a h'"
  by (auto simp: gone_def store_def split: ptr.splits option.splits if_splits)

lemma memcpy_gone: "memcpy p i q k n h = Inr h' \<Longrightarrow> gone a h \<Longrightarrow> gone a h'"
  by (auto simp: memcpy_def andthen_eq_Inr_iff store_gone)

lemmas memory_gone = kmalloc_gone kfree_gone store_gone memcpy_gone

lemma temp_gone:
  "aesd_temperary_buffer_add t p n h = Inr (r, t', h') \<Longrightarrow> gone a h \<Longrightarrow> gone a h'"
  "aesd_temperary_buffer_delete t h = Inr (t'', h'') \<Longrightarrow> gone a h \<Longrightarrow> gone a h''"
  by (auto simp: aesd_temperary_buffer_add_def aesd_temperary_buffer_delete_def andthen_eq_Inr_iff Let_def
      dest: memory_gone split: if_splits prod.splits ptr.splits)

lemma evict_gone: "evict_oldest b h = Inr (b', h') \<Longrightarrow> gone a h \<Longrightarrow> gone a h'"
  by (auto simp: evict_oldest_def andthen_eq_Inr_iff my_free_def dest: kfree_gone split: if_splits)

lemma store_entry_gone: "store_entry b e h = Inr (b', h') \<Longrightarrow> gone a h \<Longrightarrow> gone a h'"
  by (cases "kmalloc (e_size e) h"; cases "fst (kmalloc (e_size e) h)")
    (auto simp: store_entry_def andthen_eq_Inr_iff Let_def my_malloc_def my_memcpy_def dest: memory_gone)

lemma add_entry_gone:
  "aesd_circular_buffer_add_entry b e h = Inr (c, h') \<Longrightarrow> gone a h \<Longrightarrow> gone a h'"
  by (auto simp: aesd_circular_buffer_add_entry_def andthen_eq_Inr_iff dest: evict_gone store_entry_gone
      split: option.splits)

text \<open>No piece of a writer hands a freed address out again.\<close>

lemma write_step_gone:
  "write_step j pc d h = Inr (pc', d', h') \<Longrightarrow> gone a h \<Longrightarrow> gone a h'"
  by (cases pc) (auto simp: andthen_eq_Inr_iff dest: memory_gone temp_gone add_entry_gone
      split: prod.splits ptr.splits if_splits)

subsection \<open>A reader of an entry that is evicted\<close>

lemma add_entry_evicts:
  assumes "aesd_circular_buffer_add_entry (Some b) (Some e) h = Inr (c, h')" "full b"
    and "unat (out_offs b) < length (entry b)" "e_buffptr (entry b ! unat (out_offs b)) = Ptr a" "a < brk h"
  shows "gone a h'"
proof -
  from assms(1) obtain b1 h1 b2 where ev: "evict_oldest b h = Inr (b1, h1)" and st: "store_entry b1 e h1 = Inr (b2, h')"
    by (auto simp: aesd_circular_buffer_add_entry_def andthen_eq_Inr_iff)
  from ev assms(2-4) have "kfree (Ptr a) h = Inr h1"
    by (auto simp: evict_oldest_def entry_at_def my_free_def andthen_eq_Inr_iff)
  then have "gone a h1" using assms(5) kfree_brk by (auto simp: gone_def kfree_def split: option.splits)
  with st show ?thesis by (rule store_entry_gone)
qed

text \<open>The oldest entry of a device, while it has one.\<close>

lemma oldest_entry:
  assumes "heap_ok h" "dev_ok d h" "dev_log d h \<noteq> []"
  obtains a bs where "unat (out_offs (circ_obj d)) < 10" "length (entry (circ_obj d)) = 10"
    "e_buffptr (entry (circ_obj d) ! unat (out_offs (circ_obj d))) = Ptr a" "blocks h a = Some bs" "a < brk h"
proof -
  let ?b = "circ_obj d"
  let ?e = "entry ?b ! unat (out_offs ?b)"
  have ok: "length (entry ?b) = 10" "unat (out_offs ?b) < 10" "entry_ok h ?e"
    using assms(2) by (auto simp: dev_ok_def circ_ok_def list_all_length)
  have "ring ?b ! 0 = ?e" using ring_nth [of ?b 0] ok(1,2) by simp
  moreover have "ring ?b \<noteq> []" using length_ring [of ?b] ok(1) by (metis length_0_conv zero_neq_numeral)
  ultimately obtain es where "ring ?b = ?e # es" by (cases "ring ?b") simp_all
  then have "e_buffptr ?e \<noteq> NULL" using assms(3) by (auto simp: dev_log_def contents_def live_def)
  then obtain a bs where "e_buffptr ?e = Ptr a" "blocks h a = Some bs"
    using ok(3) by (auto simp: entry_ok_def split: ptr.splits option.splits)
  with that ok live_below_brk [OF assms(1)] show thesis by blast
qed

lemma write_evicts:
  assumes "heap_ok h" "dev_ok d h" "private_data f" "unat n \<le> length xs" "newline \<in> set (take (unat n) xs)"
    and "aesd_write d f xs n h = Inr (Inr m, d', h')" "full (circ_obj d)" "dev_log d h \<noteq> []"
    and "e_buffptr (entry (circ_obj d) ! unat (out_offs (circ_obj d))) = Ptr a"
  shows "gone a h'"
proof -
  let ?b = "circ_obj d"
  from oldest_entry [OF assms(1,2,8)] obtain a' where "unat (out_offs ?b) < 10" "length (entry ?b) = 10"
    "e_buffptr (entry ?b ! unat (out_offs ?b)) = Ptr a'" "a' < brk h" .
  then have o: "unat (out_offs ?b) < length (entry ?b)" "a < brk h" using assms(9) by simp_all
  have bc: "bufferCircular d = Some ?b" "temp_ptr d \<noteq> NULL" using assms(2) by (auto simp: dev_ok_def bufferCircular_def)
  obtain p h1 where al: "kmalloc n h = (p, h1)" by fastforce
  with assms(3,6) obtain k where p: "p = Ptr k" by (cases p) (auto simp: aesd_write_def filp_dev_def)
  from kbuf_fill [OF assms(1,2) al [unfolded p] assms(4)] obtain h2 where
    kb: "store (Ptr k) 0 (take (unat n) xs) h1 = Inr h2" "load (Ptr k) 0 (unat n) h2 = Inr (take (unat n) xs)" by metis
  have brk: "a < brk h2" using o(2) kmalloc_brk [OF al] store_brk [OF kb(1)] by simp
  note evicts = add_entry_evicts [OF _ assms(7) o(1) assms(9)]
  note w = assms(6) [unfolded aesd_write_def al p]
  show ?thesis
  proof (cases "aesd_temperary_buffer_is_empty (temp_obj d)")
    case True
    with w assms(3-5) kb bc obtain c h3 where
      "aesd_circular_buffer_add_entry (Some ?b) (Some \<lparr>e_buffptr = Ptr k, e_size = n\<rparr>) h2 = Inr (c, h3)" "kfree (Ptr k) h3 = Inr h'"
      by (auto simp: filp_dev_def bufferTemperary_def newline_loop_iff Let_def andthen_eq_Inr_iff)
    then show ?thesis using evicts brk kfree_gone by blast
  next
    case False
    with w assms(3-5) kb bc obtain t1 h3 c h4 t2 h5 where
      ad: "aesd_temperary_buffer_add (temp_obj d) (Ptr k) n h2 = Inr (True, t1, h3)"
      and "aesd_circular_buffer_add_entry (Some ?b) (Some \<lparr>e_buffptr = t_buffptr t1, e_size = t_size t1\<rparr>) h3 = Inr (c, h4)"
        "aesd_temperary_buffer_delete t1 h4 = Inr (t2, h5)" "kfree (Ptr k) h5 = Inr h'"
      by (auto simp: filp_dev_def bufferTemperary_def newline_loop_iff Let_def andthen_eq_Inr_iff split: if_splits)
    moreover have "a < brk h3" using brk temp_add_brk [OF ad] by simp
    ultimately show ?thesis using evicts kfree_gone temp_gone(2) by blast
  qed
qed

text \<open>The first piece of a reader in the oldest entry, and what the slot holds after a line is stored.\<close>

lemma reader_finds:
  assumes "heap_ok h" "dev_ok d h" "private_data (r_file r)" "dev_log d h \<noteq> []" "unat (r_pos r) < length (hd (dev_log d h))"
  shows "read_step r RStart d h = Inr (RSize (unat (out_offs (circ_obj d))) (r_pos r))"
proof -
  have ok: "circ_ok (circ_obj d) h" "bufferCircular d = Some (circ_obj d)" "unat (out_offs (circ_obj d)) < 10"
    using assms(2) by (auto simp: dev_ok_def bufferCircular_def circ_ok_def)
  have "locate (dev_log d h) (unat (r_pos r)) = Some (0, unat (r_pos r))"
    using assms(4,5) by (cases "dev_log d h") simp_all
  then show ?thesis
    using find_fpos_spec [OF assms(1) ok(1), of "r_pos r" False] ok(2,3) assms(3)
    by (simp add: fpos_result_def dev_log_def filp_dev_def)
qed

lemma refilled_slot:
  assumes "dev_ok d' h'" "healthy d'" "dev_log d' h' = log_push log xs" "length log = 10" "xs \<noteq> []"
    and "out_offs (circ_obj d') = next_offs c" "unat c < 10"
  obtains a where "entry_at (circ_obj d') (unat c) = Inr \<lparr>e_buffptr = Ptr a, e_size = e_size (entry (circ_obj d') ! unat c)\<rparr>"
    "map_option length (blocks h' a) = Some (length xs)"
proof -
  let ?b = "circ_obj d'" and ?e = "entry (circ_obj d') ! unat c"
  have ok: "circ_ok ?b h'" "circ_dense ?b" "length (entry ?b) = 10" "entry_ok h' ?e"
    using assms(1,2,7) by (auto simp: dev_ok_def healthy_def circ_ok_def list_all_length)
  have log: "contents ?b h' = tl log @ [xs]" using assms(3,4) by (simp add: dev_log_def log_push_def)
  have "(unat c + 10 - (unat c + 1) mod 10) mod 10 = 9" using assms(7) by (cases "unat c = 9") (simp_all add: mod_if)
  then have "unat (e_size ?e) = length xs"
    using slot_size_dense [OF ok(1,2) assms(7)] log assms(4,6)
    by (simp add: slot_size_def unat_next_offs nth_append Let_def)
  moreover from this have "e_buffptr ?e \<noteq> NULL" using ok(4) assms(5) by (auto simp: entry_ok_def split: ptr.splits)
  then obtain a where "e_buffptr ?e = Ptr a" by (cases "e_buffptr ?e") auto
  ultimately show thesis
    using that [of a] ok(3,4) assms(7) by (auto simp: entry_ok_def entry_at_def split: option.splits)
qed

text \<open>One after the other, in either order, the reader and the writer do no harm.\<close>

lemma serial_read_write:
  assumes "heap_ok h" "dev_ok d h" "healthy d" "private_data (r_file r)" "private_data (j_file j)"
    and "j_count j = of_nat (length (j_user j))" "ample h (length (dev_pending d h) + 3 * length (j_user j))"
  shows "\<exists>ret xs pos d' h'. actors_run (replicate 4 0 @ replicate 7 1) ([Reader r RStart, Writer j WStart], d, h) =
      Inr ([Reader r (RDone ret xs pos), Writer j (WDone (Inr (j_count j)))], d', h') \<and> heap_ok h' \<and> dev_ok d' h'"
    and "\<exists>ret xs pos d' h'. actors_run (replicate 7 1 @ replicate 4 0) ([Reader r RStart, Writer j WStart], d, h) =
      Inr ([Reader r (RDone ret xs pos), Writer j (WDone (Inr (j_count j)))], d', h') \<and> heap_ok h' \<and> dev_ok d' h'"
proof -
  from write_one [OF assms(1,2,5,3,7)] obtain d' h' where
    w: "aesd_write d (j_file j) (j_user j) (j_count j) h = Inr (Inr (j_count j), d', h')" "heap_ok h'" "dev_ok d' h'"
    using assms(6) by (metis dev_step_def)
  have rd: "\<exists>ret xs pos. reader_run 4 r RStart d0 h0 = Inr (RDone ret xs pos)" if "heap_ok h0" "dev_ok d0 h0" for d0 h0
    unfolding read_alone aesd_read_spec [OF that assms(4)] by (simp add: Let_def)
  from rd [OF assms(1,2)] w
  show "\<exists>ret xs pos d' h'. actors_run (replicate 4 0 @ replicate 7 1) ([Reader r RStart, Writer j WStart], d, h) =
      Inr ([Reader r (RDone ret xs pos), Writer j (WDone (Inr (j_count j)))], d', h') \<and> heap_ok h' \<and> dev_ok d' h'"
    by (auto simp: actors_run_append actors_run_reader actors_run_writer write_alone simp del: reader_run.simps)
  from rd [OF w(2,3)] w
  show "\<exists>ret xs pos d' h'. actors_run (replicate 7 1 @ replicate 4 0) ([Reader r RStart, Writer j WStart], d, h) =
      Inr ([Reader r (RDone ret xs pos), Writer j (WDone (Inr (j_count j)))], d', h') \<and> heap_ok h' \<and> dev_ok d' h'"
    by (auto simp: actors_run_append actors_run_reader actors_run_writer write_alone simp del: reader_run.simps)
qed

text \<open>
  C36. The driver's reads are not safe against its writes: let the log be full, let a reader be at a
  byte of the oldest entry, and let a writer store a line, memory being available. One after the
  other, in either order, both succeed and leave a well-formed device. But when the reader has
  taken the pointer from its slot and the writer then stores its line, the reader copies from a
  block that the writer has freed. And when the writer stores a line that is shorter than the
  reader's offset after the reader has looked up its slot and before it reads the size, the size
  minus the offset wraps, and the reader copies from behind the end of the new block.
\<close>

theorem unlocked_read_race:
  assumes "heap_ok h" "dev_ok d h" "healthy d" "\<forall>k. grant h k" "private_data (r_file r)" "private_data (j_file j)"
    and "length (dev_log d h) = 10" "unat (r_pos r) < length (hd (dev_log d h))"
    and "j_count j = of_nat (length (j_user j))" "newline \<in> set (j_user j)"
    and "used h + length (dev_pending d h) + 3 * length (j_user j) \<le> PTRDIFF_MAX"
    and "s = ([Reader r RStart, Writer j WStart], d, h)"
  shows "actors_run (replicate 3 0 @ replicate 7 1 @ [0]) s = Inl UseAfterFree \<and>
    (length (dev_pending d h @ j_user j) < unat (r_pos r) \<longrightarrow>
      actors_run ([0] @ replicate 7 1 @ replicate 3 0) s = Inl OutOfBounds) \<and>
    (\<forall>sched\<in>{replicate 4 0 @ replicate 7 1, replicate 7 1 @ replicate 4 0}. \<exists>ret xs pos d' h'. actors_run sched s =
      Inr ([Reader r (RDone ret xs pos), Writer j (WDone (Inr (j_count j)))], d', h') \<and> heap_ok h' \<and> dev_ok d' h')"
proof (intro conjI impI)
  let ?b = "circ_obj d" and ?xs = "dev_pending d h @ j_user j"
  let ?o = "unat (out_offs ?b)"
  have am: "ample h (length (dev_pending d h) + 3 * length (j_user j))" using assms(4,11) by (simp add: ample_def)
  have ne: "dev_log d h \<noteq> []" "full ?b" using assms(7) healthy_full [OF assms(2,3)] by auto
  have n: "unat (j_count j) = length (j_user j)"
    unfolding assms(9) using assms(11) by (intro unat_of_nat_size) simp
  from oldest_entry [OF assms(1,2) ne(1)] obtain a where o: "?o < 10" "length (entry ?b) = 10"
    "e_buffptr (entry ?b ! ?o) = Ptr a" .
  from write_one [OF assms(1,2,6,3) am] obtain d' h' where
    w: "aesd_write d (j_file j) (j_user j) (j_count j) h = Inr (Inr (j_count j), d', h')" "dev_step d h d' h'" "healthy d'"
    "(dev_log d' h', dev_pending d' h') = spec_write (dev_log d h, dev_pending d h) (j_user j)"
    "out_offs (circ_obj d') = next_offs (out_offs ?b)"
    using assms(7,9,10) by metis
  have ok: "bufferCircular d = Some ?b" "bufferCircular d' = Some (circ_obj d')" "heap_ok h'" "dev_ok d' h'"
    using assms(2) w(2) by (auto simp: dev_ok_def bufferCircular_def dev_step_def)
  note find = reader_finds [OF assms(1,2,5) ne(1) assms(8)]
  note run = assms(12) actors_run_append actors_run_reader actors_run_writer write_alone w(1)
  have "gone a h'" using write_evicts [OF assms(1,2,6) _ _ w(1) ne(2,1) o(3)] n assms(10) by simp
  then show "actors_run (replicate 3 0 @ replicate 7 1 @ [0]) s = Inl UseAfterFree"
    using find ok(1) o by (simp add: run numeral_3_eq_3 circ_deref_def entry_at_def load_def gone_def
      del: read_step.simps(1) replicate_Suc)
  show "actors_run ([0] @ replicate 7 1 @ replicate 3 0) s = Inl OutOfBounds" if that: "length ?xs < unat (r_pos r)"
  proof -
    have "dev_log d' h' = log_push (dev_log d h) ?xs" using w(4) assms(10) by (simp add: spec_write_def)
    moreover have "?xs \<noteq> []" using assms(10) by auto
    ultimately obtain a' where
      e: "entry_at (circ_obj d') ?o = Inr \<lparr>e_buffptr = Ptr a', e_size = e_size (entry (circ_obj d') ! ?o)\<rparr>"
      "map_option length (blocks h' a') = Some (length ?xs)" using refilled_slot [OF ok(4) w(3) _ assms(7) _ w(5) o(1)] by metis
    from e(2) obtain bs where bs: "blocks h' a' = Some bs" "length bs = length ?xs" by auto
    then have "load (Ptr a') (unat (r_pos r)) m h' = Inl OutOfBounds" for m using that by (simp add: load_def)
    then have "reader_run 3 r (RSize ?o (r_pos r)) d' h' = Inl OutOfBounds"
      using e(1) ok(2) by (simp add: numeral_3_eq_3 circ_deref_def)
    then show ?thesis using find by (simp add: run del: read_step.simps reader_run.simps)
  qed
  show "\<forall>sched\<in>{replicate 4 0 @ replicate 7 1, replicate 7 1 @ replicate 4 0}. \<exists>ret xs pos d' h'. actors_run sched s =
      Inr ([Reader r (RDone ret xs pos), Writer j (WDone (Inr (j_count j)))], d', h') \<and> heap_ok h' \<and> dev_ok d' h'"
    using serial_read_write [OF assms(1-3,5,6,9) am, folded assms(12)] by blast
qed

definition sample_reader :: rjob where
  "sample_reader = \<lparr>r_file = opened, r_room = 512, r_count = 512, r_pos = 2\<rparr>"

theorem unlocked_read_race_witness:
  "actors_run (replicate 3 0 @ replicate 7 1 @ [0])
     ([Reader sample_reader RStart, Writer (sample_job [newline]) WStart], wrapped_dev, wrapped_heap) = Inl UseAfterFree \<and>
   actors_run ([0] @ replicate 7 1 @ replicate 3 0)
     ([Reader sample_reader RStart, Writer (sample_job [newline]) WStart], wrapped_dev, wrapped_heap) = Inl OutOfBounds"
proof -
  have p: "dev_pending wrapped_dev wrapped_heap = []"
    by (simp add: dev_pending_def wrapped_dev_def kbuf.init_ok)
  have a: "\<forall>k. grant wrapped_heap k" "private_data (r_file sample_reader)" "private_data (j_file (sample_job [newline]))"
    "length (dev_log wrapped_dev wrapped_heap) = 10" "unat (r_pos sample_reader) < length (hd (dev_log wrapped_dev wrapped_heap))"
    "j_count (sample_job [newline]) = of_nat (length (j_user (sample_job [newline])))" "newline \<in> set (j_user (sample_job [newline]))"
    by (simp_all add: wrapped_log sample_reader_def sample_job_def) (simp add: wrapped_heap_def)
  have u: "used wrapped_heap + length (dev_pending wrapped_dev wrapped_heap) + 3 * length (j_user (sample_job [newline])) \<le> PTRDIFF_MAX"
    unfolding p by (simp add: sample_job_def wrapped_heap_def PTRDIFF_MAX_def)
  have "length (dev_pending wrapped_dev wrapped_heap @ j_user (sample_job [newline])) < unat (r_pos sample_reader)"
    unfolding p by (simp add: sample_reader_def sample_job_def)
  with unlocked_read_race [OF wrapped_heap_ok wrapped_dev_ok wrapped_healthy a u refl] show ?thesis by blast
qed

end
