(* ===== verification/Device_File.thy ===== *)
theory Device_File
  imports Device_Log
begin

text \<open>
  How a program outside the kernel sees the device: the system calls as they reach the driver,
  and the streams of the C library on top of them. A device is a triple of the driver's
  structure, the open file and the kernel's heap.

  A stream keeps the bytes it has read ahead. Its read-ahead size \<open>bsz\<close> is a parameter (glibc
  takes it from the file's block size); so is the way \<open>fwrite\<close> and \<open>fclose\<close> split the bytes
  they hand to \<open>write\<close>. What a client relies on is the contract \<open>line_device\<close>: reads return a
  non-empty prefix of what follows the position until the end, writes act as \<open>spec_write\<close>.
\<close>

type_synonym kdevice = "aesd_dev \<times> filp \<times> heap"

text \<open>\<open>read(fd, buf, n)\<close> at a position: the bytes the caller gets and the new position.\<close>

fun sys_read :: "kdevice \<Rightarrow> size_t \<Rightarrow> loff_t \<Rightarrow> (errno + bytes \<times> loff_t) res" where
  "sys_read (d, f, h) n pos =
     andthen (aesd_read d f (unat n) n pos h) (\<lambda>(ret, xs, pos1).
       case ret of Inl e \<Rightarrow> Inr (Inl e) | Inr m \<Rightarrow> Inr (Inr (take (unat m) xs, pos1)))"

fun sys_write :: "kdevice \<Rightarrow> bytes \<Rightarrow> ((errno + size_t) \<times> kdevice) res" where
  "sys_write (d, f, h) xs =
     andthen (aesd_write d f xs (of_nat (length xs)) h) (\<lambda>(ret, d1, h1). Inr (ret, (d1, f, h1)))"

subsection \<open>Streams\<close>

record FILE =
  fl_pos :: loff_t
  fl_ahead :: bytes
  fl_eof :: bool
  fl_err :: bool

definition stream_at :: "loff_t \<Rightarrow> FILE" where
  "stream_at pos = \<lparr>fl_pos = pos, fl_ahead = [], fl_eof = False, fl_err = False\<rparr>"

text \<open>
  \<open>fread\<close> of \<open>want\<close> bytes: bytes read ahead first, then \<open>read\<close> until there are enough, the end
  of the file is seen or \<open>read\<close> fails. The end of file is remembered.
\<close>

function fread ::
    "('s \<Rightarrow> size_t \<Rightarrow> loff_t \<Rightarrow> (errno + bytes \<times> loff_t) res) \<Rightarrow> 's \<Rightarrow> size_t \<Rightarrow> nat \<Rightarrow> FILE \<Rightarrow> (bytes \<times> FILE) res" where
  "fread rd s bsz want fp =
     (if want = 0 then Inr ([], fp)
      else if fl_ahead fp \<noteq> [] then
        (let k = min want (length (fl_ahead fp)) in
         andthen (fread rd s bsz (want - k) (fp\<lparr>fl_ahead := drop k (fl_ahead fp)\<rparr>)) (\<lambda>(xs, fp1).
         Inr (take k (fl_ahead fp) @ xs, fp1)))
      else if fl_eof fp then Inr ([], fp)
      else
        andthen (rd s bsz (fl_pos fp)) (\<lambda>r.
          case r of
            Inl e \<Rightarrow> Inr ([], fp\<lparr>fl_err := True\<rparr>)
          | Inr (xs, pos1) \<Rightarrow>
              if xs = [] then Inr ([], fp\<lparr>fl_eof := True\<rparr>)
              else fread rd s bsz want (fp\<lparr>fl_pos := pos1, fl_ahead := xs\<rparr>)))"
  by pat_completeness auto
termination
  by (relation "measures [\<lambda>(rd, s, bsz, want, fp). want,
      \<lambda>(rd, s, bsz, want, fp). if fl_ahead fp = [] then 1 else 0]") auto

declare fread.simps [simp del]

text \<open>\<open>fwrite\<close> and \<open>fclose\<close> of bytes split into the given chunks; a failed \<open>write\<close> ends it.\<close>

fun write_chunks :: "('s \<Rightarrow> bytes \<Rightarrow> ((errno + size_t) \<times> 's) res) \<Rightarrow> 's \<Rightarrow> bytes list \<Rightarrow> 's res" where
  "write_chunks wr s [] = Inr s"
| "write_chunks wr s (c # cs) =
     andthen (wr s c) (\<lambda>(ret, s1). case ret of Inl e \<Rightarrow> Inr s1 | Inr _ \<Rightarrow> write_chunks wr s1 cs)"

subsection \<open>The contract of the device\<close>

locale byte_source =
  fixes rd :: "'s \<Rightarrow> size_t \<Rightarrow> loff_t \<Rightarrow> (errno + bytes \<times> loff_t) res"
    and data :: "'s \<Rightarrow> bytes"
    and ok :: "'s \<Rightarrow> bool"
  assumes data_fits: "ok s \<Longrightarrow> length (data s) \<le> PTRDIFF_MAX"
    and read_law: "ok s \<Longrightarrow> n \<noteq> 0 \<Longrightarrow>
      \<exists>xs zs. rd s n pos = Inr (Inr (xs, pos + of_nat (length xs))) \<and>
        drop (unat pos) (data s) = xs @ zs \<and> (xs = [] \<longleftrightarrow> length (data s) \<le> unat pos)"
begin

text \<open>What a stream has still to deliver.\<close>

definition remaining :: "'s \<Rightarrow> FILE \<Rightarrow> bytes" where
  "remaining s fp = fl_ahead fp @ drop (unat (fl_pos fp)) (data s)"

definition stream_ok :: "'s \<Rightarrow> FILE \<Rightarrow> bool" where
  "stream_ok s fp \<longleftrightarrow> \<not> fl_err fp \<and> (fl_eof fp \<longrightarrow> fl_ahead fp = [] \<and> length (data s) \<le> unat (fl_pos fp))"

lemma remaining_start: "remaining s (stream_at pos) = drop (unat pos) (data s)" "stream_ok s (stream_at pos)"
  by (simp_all add: remaining_def stream_ok_def stream_at_def)

lemma pos_advance:
  assumes "ok s" "drop (unat pos) (data s) = xs @ zs" "xs \<noteq> []"
  shows "drop (unat (pos + of_nat (length xs) :: loff_t)) (data s) = zs"
proof -
  have len: "length (data s) - unat pos = length xs + length zs"
    using arg_cong [OF assms(2), of length] by simp
  then have "unat (pos + of_nat (length xs)) = unat pos + length xs"
    using unat_pos_advance [of "length xs" "[data s]" pos] data_fits [OF assms(1)] assms(3) by simp
  moreover have "drop (length xs) (drop (unat pos) (data s)) = zs" using assms(2) by simp
  ultimately show ?thesis by (simp add: add.commute)
qed

lemma fread_spec:
  "ok s \<Longrightarrow> bsz \<noteq> 0 \<Longrightarrow> stream_ok s fp \<Longrightarrow>
   \<exists>fp'. fread rd s bsz want fp = Inr (take want (remaining s fp), fp') \<and> stream_ok s fp' \<and>
     remaining s fp' = drop want (remaining s fp) \<and> (length (remaining s fp) < want \<longrightarrow> fl_eof fp')"
proof (induction rd\<equiv>rd s bsz want fp rule: fread.induct)
  case (1 s bsz want fp)
  show ?case
  proof (cases "want = 0")
    case True
    then show ?thesis using 1 by (simp add: fread.simps)
  next
    case want: False
    show ?thesis
    proof (cases "fl_ahead fp = []")
      case False
      define k where "k = min want (length (fl_ahead fp))"
      let ?fp = "fp\<lparr>fl_ahead := drop k (fl_ahead fp)\<rparr>"
      have ok1: "stream_ok s ?fp" using "1.prems"(3) False by (auto simp: stream_ok_def)
      have rem: "remaining s fp = take k (fl_ahead fp) @ remaining s ?fp"
        by (simp add: remaining_def flip: append_assoc)
      have k: "length (take k (fl_ahead fp)) = k" "k \<le> want" by (simp_all add: k_def)
      from "1.hyps"(1) [OF want False k_def "1.prems"(1,2) ok1] obtain fp' where
        fp': "fread rd s bsz (want - k) ?fp = Inr (take (want - k) (remaining s ?fp), fp')"
        "stream_ok s fp'" "remaining s fp' = drop (want - k) (remaining s ?fp)"
        "length (remaining s ?fp) < want - k \<longrightarrow> fl_eof fp'" by blast
      have "fread rd s bsz want fp = Inr (take k (fl_ahead fp) @ take (want - k) (remaining s ?fp), fp')"
        using want False fp'(1) by (subst fread.simps) (simp add: Let_def flip: k_def)
      moreover have "take want (remaining s fp) = take k (fl_ahead fp) @ take (want - k) (remaining s ?fp)"
        "drop want (remaining s fp) = drop (want - k) (remaining s ?fp)"
        unfolding rem take_append drop_append k(1) using k by simp_all
      moreover have "length (remaining s fp) < want \<longrightarrow> fl_eof fp'"
        using fp'(4) k unfolding rem length_append by simp
      ultimately show ?thesis using fp' by simp
    next
      case True
      show ?thesis
      proof (cases "fl_eof fp")
        case eof: True
        with "1.prems"(3) True have "remaining s fp = []" by (simp add: stream_ok_def remaining_def)
        with want True eof "1.prems"(3) show ?thesis by (subst fread.simps) simp
      next
        case neof: False
        from read_law [OF "1.prems"(1,2), of "fl_pos fp"] obtain xs zs where
          rd: "rd s bsz (fl_pos fp) = Inr (Inr (xs, fl_pos fp + of_nat (length xs)))"
          "drop (unat (fl_pos fp)) (data s) = xs @ zs" "xs = [] \<longleftrightarrow> length (data s) \<le> unat (fl_pos fp)"
          by blast
        let ?fp = "fp\<lparr>fl_pos := fl_pos fp + of_nat (length xs), fl_ahead := xs\<rparr>"
        show ?thesis
        proof (cases "xs = []")
          case empty: True
          with rd want True neof "1.prems"(3) show ?thesis
            by (subst fread.simps) (auto simp: stream_ok_def remaining_def)
        next
          case ne: False
          have rem: "remaining s ?fp = remaining s fp"
            using pos_advance [OF "1.prems"(1) rd(2) ne] rd(2) True by (simp add: remaining_def)
          have ok1: "stream_ok s ?fp" using "1.prems"(3) neof by (simp add: stream_ok_def)
          have "fread rd s bsz want fp = fread rd s bsz want ?fp"
            using want True neof rd(1) ne by (subst fread.simps) simp
          with "1.hyps"(2) [OF want _ neof ne "1.prems"(1,2) ok1] True rem
          show ?thesis by simp
        qed
      qed
    qed
  qed
qed

end

text \<open>The base of the log after several writes.\<close>

fun bases :: "nat \<Rightarrow> bytes list \<times> bytes \<Rightarrow> bytes list \<Rightarrow> nat" where
  "bases b st [] = b"
| "bases b st (c # cs) = bases (next_base b (fst st) c) (spec_write st c) cs"

text \<open>
  A device that also takes lines. \<open>room\<close> bounds the memory the device can still take.
\<close>

locale line_device = byte_source rd "\<lambda>s. concat (log s)" ok
  for rd :: "'s \<Rightarrow> size_t \<Rightarrow> loff_t \<Rightarrow> (errno + bytes \<times> loff_t) res"
    and log :: "'s \<Rightarrow> bytes list" and ok :: "'s \<Rightarrow> bool" +
  fixes wr :: "'s \<Rightarrow> bytes \<Rightarrow> ((errno + size_t) \<times> 's) res"
    and pend :: "'s \<Rightarrow> bytes"
    and base :: "'s \<Rightarrow> nat"
    and room :: "'s \<Rightarrow> nat"
  assumes write_law: "ok s \<Longrightarrow> length (pend s) + 3 * length xs \<le> room s \<Longrightarrow>
      \<exists>s'. wr s xs = Inr (Inr (of_nat (length xs)), s') \<and> ok s' \<and> room s \<le> room s' + length xs \<and>
        (log s', pend s') = spec_write (log s, pend s) xs \<and> base s' = next_base (base s) (log s) xs"
begin

lemma write_chunks_spec:
  "ok s \<Longrightarrow> length (pend s) + 4 * length (concat cs) \<le> room s \<Longrightarrow>
   \<exists>s'. write_chunks wr s cs = Inr s' \<and> ok s' \<and> room s \<le> room s' + length (concat cs) \<and>
     (log s', pend s') = foldl spec_write (log s, pend s) cs \<and> base s' = bases (base s) (log s, pend s) cs"
proof (induction cs arbitrary: s)
  case (Cons c cs)
  from write_law [OF Cons.prems(1), of c] Cons.prems(2) obtain s1 where
    s1: "wr s c = Inr (Inr (of_nat (length c)), s1)" "ok s1" "room s \<le> room s1 + length c"
    "(log s1, pend s1) = spec_write (log s, pend s) c" "base s1 = next_base (base s) (log s) c" by auto
  have "length (pend s1) \<le> length (pend s) + length c"
    using spec_write_pending [of "(log s, pend s)" c] by (simp flip: s1(4))
  then have "length (pend s1) + 4 * length (concat cs) \<le> room s1" using Cons.prems(2) s1(3) by simp
  from Cons.IH [OF s1(2) this] s1 show ?case by fastforce
qed simp

text \<open>A line is stored as one entry, however the stream splits it.\<close>

lemma foldl_quiet: "(\<And>c. c \<in> set cs \<Longrightarrow> newline \<notin> set c) \<Longrightarrow> foldl spec_write (l, p) cs = (l, p @ concat cs)"
  by (induction cs arbitrary: p) (auto simp: spec_write_def)

lemma foldl_line:
  assumes "concat cs = line @ [newline]" "newline \<notin> set line"
  shows "foldl spec_write (l, p) cs = (log_push l (p @ line @ [newline]), [])"
  using assms
proof (induction cs arbitrary: line p)
  case (Cons c cs)
  show ?case
  proof (cases "newline \<in> set c")
    case False
    then have "\<exists>us. line = c @ us \<and> concat cs = us @ [newline]"
      using Cons.prems(1) by (auto simp: append_eq_append_conv2 append_eq_Cons_conv Cons_eq_append_conv)
    then obtain us where us: "line = c @ us" "concat cs = us @ [newline]" by blast
    with Cons.IH [of us "p @ c"] Cons.prems(2) False show ?thesis by (simp add: spec_write_def)
  next
    case True
    then have c: "c = line @ [newline]" "concat cs = []"
      using Cons.prems by (auto simp: append_eq_append_conv2 append_eq_Cons_conv Cons_eq_append_conv)
    have "foldl spec_write (log_push l (p @ c), []) cs = (log_push l (p @ c), [] @ concat cs)"
      using c(2) by (intro foldl_quiet) auto
    moreover have "spec_write (l, p) c = (log_push l (p @ c), [])" using True by (simp add: spec_write_def)
    ultimately show ?thesis using c by simp
  qed
qed simp

lemma write_line:
  assumes "ok s" "length (pend s) + 4 * Suc (length line) \<le> room s"
    and "concat cs = line @ [newline]" "newline \<notin> set line"
  shows "\<exists>s'. write_chunks wr s cs = Inr s' \<and> ok s' \<and> log s' = log_push (log s) (pend s @ line @ [newline]) \<and>
    pend s' = [] \<and> room s \<le> room s' + Suc (length line)"
  using write_chunks_spec [OF assms(1), of cs] assms(2) foldl_line [OF assms(3,4), of "log s" "pend s"]
  by (auto simp: assms(3))

end

subsection \<open>The driver meets the contract\<close>

text \<open>A healthy device on an open file, in a kernel that refuses no memory.\<close>

definition kernel_ok :: "kdevice \<Rightarrow> bool" where
  "kernel_ok s \<longleftrightarrow> (case s of (d, f, h) \<Rightarrow> heap_ok h \<and> dev_ok d h \<and> private_data f \<and> healthy d \<and> (\<forall>k. grant h k))"

definition kernel_log :: "kdevice \<Rightarrow> bytes list" where
  "kernel_log s = (case s of (d, f, h) \<Rightarrow> dev_log d h)"

definition kernel_pending :: "kdevice \<Rightarrow> bytes" where
  "kernel_pending s = (case s of (d, f, h) \<Rightarrow> dev_pending d h)"

definition kernel_base :: "kdevice \<Rightarrow> nat" where
  "kernel_base s = (case s of (d, f, h) \<Rightarrow> dev_base d)"

definition kernel_room :: "kdevice \<Rightarrow> nat" where
  "kernel_room s = (case s of (d, f, h) \<Rightarrow> PTRDIFF_MAX - used h)"

lemmas kernel_defs = kernel_ok_def kernel_log_def kernel_pending_def kernel_base_def kernel_room_def

lemma kernel_read:
  assumes "kernel_ok s" "n \<noteq> 0"
  shows "\<exists>xs zs. sys_read s n pos = Inr (Inr (xs, pos + of_nat (length xs))) \<and>
    drop (unat pos) (concat (kernel_log s)) = xs @ zs \<and>
    (xs = [] \<longleftrightarrow> length (concat (kernel_log s)) \<le> unat pos)"
proof -
  obtain d f h where s: "s = (d, f, h)" by (cases s)
  let ?xs = "log_read (dev_log d h) (unat pos) (unat n)"
  have ok: "heap_ok h" "dev_ok d h" "private_data f" using assms(1) s by (auto simp: kernel_ok_def)
  note len = log_read_length [of "dev_log d h" "unat pos" "unat n"]
  have "unat (of_nat (length ?xs) :: size_t) = length ?xs"
    using len(2) cindex.view_fits [OF ok(1), of "circ_obj d"] ok(2)
    by (intro unat_of_nat_size) (simp add: dev_ok_def dev_log_def)
  moreover obtain zs where "drop (unat pos) (concat (dev_log d h)) = ?xs @ zs" by (rule log_read_prefix)
  moreover have "unat n \<noteq> 0" using assms(2) by (simp add: unat_eq_zero)
  ultimately show ?thesis
    using len(1) log_read_Nil_iff [of "dev_log d h" "unat pos" "unat n"] s
    by (intro exI [of _ ?xs] exI [of _ zs]) (simp add: kernel_log_def aesd_read_spec [OF ok] Let_def)
qed

lemma kernel_write:
  assumes "kernel_ok s" "length (kernel_pending s) + 3 * length xs \<le> kernel_room s"
  shows "\<exists>s'. sys_write s xs = Inr (Inr (of_nat (length xs)), s') \<and> kernel_ok s' \<and>
    kernel_room s \<le> kernel_room s' + length xs \<and>
    (kernel_log s', kernel_pending s') = spec_write (kernel_log s, kernel_pending s) xs \<and>
    kernel_base s' = next_base (kernel_base s) (kernel_log s) xs"
proof -
  obtain d f h where s: "s = (d, f, h)" by (cases s)
  have ok: "heap_ok h" "dev_ok d h" "private_data f" "healthy d" "\<forall>k. grant h k" "used h \<le> PTRDIFF_MAX"
    using assms(1) s by (auto simp: kernel_ok_def heap_ok_def)
  have "ample h (length (dev_pending d h) + 3 * length xs)"
    using assms(2) ok(5,6) s by (simp add: ample_def kernel_defs)
  from write_one [OF ok(1-4) this] obtain d' h' where
    "aesd_write d f xs (of_nat (length xs)) h = Inr (Inr (of_nat (length xs)), d', h')"
    "dev_step d h d' h'" "healthy d'" "used h' \<le> used h + length xs"
    "(dev_log d' h', dev_pending d' h') = spec_write (dev_log d h, dev_pending d h) xs"
    "out_offs (circ_obj d') = (if newline \<in> set xs \<and> length (dev_log d h) = 10
       then next_offs (out_offs (circ_obj d)) else out_offs (circ_obj d))" by metis
  then show ?thesis using ok s by (auto simp: kernel_defs dev_step_def dev_base_def next_base_def unat_next_offs)
qed

interpretation kdev: line_device sys_read kernel_log kernel_ok sys_write kernel_pending kernel_base kernel_room
proof unfold_locales
  fix s
  assume "kernel_ok s"
  then show "length (concat (kernel_log s)) \<le> PTRDIFF_MAX"
    using cindex.view_fits by (auto simp: kernel_defs dev_ok_def dev_log_def)
qed (use kernel_read kernel_write in blast)+

end
