(* ===== verification/Server_Buffer.thy ===== *)
theory Server_Buffer
  imports Temperary_Buffer
begin

text \<open>
  The socket server's copy of the growing byte buffer,
  \<^verbatim>\<open>server/src/aesd_temperaty_buffer.c\<close>, on \<open>malloc\<close> and \<open>free\<close>. It is the second instance of
  the contract \<open>accumulator\<close>, so the server relies on the same laws as the driver.
\<close>

definition server_buffer_init :: "aesd_temperary_buffer" where
  "server_buffer_init = \<lparr>t_buffptr = NULL, t_size = 0\<rparr>"

definition server_buffer_clean ::
    "aesd_temperary_buffer \<Rightarrow> heap \<Rightarrow> (aesd_temperary_buffer \<times> heap) res" where
  "server_buffer_clean b h =
     (if NULL \<noteq> t_buffptr b
      then andthen (free (t_buffptr b) h) (\<lambda>h1. Inr (b\<lparr>t_buffptr := NULL, t_size := 0\<rparr>, h1))
      else Inr (b, h))"

definition server_buffer_is_empty :: "aesd_temperary_buffer \<Rightarrow> bool" where
  "server_buffer_is_empty b \<longleftrightarrow> t_buffptr b = NULL \<or> t_size b = 0"

definition server_buffer_add ::
    "aesd_temperary_buffer \<Rightarrow> ptr \<Rightarrow> size_t \<Rightarrow> heap \<Rightarrow> (bool \<times> aesd_temperary_buffer \<times> heap) res" where
  "server_buffer_add b data n h =
     (let buffptrLast = t_buffptr b in
      if buffptrLast = NULL then
        (case malloc n h of
           (NULL, h1) \<Rightarrow> Inr (False, b, h1)
         | (Ptr a, h1) \<Rightarrow>
             andthen (memcpy (Ptr a) 0 data 0 n h1) (\<lambda>h2.
             Inr (True, b\<lparr>t_buffptr := Ptr a, t_size := n\<rparr>, h2)))
      else
        (case malloc (t_size b + n) h of
           (NULL, h1) \<Rightarrow> Inr (False, b, h1)
         | (Ptr buffptrNew, h1) \<Rightarrow>
             andthen (memcpy (Ptr buffptrNew) 0 buffptrLast 0 (t_size b) h1) (\<lambda>h2.
             andthen (memcpy (Ptr buffptrNew) (unat (t_size b)) data 0 n h2) (\<lambda>h3.
             andthen (free buffptrLast h3) (\<lambda>h4.
             Inr (True, b\<lparr>t_buffptr := Ptr buffptrNew, t_size := t_size b + n\<rparr>, h4))))))"

definition server_buffer_delete ::
    "aesd_temperary_buffer \<Rightarrow> heap \<Rightarrow> (aesd_temperary_buffer \<times> heap) res" where
  "server_buffer_delete b h =
     (if NULL \<noteq> t_buffptr b
      then andthen (free (t_buffptr b) h) (\<lambda>h1. Inr (b\<lparr>t_buffptr := NULL, t_size := 0\<rparr>, h1))
      else Inr (b, h))"

subsection \<open>The two copies agree\<close>

lemma server_buffer_eq:
  "server_buffer_init = aesd_temperary_buffer_init" "server_buffer_clean = aesd_temperary_buffer_clean"
  "server_buffer_is_empty = aesd_temperary_buffer_is_empty"
  "server_buffer_add = aesd_temperary_buffer_add" "server_buffer_delete = aesd_temperary_buffer_delete"
  unfolding fun_eq_iff server_buffer_init_def aesd_temperary_buffer_init_def
    server_buffer_clean_def aesd_temperary_buffer_clean_def server_buffer_is_empty_def
    aesd_temperary_buffer_is_empty_def server_buffer_add_def aesd_temperary_buffer_add_def
    server_buffer_delete_def aesd_temperary_buffer_delete_def malloc_eq free_eq
  by simp_all

interpretation ubuf: accumulator server_buffer_init server_buffer_add server_buffer_is_empty
  server_buffer_clean temp_data temp_fp temp_ok
  unfolding server_buffer_eq by (rule kbuf.accumulator_axioms)

text \<open>
  What goes wrong outside the contract: added with the length \<open>(size_t) -1\<close> that a failed
  \<open>recv\<close> leaves, a buffer that holds data asks for one byte less than it has, and the copy of
  the old contents then leaves the new block.
\<close>

lemma server_buffer_add_minus_one:
  assumes "heap_ok h" "t_buffptr b = Ptr l" "blocks h l = Some ls" "length ls = unat (t_size b)"
    and "ls \<noteq> []" "kmalloc (t_size b - 1) h = (Ptr a, h1)"
  shows "server_buffer_add b data (- 1) h = Inl OutOfBounds"
proof -
  from kmalloc_Ptr [OF assms(6,1)] obtain ds where
    a: "blocks h a = None" "blocks h1 = (blocks h)(a \<mapsto> ds)" "length ds = unat (t_size b - 1)" by auto
  have "a \<noteq> l" using a(1) assms(3) by auto
  moreover have "t_size b \<noteq> 0" using assms(4,5) by auto
  then have "length ds = length ls - 1" using a(3) assms(4) by (simp add: unat_minus_one)
  then have "length ds < length ls" using assms(5) by (simp add: Suc_leI)
  ultimately have "memcpy (Ptr a) 0 (Ptr l) 0 (t_size b) h1 = Inl OutOfBounds"
    using a(2) assms(3,4) by (simp add: memcpy_def load_def store_def)
  with assms(2,6) show ?thesis by (simp add: server_buffer_add_def malloc_def)
qed

end
