(* ===== verification/Seek_Command.thy ===== *)
theory Seek_Command
  imports CMemory Ioctl
begin

text \<open>
  The string checks of the socket server (\<^verbatim>\<open>server/src/aesdsocket.c\<close>): search for a null
  character, search for a newline, and recognition of the seek command
  \<open>AESDCHAR_IOCSEEKTO:X,Y\<close>.

  The server calls \<open>strncmp\<close>, \<open>strstr\<close> and \<open>strtoul\<close> on a buffer that is not terminated by a
  null character. The string functions are modelled as their specification reads, byte by byte:
  each looks at bytes in order, stops at the first byte that decides the result, and needs the
  byte after the end of the block when nothing before it does; that access is the fault
  \<open>OutOfBounds\<close>. The C standard leaves the call undefined already when no null character follows, whatever
  byte decides; what is called well behaved here is that no byte outside the block is read, by functions
  that read in order. Memory at a pointer is the list of bytes from there to the end of its block.
\<close>

type_synonym ssize_t = int

definition bytes_at :: "ptr \<Rightarrow> heap \<Rightarrow> bytes res" where
  "bytes_at p h =
     (case p of NULL \<Rightarrow> Inl NullDeref
      | Ptr a \<Rightarrow> (case blocks h a of None \<Rightarrow> Inl UseAfterFree | Some bs \<Rightarrow> Inr bs))"

subsection \<open>Null characters and newlines\<close>

fun null_loop :: "bytes \<Rightarrow> nat \<Rightarrow> bool res" where
  "null_loop xs 0 = Inr False"
| "null_loop [] (Suc n) = Inl OutOfBounds"
| "null_loop (x # xs) (Suc n) = (if x = nul then Inr True else null_loop xs n)"

definition checkForNullCharInString :: "ptr \<Rightarrow> ssize_t \<Rightarrow> heap \<Rightarrow> bool res" where
  "checkForNullCharInString str len h =
     (if str = NULL \<or> len \<le> 0 then Inr True
      else andthen (bytes_at str h) (\<lambda>xs. null_loop xs (nat len)))"

fun newline_pos_loop :: "bytes \<Rightarrow> nat \<Rightarrow> nat \<Rightarrow> nat option res" where
  "newline_pos_loop xs 0 i = Inr None"
| "newline_pos_loop [] (Suc n) i = Inl OutOfBounds"
| "newline_pos_loop (x # xs) (Suc n) i = (if x = newline then Inr (Some i) else newline_pos_loop xs n (Suc i))"

text \<open>The result, and the value stored through \<open>newlinePosition\<close>, if any.\<close>

definition checkForNewlineCharInString :: "ptr \<Rightarrow> ssize_t \<Rightarrow> bool \<Rightarrow> heap \<Rightarrow> (bool \<times> ssize_t option) res" where
  "checkForNewlineCharInString str len pos_null h =
     (if str = NULL \<or> len \<le> 0 then Inr (True, None)
      else andthen (bytes_at str h) (\<lambda>xs.
           andthen (newline_pos_loop xs (nat len) 0) (\<lambda>r.
             case r of None \<Rightarrow> Inr (False, None)
             | Some i \<Rightarrow> Inr (True, if pos_null then None else Some (int i)))))"

subsection \<open>The string functions of the C library\<close>

text \<open>The second argument is a string literal, with its terminating null character.\<close>

fun strncmp :: "bytes \<Rightarrow> bytes \<Rightarrow> nat \<Rightarrow> int res" where
  "strncmp xs ys 0 = Inr 0"
| "strncmp (x # xs) (y # ys) (Suc n) =
     (if x \<noteq> y then Inr (of_char x - of_char y) else if x = nul then Inr 0 else strncmp xs ys n)"
| "strncmp _ _ (Suc n) = Inl OutOfBounds"

text \<open>Whether the literal occurs at the start, and the offset of its first occurrence.\<close>

fun match_at :: "bytes \<Rightarrow> bytes \<Rightarrow> bool res" where
  "match_at xs [] = Inr True"
| "match_at [] (y # ys) = Inl OutOfBounds"
| "match_at (x # xs) (y # ys) = (if x = y then match_at xs ys else Inr False)"

fun strstr :: "bytes \<Rightarrow> bytes \<Rightarrow> nat option res" where
  "strstr [] ys = Inl OutOfBounds"
| "strstr (x # xs) ys =
     andthen (match_at (x # xs) ys) (\<lambda>b.
       if b then Inr (Some 0)
       else if x = nul then Inr None
       else andthen (strstr xs ys) (\<lambda>r. Inr (map_option Suc r)))"

definition isspace :: "char \<Rightarrow> bool" where
  "isspace c \<longleftrightarrow> c = CHR '' '' \<or> (9 \<le> (of_char c :: nat) \<and> (of_char c :: nat) \<le> 13)"

definition isdigit :: "char \<Rightarrow> bool" where
  "isdigit c \<longleftrightarrow> 48 \<le> (of_char c :: nat) \<and> (of_char c :: nat) \<le> 57"

fun skip_space :: "bytes \<Rightarrow> nat res" where
  "skip_space [] = Inl OutOfBounds"
| "skip_space (c # cs) = (if isspace c then andthen (skip_space cs) (\<lambda>n. Inr (Suc n)) else Inr 0)"

text \<open>The value of the leading digits, and their number.\<close>

fun digit_loop :: "bytes \<Rightarrow> nat \<Rightarrow> nat \<Rightarrow> (nat \<times> nat) res" where
  "digit_loop [] v k = Inl OutOfBounds"
| "digit_loop (c # cs) v k =
     (if isdigit c then digit_loop cs (10 * v + (of_char c - 48)) (Suc k) else Inr (v, k))"

text \<open>
  \<open>strtoul(p, &end, 10)\<close>: the value and \<open>end - p\<close>, which is 0 when there is no number. A value
  that does not fit is \<open>ULONG_MAX\<close>; a minus sign negates modulo 2 to the 64.
\<close>

definition strtoul :: "bytes \<Rightarrow> (64 word \<times> nat) res" where
  "strtoul xs =
     andthen (skip_space xs) (\<lambda>s.
     let ys = drop s xs;
         neg = (hd ys = CHR ''-'');
         sg = (if neg \<or> hd ys = CHR ''+'' then 1 else 0)
     in andthen (digit_loop (drop sg ys) 0 0) (\<lambda>(v, k).
          if k = 0 then Inr (0, 0)
          else Inr (if 2 ^ 64 \<le> v then - 1 else if neg then - of_nat v else of_nat v, s + sg + k)))"

subsection \<open>The seek command\<close>

definition SEEK_CMD_PREFIX :: bytes where "SEEK_CMD_PREFIX = ''AESDCHAR_IOCSEEKTO:''"

definition checkForCommandInString ::
    "ptr \<Rightarrow> size_t \<Rightarrow> aesd_seekto \<Rightarrow> heap \<Rightarrow> (bool \<times> aesd_seekto) res" where
  "checkForCommandInString buffer sz command h =
     (let prefixLen = length SEEK_CMD_PREFIX in
      if buffer = NULL \<or> sz = 0 then Inr (False, command)
      else if unat sz < prefixLen then Inr (False, command)
      else
        andthen (bytes_at buffer h) (\<lambda>xs.
        andthen (strncmp xs (SEEK_CMD_PREFIX @ [nul]) prefixLen) (\<lambda>cmp.
        if cmp \<noteq> 0 then Inr (False, command)
        else
          andthen (strstr xs SEEK_CMD_PREFIX) (\<lambda>cmdPosition.
          case cmdPosition of
            None \<Rightarrow> Inr (False, command)
          | Some p1 \<Rightarrow>
              let cmdFirstArg = p1 + prefixLen in
              andthen (strtoul (drop cmdFirstArg xs)) (\<lambda>(commandValue, end1).
              if end1 = 0 then Inr (False, command)
              else
                andthen (strstr xs '','') (\<lambda>pos2.
                case pos2 of
                  None \<Rightarrow> Inr (False, command)
                | Some p2 \<Rightarrow>
                    let cmdSecondArg = p2 + 1 in
                    andthen (strtoul (drop cmdSecondArg xs)) (\<lambda>(offsetValue, end2).
                    if end2 = 0 then Inr (False, command)
                    else Inr (True, command\<lparr>write_cmd := ucast commandValue,
                                            write_cmd_offset := ucast offsetValue\<rparr>))))))))"

subsection \<open>Correctness of the searches\<close>

lemma null_loop_spec: "n \<le> length xs \<Longrightarrow> null_loop xs n = Inr (nul \<in> set (take n xs))"
  by (induction xs n rule: null_loop.induct) auto

lemma newline_pos_loop_spec:
  "n \<le> length xs \<Longrightarrow> newline_pos_loop xs n i =
     Inr (if newline \<in> set (take n xs) then Some (i + length (takeWhile (\<lambda>c. c \<noteq> newline) xs)) else None)"
  by (induction xs n i rule: newline_pos_loop.induct) auto

lemma checkForNewline_spec:
  assumes "blocks h a = Some xs" "0 < len" "nat len \<le> length xs"
  shows "checkForNewlineCharInString (Ptr a) len False h =
    Inr (if newline \<in> set (take (nat len) xs)
      then (True, Some (int (length (takeWhile (\<lambda>c. c \<noteq> newline) xs)))) else (False, None))"
  using assms by (simp add: checkForNewlineCharInString_def bytes_at_def newline_pos_loop_spec)

lemma checkForNull_spec:
  "blocks h a = Some xs \<Longrightarrow> 0 < len \<Longrightarrow> nat len \<le> length xs \<Longrightarrow>
   checkForNullCharInString (Ptr a) len h = Inr (nul \<in> set (take (nat len) xs))"
  by (simp add: checkForNullCharInString_def bytes_at_def null_loop_spec)

subsection \<open>Correctness of the string functions\<close>

lemma match_at_append: "match_at (ys @ xs) ys = Inr True"
  by (induction ys) auto

lemma strstr_start: "ys \<noteq> [] \<Longrightarrow> strstr (ys @ xs) ys = Inr (Some 0)"
  using match_at_append [of ys xs] by (cases ys) simp_all

lemma strstr_char:
  "c \<notin> set zs \<Longrightarrow> nul \<notin> set zs \<Longrightarrow> strstr (zs @ c # xs) [c] = Inr (Some (length zs))"
  by (induction zs) auto

lemma strstr_char_overrun: "c \<notin> set zs \<Longrightarrow> nul \<notin> set zs \<Longrightarrow> strstr zs [c] = Inl OutOfBounds"
  by (induction zs) auto

lemma strncmp_prefix: "nul \<notin> set ys \<Longrightarrow> strncmp (ys @ xs) (ys @ zs) (length ys) = Inr 0"
  by (induction ys) auto

lemma of_char_diff: "x \<noteq> y \<Longrightarrow> (of_char x - of_char y :: int) \<noteq> 0"
  by (simp add: of_char_eq_iff)

lemma strncmp_differs:
  "length ys \<le> length xs \<Longrightarrow> nul \<notin> set ys \<Longrightarrow> take (length ys) xs \<noteq> ys \<Longrightarrow>
   \<exists>c. c \<noteq> 0 \<and> strncmp xs (ys @ zs) (length ys) = Inr c"
proof (induction ys arbitrary: xs)
  case (Cons y ys)
  then obtain x xs' where "xs = x # xs'" by (cases xs) auto
  with Cons of_char_diff [of x y] show ?case by (cases "x = y") auto
qed simp

subsection \<open>Decimal numbers\<close>

text \<open>The decimal digits of a number, as \<open>printf("%u")\<close> writes them.\<close>

definition digit_char :: "nat \<Rightarrow> char" where
  "digit_char n = char_of (48 + n)"

fun dec :: "nat \<Rightarrow> bytes" where
  "dec n = (if n < 10 then [digit_char n] else dec (n div 10) @ [digit_char (n mod 10)])"

declare dec.simps [simp del]

lemma dec_small: "n < 10 \<Longrightarrow> dec n = [digit_char n]"
  by (subst dec.simps) simp

lemma digit_char_val: "n < 10 \<Longrightarrow> of_char (digit_char n) = 48 + n"
  by (simp add: digit_char_def)

lemma digit_char_isdigit: "n < 10 \<Longrightarrow> isdigit (digit_char n)"
  by (simp add: isdigit_def digit_char_val)

lemma dec_digits: "\<forall>c\<in>set (dec n). isdigit c"
  by (induction n rule: dec.induct) (subst dec.simps, auto simp: digit_char_isdigit)

lemma dec_not_Nil: "dec n \<noteq> []"
  by (subst dec.simps) simp

lemma isdigit_not:
  "isdigit c \<Longrightarrow> c \<noteq> nul \<and> c \<noteq> CHR '','' \<and> c \<noteq> CHR ''-'' \<and> c \<noteq> CHR ''+'' \<and> \<not> isspace c"
  by (auto simp: isdigit_def isspace_def)

lemma digit_loop_dec: "digit_loop (dec n @ xs) v k = digit_loop xs (v * 10 ^ length (dec n) + n) (k + length (dec n))"
proof (induction n arbitrary: xs v k rule: dec.induct)
  case (1 n)
  show ?case
  proof (cases "n < 10")
    case True
    then have "dec n = [digit_char n]" by (subst dec.simps) simp
    with True show ?thesis by (simp add: digit_char_isdigit digit_char_val mult.commute)
  next
    case False
    then have d: "dec n = dec (n div 10) @ [digit_char (n mod 10)]" by (subst dec.simps) simp
    have "10 * (v * 10 ^ length (dec (n div 10)) + n div 10) + n mod 10 =
        v * 10 ^ length (dec n) + n" by (simp add: d algebra_simps)
    with 1 [OF False] d show ?thesis by (simp add: digit_char_isdigit digit_char_val algebra_simps)
  qed
qed

text \<open>\<open>strtoul\<close> reads back what was printed, up to the first byte that is no digit.\<close>

lemma strtoul_dec:
  assumes "n < 2 ^ 64" "\<not> isdigit y"
  shows "strtoul (dec n @ y # ys) = Inr (of_nat n, length (dec n))"
proof -
  obtain c cs where c: "dec n = c # cs" using dec_not_Nil [of n] by (cases "dec n") auto
  then have d: "isdigit c" using dec_digits [of n] by simp
  have "digit_loop (dec n @ y # ys) 0 0 = Inr (n, length (dec n))"
    using assms(2) by (simp add: digit_loop_dec)
  with c isdigit_not [OF d] assms(1) show ?thesis by (simp add: strtoul_def)
qed

text \<open>A number that reaches the end of the block makes \<open>strtoul\<close> read on behind it.\<close>

lemma strtoul_dec_overrun: "strtoul (dec n) = Inl OutOfBounds"
proof -
  obtain c cs where c: "dec n = c # cs" using dec_not_Nil [of n] by (cases "dec n") auto
  then have d: "isdigit c" using dec_digits [of n] by simp
  have "digit_loop (dec n) 0 0 = Inl OutOfBounds" using digit_loop_dec [of n "[]" 0 0] by simp
  with c isdigit_not [OF d] show ?thesis by (simp add: strtoul_def)
qed

subsection \<open>Correctness of the seek command\<close>

lemma prefix_chars: "nul \<notin> set SEEK_CMD_PREFIX" "CHR '','' \<notin> set SEEK_CMD_PREFIX"
  "SEEK_CMD_PREFIX \<noteq> []" "length SEEK_CMD_PREFIX = 19"
  by (simp_all add: SEEK_CMD_PREFIX_def)

lemma ucast_of_nat_32: "ucast (of_nat n :: 64 word) = (of_nat n :: u32)"
  by (rule bit_word_eqI) (auto simp: bit_simps)

text \<open>The decimal arguments are read back, truncated to 32 bits.\<close>

lemma command_parsed:
  assumes "blocks h a = Some (SEEK_CMD_PREFIX @ dec c @ CHR '','' # dec k @ y # ys)"
    and "unat sz = length (SEEK_CMD_PREFIX @ dec c @ CHR '','' # dec k @ y # ys)"
    and "c < 2 ^ 64" "k < 2 ^ 64" "\<not> isdigit y"
  shows "checkForCommandInString (Ptr a) sz s h =
    Inr (True, s\<lparr>write_cmd := of_nat c, write_cmd_offset := of_nat k\<rparr>)"
proof -
  let ?xs = "SEEK_CMD_PREFIX @ dec c @ CHR '','' # dec k @ y # ys"
  have sz: "19 \<le> unat sz" "sz \<noteq> 0" using assms(2) by (auto simp: prefix_chars)
  have "strncmp ?xs (SEEK_CMD_PREFIX @ [nul]) 19 = Inr 0"
    using strncmp_prefix [OF prefix_chars(1)] by (simp add: prefix_chars)
  moreover have "strstr ?xs SEEK_CMD_PREFIX = Inr (Some 0)" by (simp add: strstr_start prefix_chars)
  moreover have "strtoul (drop 19 ?xs) = Inr (of_nat c, length (dec c))"
    using strtoul_dec [OF assms(3), of "CHR '',''"] by (simp add: prefix_chars isdigit_def)
  moreover have "nul \<notin> set (dec c)" "CHR '','' \<notin> set (dec c)"
    using dec_digits [of c] isdigit_not by auto
  then have "strstr ?xs '','' = Inr (Some (19 + length (dec c)))"
    using strstr_char [of "CHR '',''" "SEEK_CMD_PREFIX @ dec c" "dec k @ y # ys"]
    by (simp add: prefix_chars)
  moreover have "strtoul (drop (Suc (19 + length (dec c))) ?xs) = Inr (of_nat k, length (dec k))"
    using strtoul_dec [OF assms(4,5), of ys] by (simp add: prefix_chars)
  ultimately show ?thesis
    using assms(1) sz dec_not_Nil
    by (simp add: checkForCommandInString_def prefix_chars bytes_at_def ucast_of_nat_32)
qed

lemma command_not_recognised:
  assumes "blocks h a = Some xs" "unat sz \<le> length xs" "take 19 xs \<noteq> SEEK_CMD_PREFIX"
  shows "checkForCommandInString (Ptr a) sz s h = Inr (False, s)"
proof (cases "unat sz < 19")
  case False
  then obtain c where "c \<noteq> 0" "strncmp xs (SEEK_CMD_PREFIX @ [nul]) 19 = Inr c"
    using strncmp_differs [of SEEK_CMD_PREFIX xs "[nul]"] assms prefix_chars by auto
  with False assms(1) show ?thesis by (simp add: checkForCommandInString_def prefix_chars bytes_at_def)
qed (simp add: checkForCommandInString_def prefix_chars)

text \<open>
  Malformed commands that are not rejected but read behind the end of the buffer: no comma
  after the first number, and no number before the end of the line after the comma.
\<close>

lemma command_without_comma:
  assumes "blocks h a = Some (SEEK_CMD_PREFIX @ dec c @ [newline])" "19 \<le> unat sz" "c < 2 ^ 64"
  shows "checkForCommandInString (Ptr a) sz s h = Inl OutOfBounds"
proof -
  let ?xs = "SEEK_CMD_PREFIX @ dec c @ [newline]"
  have "strncmp ?xs (SEEK_CMD_PREFIX @ [nul]) 19 = Inr 0"
    using strncmp_prefix [OF prefix_chars(1)] by (simp add: prefix_chars)
  moreover have "strstr ?xs SEEK_CMD_PREFIX = Inr (Some 0)" by (simp add: strstr_start prefix_chars)
  moreover have "strtoul (drop 19 ?xs) = Inr (of_nat c, length (dec c))"
    using strtoul_dec [OF assms(3), of newline "[]"] by (simp add: prefix_chars isdigit_def)
  moreover have "nul \<notin> set (dec c)" "CHR '','' \<notin> set (dec c)"
    using dec_digits [of c] isdigit_not by auto
  then have "strstr ?xs '','' = Inl OutOfBounds"
    by (intro strstr_char_overrun) (simp_all add: prefix_chars)
  moreover have "sz \<noteq> 0" using assms(2) by auto
  ultimately show ?thesis
    using assms(1,2) dec_not_Nil by (simp add: checkForCommandInString_def prefix_chars bytes_at_def)
qed

subsection \<open>Properties of the command parser\<close>

text \<open>
  C22. Round trip: a command printed as prefix, decimal number, comma, decimal number and a byte
  that is no digit is recognised, and the numbers read back are the ones printed, as long as
  they fit in 32 bits.
\<close>

theorem seek_command_roundtrip:
  assumes "blocks h a = Some (SEEK_CMD_PREFIX @ dec c @ CHR '','' # dec k @ y # ys)"
    and "unat sz = length (SEEK_CMD_PREFIX @ dec c @ CHR '','' # dec k @ y # ys)"
    and "c < 2 ^ 32" "k < 2 ^ 32" "\<not> isdigit y"
  shows "\<exists>s'. checkForCommandInString (Ptr a) sz s h = Inr (True, s') \<and>
    unat (write_cmd s') = c \<and> unat (write_cmd_offset s') = k"
proof -
  have "c < 2 ^ 64" "k < 2 ^ 64" using assms(3,4) by simp_all
  from command_parsed [OF assms(1,2) this assms(5), of s] assms(3,4) show ?thesis
    by (simp add: unat_of_nat)
qed

theorem seek_command_roundtrip_witness:
  "\<exists>s'. checkForCommandInString (Ptr 0) 23 \<lparr>write_cmd = 0, write_cmd_offset = 0\<rparr>
      (block_heap (''AESDCHAR_IOCSEEKTO:'' @ ''2,5'' @ [newline]) (\<lambda>_. True)) = Inr (True, s') \<and>
    unat (write_cmd s') = 2 \<and> unat (write_cmd_offset s') = 5"
proof -
  have d: "dec 2 = ''2''" "dec 5 = ''5''" by (simp_all add: dec_small digit_char_def char_of_def bit_0)
  show ?thesis
    using seek_command_roundtrip [of "block_heap (''AESDCHAR_IOCSEEKTO:'' @ ''2,5'' @ [newline]) (\<lambda>_. True)" 0 2 5 newline "[]" 23
        "\<lparr>write_cmd = 0, write_cmd_offset = 0\<rparr>"]
    by (simp add: d SEEK_CMD_PREFIX_def isdigit_def)
qed

text \<open>
  C23. Data that does not begin with the command's prefix is never taken for a command: the check
  returns false, leaves the command as it was and reads nothing outside the buffer.
\<close>

theorem seek_command_rejected:
  assumes "blocks h a = Some xs" "unat sz \<le> length xs" "take 19 xs \<noteq> SEEK_CMD_PREFIX"
  shows "checkForCommandInString (Ptr a) sz s h = Inr (False, s)"
  by (rule command_not_recognised [OF assms])

theorem seek_command_rejected_witness:
  "checkForCommandInString (Ptr 0) 6 \<lparr>write_cmd = 0, write_cmd_offset = 0\<rparr> (block_heap (''hello'' @ [newline]) (\<lambda>_. True)) =
     Inr (False, \<lparr>write_cmd = 0, write_cmd_offset = 0\<rparr>)"
  using seek_command_rejected [of "block_heap (''hello'' @ [newline]) (\<lambda>_. True)" 0 "''hello'' @ [newline]" 6]
  by (simp add: SEEK_CMD_PREFIX_def)

text \<open>
  C24. A command line without a comma is not rejected: the search for the comma runs past the end
  of the buffer, which is not terminated by a null character.
\<close>

theorem seek_command_overrun:
  assumes "blocks h a = Some (SEEK_CMD_PREFIX @ dec c @ [newline])" "19 \<le> unat sz" "c < 2 ^ 64"
  shows "checkForCommandInString (Ptr a) sz s h = Inl OutOfBounds"
  by (rule command_without_comma [OF assms])

theorem seek_command_overrun_witness:
  "checkForCommandInString (Ptr 0) 21 \<lparr>write_cmd = 0, write_cmd_offset = 0\<rparr>
     (block_heap (''AESDCHAR_IOCSEEKTO:'' @ ''2'' @ [newline]) (\<lambda>_. True)) = Inl OutOfBounds"
proof -
  have d: "dec 2 = ''2''" by (simp add: dec_small digit_char_def char_of_def bit_0)
  show ?thesis
    using seek_command_overrun [of "block_heap (''AESDCHAR_IOCSEEKTO:'' @ ''2'' @ [newline]) (\<lambda>_. True)" 0 2 21]
    by (simp add: d SEEK_CMD_PREFIX_def)
qed

text \<open>
  The newline search over the first \<open>len\<close> bytes of a block reports whether there is one among
  them, and stores the position of the first.
\<close>

lemma newline_search_correct:
  assumes "blocks h a = Some xs" "0 < len" "nat len \<le> length xs"
  shows "checkForNewlineCharInString (Ptr a) len False h =
    (if \<exists>i<nat len. xs ! i = newline
     then Inr (True, Some (int (LEAST i. i < length xs \<and> xs ! i = newline))) else Inr (False, None))"
proof -
  let ?n = "length (takeWhile (\<lambda>c. c \<noteq> newline) xs)"
  have ex: "newline \<in> set (take (nat len) xs) \<longleftrightarrow> (\<exists>i<nat len. xs ! i = newline)"
    using assms(3) by (auto simp: in_set_conv_nth)
  have "(LEAST i. i < length xs \<and> xs ! i = newline) = ?n" if some: "\<exists>i<nat len. xs ! i = newline"
  proof (rule Least_equality)
    obtain i where "i < nat len" "xs ! i = newline" using some by blast
    then have "newline \<in> set xs" using assms(3) by (metis nth_mem order_less_le_trans)
    then have "takeWhile (\<lambda>c. c \<noteq> newline) xs \<noteq> xs" by (auto simp: takeWhile_eq_all_conv)
    then have "?n < length xs" by (metis le_neq_implies_less length_takeWhile_le takeWhile_eq_take take_all_iff order_refl)
    then show "?n < length xs \<and> xs ! ?n = newline" using nth_length_takeWhile [of "\<lambda>c. c \<noteq> newline" xs] by simp
    show "?n \<le> i" if "i < length xs \<and> xs ! i = newline" for i
      using that by (metis (mono_tags, lifting) leI nth_mem set_takeWhileD takeWhile_nth)
  qed
  with ex checkForNewline_spec [OF assms] show ?thesis by simp
qed

end
