(* ===== verification/Client_Handler.thy ===== *)
theory Client_Handler
  imports Device_File Server_Buffer Seek_Command
begin

text \<open>
  The thread of the socket server that serves one connection, \<open>clientHandler\<close> of
  \<^verbatim>\<open>server/src/aesdsocket.c\<close>, built with \<open>USE_AESD_CHAR_DEVICE\<close>. What does not depend on that
  choice (receiving, collecting, the section under the mutex, the send loop, cleaning up) is
  defined for both builds: the definitions take what the preprocessor selects as arguments and work
  on every extension of \<open>world\<close>, so that \<^verbatim>\<open>File_Server\<close> uses them for the other build.

  The state is the client's (\<open>client\<close>: its descriptor, its \<open>clientData\<close> block, its collected
  bytes) and the part of the world the thread touches (\<open>world\<close>: the heap of the server process,
  the device in the kernel, the file mutex, the bytes passed to \<open>send\<close>). What the operating
  system answers during one iteration of the loop is a \<open>turn\<close>. One iteration either goes on,
  leaves the loop, calls \<open>logAndExit\<close>, waits for the mutex, or is still in its send loop when the
  fuel for that loop is used up; undefined behaviour is a fault. The section under the mutex is
  one step, since every access of the server to the device is under it.
\<close>

definition BUFFER_SIZE :: nat where "BUFFER_SIZE = 512"

record world =
  uheap :: heap
  kdevice :: aesd_dev
  kheap :: heap
  fileMutex :: bool
  outbox :: "bytes list"

record client =
  newSockFd :: int
  clientPtr :: ptr
  bufferString :: aesd_temperary_buffer
  closes :: nat

record turn =
  poll_ret :: int
  pipe_ready :: bool
  sock_ready :: bool
  received :: "bytes option"
  open_first :: bool
  open_second :: bool
  split :: "bytes \<Rightarrow> bytes list"
  ahead :: size_t
  send_fuel :: nat

datatype control = Loop | Break | LogExit string | Blocked | Spinning

type_synonym 'w handled = "(control \<times> client \<times> 'w world_scheme) res"

subsection \<open>Receiving\<close>

text \<open>
  \<open>recv\<close> into the zeroed buffer, the terminating null character, the copy into the collected
  bytes, and the release of the buffer. A failed \<open>recv\<close> (\<open>None\<close>) returns \<open>-1\<close>, which the call
  of \<open>aesd_temperary_buffer_add\<close> converts to \<open>size_t\<close>.
\<close>

definition recvLen :: "bytes option \<Rightarrow> ssize_t" where
  "recvLen data = (case data of None \<Rightarrow> - 1 | Some xs \<Rightarrow> int (length xs))"

definition recv_and_add ::
    "bytes option \<Rightarrow> ptr \<Rightarrow> aesd_temperary_buffer \<Rightarrow> heap \<Rightarrow> (bool \<times> aesd_temperary_buffer \<times> heap) res" where
  "recv_and_add data buffer b h =
     andthen (case data of None \<Rightarrow> Inr h | Some xs \<Rightarrow> store buffer 0 xs h) (\<lambda>h1.
     andthen (if 0 \<le> recvLen data \<and> recvLen data < int BUFFER_SIZE
              then store buffer (nat (recvLen data)) [nul] h1 else Inr h1) (\<lambda>h2.
     andthen (server_buffer_add b buffer (of_int (recvLen data)) h2) (\<lambda>(ok, b1, h3).
     andthen (free buffer h3) (\<lambda>h4. Inr (ok, b1, h4)))))"

subsection \<open>The loop that sends the device's contents\<close>

text \<open>
  Each round reads up to 512 bytes and passes them to \<open>send\<close>; a round that gets none ends the
  loop, with \<open>True\<close> at the end of the file and \<open>False\<close> after a failed read.
\<close>

fun send_loop ::
    "nat \<Rightarrow> ('s \<Rightarrow> size_t \<Rightarrow> loff_t \<Rightarrow> (errno + bytes \<times> loff_t) res) \<Rightarrow> 's \<Rightarrow> size_t \<Rightarrow> FILE \<Rightarrow> (bool \<times> bytes list) option res" where
  "send_loop 0 rd s bsz fptr = Inr None"
| "send_loop (Suc n) rd s bsz fptr =
     andthen (fread rd s bsz BUFFER_SIZE fptr) (\<lambda>(bufferSend, fptr1).
       if bufferSend = [] then Inr (Some (fl_eof fptr1, []))
       else andthen (send_loop n rd s bsz fptr1) (\<lambda>r.
              Inr (map_option (\<lambda>(eof, ys). (eof, bufferSend # ys)) r)))"

text \<open>A device file just opened; a failed \<open>fopen\<close> is not checked and its result dereferenced.\<close>

definition fopen_device :: "bool \<Rightarrow> world \<Rightarrow> kdevice res" where
  "fopen_device success w =
     (if success then Inr (kdevice w, snd (aesd_open \<lparr>f_pos = 0, private_data = False\<rparr>), kheap w)
      else Inl NullDeref)"

definition send_contents ::
    "('s \<Rightarrow> size_t \<Rightarrow> loff_t \<Rightarrow> (errno + bytes \<times> loff_t) res) \<Rightarrow> turn \<Rightarrow> 's \<Rightarrow> loff_t \<Rightarrow> client \<Rightarrow> 'w world_scheme \<Rightarrow> 'w handled" where
  "send_contents rd t s pos c w =
     andthen (send_loop (send_fuel t) rd s (ahead t) (stream_at pos)) (\<lambda>r.
       case r of
         None \<Rightarrow> Inr (Spinning, c, w)
       | Some (eof, xs) \<Rightarrow>
           Inr (if eof then Loop else LogExit ''Failed to read from file'', c, w\<lparr>outbox := outbox w @ xs\<rparr>))"

subsection \<open>A complete packet\<close>

definition serve_command :: "turn \<Rightarrow> aesd_seekto \<Rightarrow> client \<Rightarrow> world \<Rightarrow> unit handled" where
  "serve_command t command c w =
     andthen (fopen_device (open_first t) w) (\<lambda>(d, f, kh).
     andthen (aesd_ioctl d f server_AESDCHAR_IOCSEEKTO (Some command)) (\<lambda>(ret, f1).
       case ret of
         Inl e \<Rightarrow>
           andthen (server_buffer_clean (bufferString c) (uheap w)) (\<lambda>(b, uh).
           Inr (LogExit ''Failed to seek in file'', c\<lparr>bufferString := b\<rparr>,
                w\<lparr>fileMutex := False, uheap := uh\<rparr>))
       | Inr _ \<Rightarrow> send_contents sys_read t (d, f1, kh) (f_pos f1) c w))"

definition serve_line :: "turn \<Rightarrow> client \<Rightarrow> world \<Rightarrow> unit handled" where
  "serve_line t c w =
     andthen (load (t_buffptr (bufferString c)) 0 (unat (t_size (bufferString c))) (uheap w)) (\<lambda>data.
     andthen (fopen_device (open_first t) w) (\<lambda>s.
     andthen (write_chunks sys_write s (split t data)) (\<lambda>(d1, f1, kh1).
     let w1 = w\<lparr>kdevice := d1, kheap := kh1\<rparr> in
     andthen (fopen_device (open_second t) w1) (\<lambda>s1. send_contents sys_read t s1 0 c w1))))"

text \<open>
  The section under the mutex, with what it does for a command and for a line, and the lock before
  it.
\<close>

definition locked_section ::
    "(turn \<Rightarrow> aesd_seekto \<Rightarrow> client \<Rightarrow> 'w world_scheme \<Rightarrow> 'w handled) \<Rightarrow>
     (turn \<Rightarrow> client \<Rightarrow> 'w world_scheme \<Rightarrow> 'w handled) \<Rightarrow> turn \<Rightarrow> client \<Rightarrow> 'w world_scheme \<Rightarrow> 'w handled" where
  "locked_section on_command on_line t c w =
     andthen (checkForCommandInString (t_buffptr (bufferString c)) (t_size (bufferString c))
                \<lparr>write_cmd = 0, write_cmd_offset = 0\<rparr> (uheap w)) (\<lambda>(isCommand, command).
     andthen (if isCommand then on_command t command c w else on_line t c w) (\<lambda>(ctl, c2, w2).
       if ctl = Loop then
         andthen (server_buffer_clean (bufferString c2) (uheap w2)) (\<lambda>(b2, uh2).
         Inr (Loop, c2\<lparr>bufferString := b2\<rparr>, w2\<lparr>fileMutex := False, uheap := uh2\<rparr>))
       else Inr (ctl, c2, w2)))"

definition packet_section ::
    "(turn \<Rightarrow> aesd_seekto \<Rightarrow> client \<Rightarrow> 'w world_scheme \<Rightarrow> 'w handled) \<Rightarrow>
     (turn \<Rightarrow> client \<Rightarrow> 'w world_scheme \<Rightarrow> 'w handled) \<Rightarrow> turn \<Rightarrow> client \<Rightarrow> 'w world_scheme \<Rightarrow> 'w handled" where
  "packet_section on_command on_line t c w =
     (if fileMutex w then Inr (Blocked, c, w)
      else locked_section on_command on_line t c (w\<lparr>fileMutex := True\<rparr>))"

definition packet_turn :: "turn \<Rightarrow> client \<Rightarrow> world \<Rightarrow> unit handled" where
  "packet_turn = packet_section serve_command serve_line"

subsection \<open>One iteration and the whole thread\<close>

definition receive_turn ::
    "(turn \<Rightarrow> client \<Rightarrow> 'w world_scheme \<Rightarrow> 'w handled) \<Rightarrow> turn \<Rightarrow> ptr \<Rightarrow> client \<Rightarrow> 'w world_scheme \<Rightarrow> 'w handled" where
  "receive_turn packet t buffer c w =
     (let data = map_option (take (BUFFER_SIZE - 1)) (received t); len = recvLen data in
      andthen (recv_and_add data buffer (bufferString c) (uheap w)) (\<lambda>(ok, b1, uh1).
      let c1 = c\<lparr>bufferString := b1\<rparr>; w1 = w\<lparr>uheap := uh1\<rparr> in
      if ok = False then Inr (LogExit ''Failed to add data to temporary buffer'', c1, w1)
      else if len < 0 then
        andthen (server_buffer_clean b1 uh1) (\<lambda>(b2, uh2).
        Inr (LogExit ''Failed to receive data'', c1\<lparr>bufferString := b2\<rparr>, w1\<lparr>uheap := uh2\<rparr>))
      else if len = 0 then
        andthen (server_buffer_clean b1 uh1) (\<lambda>(b2, uh2).
        Inr (Break, c1\<lparr>bufferString := b2, closes := Suc (closes c1)\<rparr>, w1\<lparr>uheap := uh2\<rparr>))
      else
        andthen (checkForNullCharInString (t_buffptr b1) len uh1) (\<lambda>_.
        andthen (checkForNewlineCharInString (t_buffptr b1) len False uh1) (\<lambda>(found, newlinePosition).
        if found then packet t c1 w1 else Inr (Loop, c1, w1)))))"

definition client_turn ::
    "(turn \<Rightarrow> client \<Rightarrow> 'w world_scheme \<Rightarrow> 'w handled) \<Rightarrow> turn \<Rightarrow> client \<Rightarrow> 'w world_scheme \<Rightarrow> 'w handled" where
  "client_turn packet t c w =
     (case calloc (of_nat BUFFER_SIZE) 1 (uheap w) of
        (NULL, uh) \<Rightarrow> Inr (LogExit ''Failed to allocate memory for buffer'', c, w\<lparr>uheap := uh\<rparr>)
      | (Ptr buffer, uh) \<Rightarrow>
          let w1 = w\<lparr>uheap := uh\<rparr> in
          if poll_ret t = - 1 then Inr (Break, c, w1)
          else if pipe_ready t then Inr (Break, c, w1)
          else if sock_ready t then receive_turn packet t (Ptr buffer) c w1
          else Inr (Loop, c, w1))"

definition clientHandler_turn :: "turn \<Rightarrow> client \<Rightarrow> world \<Rightarrow> unit handled" where
  "clientHandler_turn = client_turn packet_turn"

text \<open>The loop over the turns that come; \<open>Loop\<close> at the end means that the thread goes on.\<close>

fun clientHandler_loop :: "turn list \<Rightarrow> client \<Rightarrow> world \<Rightarrow> unit handled" where
  "clientHandler_loop [] c w = Inr (Loop, c, w)"
| "clientHandler_loop (t # ts) c w =
     andthen (clientHandler_turn t c w) (\<lambda>(ctl, c1, w1).
       if ctl = Loop then clientHandler_loop ts c1 w1 else Inr (ctl, c1, w1))"

definition cleanupClientHandler :: "client \<Rightarrow> 'w world_scheme \<Rightarrow> (client \<times> 'w world_scheme) res" where
  "cleanupClientHandler c w =
     andthen (server_buffer_clean (bufferString c) (uheap w)) (\<lambda>(b1, uh1).
     if clientPtr c = NULL then Inl NullDeref
     else
       let c1 = c\<lparr>bufferString := b1, closes := (if newSockFd c > 0 then Suc (closes c) else closes c)\<rparr> in
       andthen (free (clientPtr c) uh1) (\<lambda>uh2.
       Inr (c1\<lparr>clientPtr := NULL\<rparr>, w\<lparr>uheap := uh2\<rparr>)))"

definition clientHandler :: "int \<Rightarrow> ptr \<Rightarrow> turn list \<Rightarrow> world \<Rightarrow> unit handled" where
  "clientHandler fd clientData ts w =
     andthen (clientHandler_loop ts
       \<lparr>newSockFd = fd, clientPtr = clientData, bufferString = server_buffer_init, closes = 0\<rparr> w) (\<lambda>(ctl, c1, w1).
       if ctl = Break then andthen (cleanupClientHandler c1 w1) (\<lambda>(c2, w2). Inr (Break, c2, w2))
       else Inr (ctl, c1, w1))"

subsection \<open>The send loop\<close>

context byte_source
begin

text \<open>The loop ends, and what it sends is all that remains, in pieces of at most 512 bytes.\<close>

lemma send_loop_spec:
  "ok s \<Longrightarrow> bsz \<noteq> 0 \<Longrightarrow> stream_ok s fp \<Longrightarrow> length (remaining s fp) < fuel \<Longrightarrow>
   \<exists>xs. send_loop fuel rd s bsz fp = Inr (Some (True, xs)) \<and> concat xs = remaining s fp \<and>
     (\<forall>x\<in>set xs. x \<noteq> [] \<and> length x \<le> BUFFER_SIZE)"
proof (induction fuel arbitrary: fp)
  case (Suc fuel)
  from fread_spec [OF Suc.prems(1-3), of BUFFER_SIZE] obtain fp' where
    fp': "fread rd s bsz BUFFER_SIZE fp = Inr (take BUFFER_SIZE (remaining s fp), fp')" "stream_ok s fp'"
    "remaining s fp' = drop BUFFER_SIZE (remaining s fp)"
    "length (remaining s fp) < BUFFER_SIZE \<longrightarrow> fl_eof fp'" by blast
  have b: "0 < BUFFER_SIZE" by (simp add: BUFFER_SIZE_def)
  show ?case
  proof (cases "remaining s fp = []")
    case True
    with fp'(1,4) b show ?thesis by simp
  next
    case False
    then have "length (remaining s fp') < length (remaining s fp)" using fp'(3) b by (simp add: length_drop)
    then have "length (remaining s fp') < fuel" using Suc.prems(4) by simp
    from Suc.IH [OF Suc.prems(1,2) fp'(2) this] obtain xs where
      "send_loop fuel rd s bsz fp' = Inr (Some (True, xs))" "concat xs = remaining s fp'"
      "\<forall>x\<in>set xs. x \<noteq> [] \<and> length x \<le> BUFFER_SIZE" by blast
    moreover have "take BUFFER_SIZE (remaining s fp) \<noteq> []" using False b by simp
    ultimately show ?thesis using fp'(1,3) by simp
  qed
qed simp

text \<open>Sending the contents from a position.\<close>

lemma send_contents_spec:
  assumes "ok s" "ahead t \<noteq> 0" "length (data s) < send_fuel t"
  shows "\<exists>xs. send_contents rd t s pos c w = Inr (Loop, c, w\<lparr>outbox := outbox w @ xs\<rparr>) \<and>
    concat xs = drop (unat pos) (data s)"
proof -
  have "length (remaining s (stream_at pos)) < send_fuel t"
    using assms(3) by (simp add: remaining_start)
  from send_loop_spec [OF assms(1,2) remaining_start(2) this] show ?thesis
    by (auto simp: send_contents_def remaining_start)
qed

end

subsection \<open>Receiving into the collected bytes\<close>

definition recv_post ::
    "bytes \<Rightarrow> nat \<Rightarrow> aesd_temperary_buffer \<Rightarrow> heap \<Rightarrow> bool \<Rightarrow> aesd_temperary_buffer \<Rightarrow> heap \<Rightarrow> bool" where
  "recv_post xs k b u r b' u' \<longleftrightarrow> heap_ok u' \<and> temp_ok b' u' \<and> grant u' = grant u \<and>
     blocks u' |` (- temp_fp b') = ((blocks u)(k := None)) |` (- temp_fp b) \<and>
     (if r then temp_data b' u' = temp_data b u @ xs
      else b' = b \<and> temp_data b' u' = temp_data b u) \<and>
     ((\<forall>i. grant u i) \<and> used u + length (temp_data b u) + length xs \<le> PTRDIFF_MAX \<longrightarrow> r)"

lemma recv_filled:
  assumes "heap_ok u" "blocks u k = Some (replicate BUFFER_SIZE nul)" "length xs < BUFFER_SIZE"
  obtains u1 u2 bs where "store (Ptr k) 0 xs u = Inr u1" "store (Ptr k) (length xs) [nul] u1 = Inr u2"
    "heap_ok u2" "grant u2 = grant u" "blocks u2 = (blocks u)(k \<mapsto> bs)" "take (length xs) bs = xs"
    "length bs = BUFFER_SIZE"
proof -
  from store_block [OF assms(1,2), of 0 xs] assms(3) obtain u1 where
    u1: "store (Ptr k) 0 xs u = Inr u1" "heap_ok u1" "grant u1 = grant u"
    "blocks u1 = (blocks u)(k \<mapsto> xs @ replicate (BUFFER_SIZE - length xs) nul)" by auto
  let ?bs = "xs @ replicate (BUFFER_SIZE - length xs) nul"
  from store_block [OF u1(2), of k ?bs "length xs" "[nul]"] u1(4) assms(3) obtain u2 where
    u2: "store (Ptr k) (length xs) [nul] u1 = Inr u2" "heap_ok u2" "grant u2 = grant u1"
    "blocks u2 = (blocks u1)(k \<mapsto> take (length xs) ?bs @ [nul] @ drop (length xs + length [nul]) ?bs)" by auto
  show thesis
    by (rule that [OF u1(1) u2(1,2), of "take (length xs) ?bs @ [nul] @ drop (length xs + 1) ?bs"])
      (use u1 u2 assms(3) in auto)
qed

lemma recv_and_add_spec:
  assumes "heap_ok u" "temp_ok b u" "blocks u k = Some (replicate BUFFER_SIZE nul)" "k \<notin> temp_fp b"
    and "length xs < BUFFER_SIZE"
  shows "\<exists>r b' u'. recv_and_add (Some xs) (Ptr k) b u = Inr (r, b', u') \<and> recv_post xs k b u r b' u'"
proof -
  from recv_filled [OF assms(1,3,5)] obtain u1 u2 bs where
    st: "store (Ptr k) 0 xs u = Inr u1" "store (Ptr k) (length xs) [nul] u1 = Inr u2"
    and u2: "heap_ok u2" "grant u2 = grant u" "blocks u2 = (blocks u)(k \<mapsto> bs)" "take (length xs) bs = xs"
      "length bs = BUFFER_SIZE" .
  have same: "temp_ok b u2 = temp_ok b u" "temp_data b u2 = temp_data b u"
    using temp_frame_upd [OF assms(4) u2(3)] by simp_all
  have used: "used u2 = used u"
    using assms(1,3) u2 blocksum_replace [of "blocks u" k "replicate BUFFER_SIZE nul" bs]
    by (simp add: heap_ok_def)
  have n: "unat (of_nat (length xs) :: size_t) = length xs"
    using assms(5) by (intro unat_of_nat_size) (simp add: BUFFER_SIZE_def PTRDIFF_MAX_def)
  have k: "blocks u2 k = Some bs" "length xs \<le> length bs" using u2(3,5) assms(5) by auto
  have bok: "temp_ok b u2" using same(1) assms(2) by simp
  have kn: "unat (of_nat (length xs) :: size_t) \<le> length bs" using n k(2) by simp
  from ubuf.add_spec [OF u2(1) bok k(1) kn assms(4), unfolded n]
  obtain r b' u3 where add: "server_buffer_add b (Ptr k) (of_nat (length xs)) u2 = Inr (r, b', u3)"
    "heap_ok u3" "temp_ok b' u3" "k \<notin> temp_fp b'" "grant u3 = grant u2"
    "blocks u3 |` (- temp_fp b') = blocks u2 |` (- temp_fp b)"
    "if r then temp_data b' u3 = temp_data b u2 @ take (length xs) bs \<and> used u3 = used u2 + length xs
     else b' = b \<and> blocks u3 = blocks u2 \<and> used u3 = used u2"
    "(\<forall>i. grant u2 i) \<and> used u2 + length (temp_data b u2) + length xs \<le> PTRDIFF_MAX \<longrightarrow> r"
    by blast
  have "blocks u3 k = Some bs" using restrict_eq_outside [OF add(6) assms(4) add(4)] k(1) by simp
  from kfree_Ptr [OF add(2) this] obtain u4 where u4: "kfree (Ptr k) u3 = Inr u4" "heap_ok u4"
    "blocks u4 = (blocks u3)(k := None)" "grant u4 = grant u3" .
  have fr: "temp_ok b' u4 = temp_ok b' u3" "temp_data b' u4 = temp_data b' u3"
    using temp_frame_upd [OF add(4) u4(3)] by simp_all
  have "blocks u4 |` (- temp_fp b') = (blocks u3 |` (- temp_fp b'))(k := None)"
    unfolding u4(3) by (auto simp: restrict_map_def)
  also have "\<dots> = ((blocks u)(k := None)) |` (- temp_fp b)"
    unfolding add(6) u2(3) by (auto simp: restrict_map_def)
  finally have out: "blocks u4 |` (- temp_fp b') = ((blocks u)(k := None)) |` (- temp_fp b)" .
  have dat: "if r then temp_data b' u4 = temp_data b u @ xs else b' = b \<and> temp_data b' u4 = temp_data b u"
    using add(7) fr(2) same(2) u2(4) temp_frame(2) [of b u3 u2] by (cases r) auto
  have "recv_and_add (Some xs) (Ptr k) b u = Inr (r, b', u4)"
    using st add(1) u4(1) assms(5) by (simp add: recv_and_add_def recvLen_def free_eq)
  moreover have "recv_post xs k b u r b' u4"
    using u4 add fr out dat u2(2) used same(2) by (simp add: recv_post_def)
  ultimately show ?thesis by blast
qed

subsection \<open>A turn that receives data\<close>

text \<open>The turns in which \<open>poll\<close> reports data on the socket and nothing on the pipe.\<close>

definition data_turn :: "turn \<Rightarrow> bytes \<Rightarrow> bool" where
  "data_turn t xs \<longleftrightarrow> poll_ret t \<noteq> - 1 \<and> \<not> pipe_ready t \<and> sock_ready t \<and> received t = Some xs \<and>
     0 < length xs \<and> length xs < BUFFER_SIZE"

definition collected :: "client \<Rightarrow> 'w world_scheme \<Rightarrow> bytes" where
  "collected c w = temp_data (bufferString c) (uheap w)"

definition client_ok :: "client \<Rightarrow> 'w world_scheme \<Rightarrow> bool" where
  "client_ok c w \<longleftrightarrow> heap_ok (uheap w) \<and> temp_ok (bufferString c) (uheap w)"

text \<open>The server's memory outside the collected bytes.\<close>

definition other_blocks :: "client \<Rightarrow> 'w world_scheme \<Rightarrow> nat \<Rightarrow> bytes option" where
  "other_blocks c w = blocks (uheap w) |` (- temp_fp (bufferString c))"

lemma calloc_ample:
  assumes "heap_ok u" "ample u n" "BUFFER_SIZE \<le> n"
  obtains k u' where "calloc (of_nat BUFFER_SIZE) 1 u = (Ptr k, u')" "heap_ok u'" "grant u' = grant u"
    "blocks u k = None" "blocks u' = (blocks u)(k \<mapsto> replicate BUFFER_SIZE nul)"
    "used u' = used u + BUFFER_SIZE"
proof -
  obtain p u' where al: "calloc (of_nat BUFFER_SIZE) 1 u = (p, u')" by fastforce
  have "p \<noteq> NULL"
    using al assms(2,3)
    by (auto simp: calloc_def kmalloc_def Let_def ample_def BUFFER_SIZE_def split: if_splits)
  then obtain k where k: "p = Ptr k" by (cases p) auto
  note c = calloc_Ptr [OF al [unfolded k] assms(1)]
  have bl: "blocks u' = (blocks u)(k \<mapsto> replicate BUFFER_SIZE nul)"
    using c(4) by (simp add: BUFFER_SIZE_def)
  have "used u' = used u + BUFFER_SIZE" using used_of_blocks [OF assms(1) c(1) bl c(3)] by simp
  with that al k c(1-3) bl show thesis by blast
qed

lemma turn_received:
  assumes "client_ok c w" "data_turn t xs" "ample (uheap w) (BUFFER_SIZE + length (collected c w) + length xs)"
  obtains c1 w1 where
    "client_turn packet t c w =
       (if newline \<in> set (take (length xs) (collected c w @ xs)) then packet t c1 w1 else Inr (Loop, c1, w1))"
    "client_ok c1 w1" "collected c1 w1 = collected c w @ xs" "other_blocks c1 w1 = other_blocks c w"
    "w1 = w\<lparr>uheap := uheap w1\<rparr>" "c1 = c\<lparr>bufferString := bufferString c1\<rparr>"
    "grant (uheap w1) = grant (uheap w)"
proof -
  let ?b = "bufferString c" and ?u = "uheap w"
  have ok: "heap_ok ?u" "temp_ok ?b ?u" using assms(1) by (auto simp: client_ok_def)
  from calloc_ample [OF ok(1) assms(3)] obtain k u1 where
    al: "calloc (of_nat BUFFER_SIZE) 1 ?u = (Ptr k, u1)" "heap_ok u1" "grant u1 = grant ?u"
    "blocks ?u k = None" "blocks u1 = (blocks ?u)(k \<mapsto> replicate BUFFER_SIZE nul)"
    "used u1 = used ?u + BUFFER_SIZE" by auto
  have k: "k \<notin> temp_fp ?b" using temp_ok_fp_live [OF ok(2)] al(4) by auto
  have same: "temp_ok ?b u1 = temp_ok ?b ?u" "temp_data ?b u1 = temp_data ?b ?u"
    using temp_frame_upd [OF k al(5)] by simp_all
  have len: "0 < length xs" "length xs < BUFFER_SIZE" using assms(2) by (auto simp: data_turn_def)
  have kb: "blocks u1 k = Some (replicate BUFFER_SIZE nul)" using al(5) by simp
  from recv_and_add_spec [OF al(2) _ kb k len(2)] same ok(2) obtain r b1 u2 where
    rv: "recv_and_add (Some xs) (Ptr k) ?b u1 = Inr (r, b1, u2)" "recv_post xs k ?b u1 r b1 u2" by auto
  have r: "r"
    using rv(2) assms(3) al(3,6) same(2) by (simp add: recv_post_def ample_def collected_def add.assoc)
  with rv(2) have p: "heap_ok u2" "temp_ok b1 u2" "grant u2 = grant ?u"
    "temp_data b1 u2 = collected c w @ xs"
    using al(3) same(2) by (auto simp: recv_post_def collected_def)
  have "(blocks u1)(k := None) = blocks ?u" using al(4,5) by auto
  then have fr: "blocks u2 |` (- temp_fp b1) = blocks ?u |` (- temp_fp ?b)"
    using rv(2) by (simp add: recv_post_def)
  obtain a bs where a: "t_buffptr b1 = Ptr a" "blocks u2 a = Some bs"
    using p(2,4) len(1) by (cases rule: temp_ok_cases) (auto simp: temp_data_def)
  then have bs: "bs = collected c w @ xs" using p(4) by (simp add: temp_data_def)
  have nl: "checkForNewlineCharInString (t_buffptr b1) (int (length xs)) False u2 =
      Inr (if newline \<in> set (take (length xs) bs)
        then (True, Some (int (length (takeWhile (\<lambda>c. c \<noteq> newline) bs)))) else (False, None))"
    using checkForNewline_spec [OF a(2), of "int (length xs)"] len(1) a(1) bs by simp
  have nu: "checkForNullCharInString (t_buffptr b1) (int (length xs)) u2 = Inr (nul \<in> set (take (length xs) bs))"
    using checkForNull_spec [OF a(2), of "int (length xs)"] len(1) a(1) bs by simp
  let ?c = "c\<lparr>bufferString := b1\<rparr>" and ?w = "w\<lparr>uheap := u2\<rparr>"
  have tk: "take (BUFFER_SIZE - Suc 0) xs = xs" using len(2) by simp
  have "client_turn packet t c w = receive_turn packet t (Ptr k) c (w\<lparr>uheap := u1\<rparr>)"
    using assms(2) al(1) by (simp add: client_turn_def data_turn_def)
  also have "\<dots> = (if newline \<in> set (take (length xs) bs) then packet t ?c ?w else Inr (Loop, ?c, ?w))"
    using assms(2) rv(1) r nl nu len(1) tk
    by (simp add: receive_turn_def data_turn_def Let_def recvLen_def)
  finally show thesis
    using that [of ?c ?w] p fr bs by (simp add: client_ok_def collected_def other_blocks_def)
qed

subsection \<open>A turn that completes a packet\<close>

lemma kernel_reopen: "kernel_ok (d, f, h) \<Longrightarrow> kernel_ok (d, opened, h)"
  by (auto simp: kernel_ok_def)

lemma fopen_opened: "fopen_device True w = Inr (kdevice w, opened, kheap w)"
  by (simp add: fopen_device_def opened_def)

lemma collected_block:
  assumes "client_ok c w" "collected c w \<noteq> []"
  obtains a where "t_buffptr (bufferString c) = Ptr a" "blocks (uheap w) a = Some (collected c w)"
    "unat (t_size (bufferString c)) = length (collected c w)"
proof -
  from assms(1) have "temp_ok (bufferString c) (uheap w)" by (simp add: client_ok_def)
  then show thesis
    using assms(2) that by (cases rule: temp_ok_cases) (auto simp: collected_def temp_data_def)
qed

text \<open>Cleaning the collected bytes gives back their block and nothing else.\<close>

lemma clean_collected:
  assumes "client_ok c w"
  obtains u where "server_buffer_clean (bufferString c) (uheap w) = Inr (server_buffer_init, u)" "heap_ok u"
    "grant u = grant (uheap w)" "blocks u = other_blocks c w"
  using ubuf.clean_spec [of "uheap w" "bufferString c"] assms that
  by (auto simp: client_ok_def other_blocks_def)

text \<open>What a served packet leaves behind: nothing collected, no memory, no mutex.\<close>

definition released :: "client \<Rightarrow> 'w world_scheme \<Rightarrow> client \<Rightarrow> 'w world_scheme \<Rightarrow> bool" where
  "released c w c' w' \<longleftrightarrow> c' = c\<lparr>bufferString := server_buffer_init\<rparr> \<and> heap_ok (uheap w') \<and>
     blocks (uheap w') = other_blocks c w \<and> grant (uheap w') = grant (uheap w) \<and> \<not> fileMutex w'"

lemma released_ok:
  assumes "released c w c' w'"
  shows "client_ok c' w'" "collected c' w' = []" "other_blocks c' w' = other_blocks c w"
    "bufferString c' = server_buffer_init" "closes c' = closes c" "newSockFd c' = newSockFd c"
    "clientPtr c' = clientPtr c" "\<not> fileMutex w'" "grant (uheap w') = grant (uheap w)"
  using assms ubuf.init_ok by (auto simp: released_def client_ok_def collected_def other_blocks_def)

lemma released_through:
  assumes "released c1 w1 c' w'" "c1 = c\<lparr>bufferString := bufferString c1\<rparr>"
    and "other_blocks c1 w1 = other_blocks c w" "grant (uheap w1) = grant (uheap w)"
  shows "released c w c' w'"
proof -
  have "c1\<lparr>bufferString := server_buffer_init\<rparr> = c\<lparr>bufferString := server_buffer_init\<rparr>"
    by (subst assms(2)) simp
  with assms show ?thesis by (simp add: released_def)
qed

lemma section_of_packet:
  assumes "fileMutex w"
  shows "locked_section on_command on_line t c w = packet_section on_command on_line t c (w\<lparr>fileMutex := False\<rparr>)"
proof -
  have "w\<lparr>fileMutex := True\<rparr> = w" using assms by (cases w) simp
  then show ?thesis by (simp add: packet_section_def)
qed

lemma released_unlocked: "released c (w\<lparr>fileMutex := b\<rparr>) c' w' = released c w c' w'"
  by (simp add: released_def other_blocks_def)

lemma packet_released:
  assumes "client_ok c w" "\<not> fileMutex w"
    and "checkForCommandInString (t_buffptr (bufferString c)) (t_size (bufferString c))
           \<lparr>write_cmd = 0, write_cmd_offset = 0\<rparr> (uheap w) = Inr (is, s)"
    and "(if is then on_command t s c (w\<lparr>fileMutex := True\<rparr>) else on_line t c (w\<lparr>fileMutex := True\<rparr>)) =
           Inr (Loop, c, w2)" "uheap w2 = uheap w"
  obtains c' u where "packet_section on_command on_line t c w = Inr (Loop, c', w2\<lparr>fileMutex := False, uheap := u\<rparr>)"
    "released c w c' (w2\<lparr>fileMutex := False, uheap := u\<rparr>)"
proof -
  from clean_collected [OF assms(1)] obtain u where
    u: "server_buffer_clean (bufferString c) (uheap w) = Inr (server_buffer_init, u)" "heap_ok u"
    "grant u = grant (uheap w)" "blocks u = other_blocks c w" .
  have "packet_section on_command on_line t c w = Inr (Loop, c\<lparr>bufferString := server_buffer_init\<rparr>, w2\<lparr>fileMutex := False, uheap := u\<rparr>)"
    using assms(2-5) u(1) by (simp add: packet_section_def locked_section_def)
  moreover have "released c w (c\<lparr>bufferString := server_buffer_init\<rparr>) (w2\<lparr>fileMutex := False, uheap := u\<rparr>)"
    using u by (simp add: released_def)
  ultimately show thesis using that by blast
qed

lemma log_push_size: "length (concat (log_push l x)) \<le> length (concat l) + length x"
  by (cases l) (auto simp: log_push_def)

lemma spec_write_size: "length (concat (fst (spec_write st x))) + length (snd (spec_write st x)) \<le>
    length (concat (fst st)) + length (snd st) + length x"
  using log_push_size [of "fst st" "snd st @ x"] by (auto simp: spec_write_def split: prod.splits)

lemma spec_writes_size:
  "length (concat (fst (foldl spec_write st cs))) + length (snd (foldl spec_write st cs)) \<le>
   length (concat (fst st)) + length (snd st) + length (concat cs)"
proof (induction cs arbitrary: st)
  case (Cons c cs)
  from Cons [of "spec_write st c"] spec_write_size [of st c] show ?case by simp
qed simp

lemma spec_writes_pending: "length (snd (foldl spec_write st cs)) \<le> length (snd st) + length (concat cs)"
proof (induction cs arbitrary: st)
  case (Cons c cs)
  from Cons [of "spec_write st c"] spec_write_pending [of st c] show ?case by simp
qed simp

text \<open>Storing what is collected, whatever it is, and sending the log.\<close>

lemma serve_line_spec:
  assumes "client_ok c w" "collected c w = buf" "buf \<noteq> []"
    and "kernel_ok (kdevice w, opened, kheap w)" "open_first t" "open_second t" "ahead t \<noteq> 0"
    and "concat (split t buf) = buf"
    and "length (dev_pending (kdevice w) (kheap w)) + 4 * length buf \<le> PTRDIFF_MAX - used (kheap w)"
    and "length (concat (dev_log (kdevice w) (kheap w))) + length (dev_pending (kdevice w) (kheap w)) +
      length buf < send_fuel t"
  obtains d' kh' xs where
    "serve_line t c w = Inr (Loop, c, w\<lparr>kdevice := d', kheap := kh', outbox := outbox w @ xs\<rparr>)"
    "kernel_ok (d', opened, kh')"
    "(dev_log d' kh', dev_pending d' kh') =
       foldl spec_write (dev_log (kdevice w) (kheap w), dev_pending (kdevice w) (kheap w)) (split t buf)"
    "dev_base d' = bases (dev_base (kdevice w)) (dev_log (kdevice w) (kheap w), dev_pending (kdevice w) (kheap w)) (split t buf)"
    "concat xs = concat (dev_log d' kh')"
    "PTRDIFF_MAX - used (kheap w) \<le> PTRDIFF_MAX - used kh' + length buf"
proof -
  let ?s = "(kdevice w, opened, kheap w)"
  obtain a where a: "t_buffptr (bufferString c) = Ptr a" "blocks (uheap w) a = Some buf"
    "unat (t_size (bufferString c)) = length buf"
    using collected_block [OF assms(1)] assms(2,3) by auto
  have ld: "load (t_buffptr (bufferString c)) 0 (unat (t_size (bufferString c))) (uheap w) = Inr buf"
    using a by (simp add: load_def)
  from kdev.write_chunks_spec [OF assms(4), of "split t buf"] assms(8,9) obtain d1 f1 kh1 where
    wr: "write_chunks sys_write ?s (split t buf) = Inr (d1, f1, kh1)" "kernel_ok (d1, f1, kh1)"
    "(dev_log d1 kh1, dev_pending d1 kh1) =
       foldl spec_write (dev_log (kdevice w) (kheap w), dev_pending (kdevice w) (kheap w)) (split t buf)"
    "PTRDIFF_MAX - used (kheap w) \<le> PTRDIFF_MAX - used kh1 + length buf"
    "dev_base d1 = bases (dev_base (kdevice w)) (dev_log (kdevice w) (kheap w), dev_pending (kdevice w) (kheap w)) (split t buf)"
    by (auto simp: kernel_defs)
  note ok1 = kernel_reopen [OF wr(2)]
  let ?w1 = "w\<lparr>kdevice := d1, kheap := kh1\<rparr>"
  have "length (concat (kernel_log (d1, opened, kh1))) < send_fuel t"
    using spec_writes_size [of "(dev_log (kdevice w) (kheap w), dev_pending (kdevice w) (kheap w))" "split t buf"]
      assms(8,10) by (simp add: kernel_log_def flip: wr(3))
  from kdev.send_contents_spec [OF ok1 assms(7) this, of 0 c ?w1] obtain xs where
    xs: "send_contents sys_read t (d1, opened, kh1) 0 c ?w1 = Inr (Loop, c, ?w1\<lparr>outbox := outbox ?w1 @ xs\<rparr>)"
    "concat xs = concat (dev_log d1 kh1)" by (auto simp: kernel_log_def)
  have "serve_line t c w = Inr (Loop, c, ?w1\<lparr>outbox := outbox ?w1 @ xs\<rparr>)"
    using assms(5,6) ld wr(1) xs(1) fopen_opened by (simp add: serve_line_def Let_def)
  with that wr ok1 xs(2) show thesis by simp
qed

text \<open>
  A complete packet that is no command: everything collected is written to the device, the log
  is sent, all is released.
\<close>

lemma packet_line:
  assumes "client_ok c w" "\<not> fileMutex w" "collected c w = buf" "buf \<noteq> []" "take 19 buf \<noteq> SEEK_CMD_PREFIX"
    and "kernel_ok (kdevice w, opened, kheap w)" "open_first t" "open_second t" "ahead t \<noteq> 0"
    and "concat (split t buf) = buf"
    and "length (dev_pending (kdevice w) (kheap w)) + 4 * length buf \<le> PTRDIFF_MAX - used (kheap w)"
    and "length (concat (dev_log (kdevice w) (kheap w))) + length (dev_pending (kdevice w) (kheap w)) +
      length buf < send_fuel t"
  obtains c' w' where "packet_turn t c w = Inr (Loop, c', w')" "released c w c' w'"
    "kernel_ok (kdevice w', opened, kheap w')"
    "(dev_log (kdevice w') (kheap w'), dev_pending (kdevice w') (kheap w')) =
      foldl spec_write (dev_log (kdevice w) (kheap w), dev_pending (kdevice w) (kheap w)) (split t buf)"
    "dev_base (kdevice w') =
      bases (dev_base (kdevice w)) (dev_log (kdevice w) (kheap w), dev_pending (kdevice w) (kheap w)) (split t buf)"
    "concat (outbox w') = concat (outbox w) @ concat (dev_log (kdevice w') (kheap w'))"
    "PTRDIFF_MAX - used (kheap w) \<le> PTRDIFF_MAX - used (kheap w') + length buf"
proof -
  let ?w = "w\<lparr>fileMutex := True\<rparr>"
  obtain a where a: "t_buffptr (bufferString c) = Ptr a" "blocks (uheap w) a = Some buf"
    "unat (t_size (bufferString c)) = length buf"
    using collected_block [OF assms(1)] assms(3,4) by auto
  have cmd: "checkForCommandInString (t_buffptr (bufferString c)) (t_size (bufferString c))
      \<lparr>write_cmd = 0, write_cmd_offset = 0\<rparr> (uheap w) = Inr (False, \<lparr>write_cmd = 0, write_cmd_offset = 0\<rparr>)"
    using command_not_recognised [OF a(2) _ assms(5)] a by simp
  have ok: "client_ok c ?w" "collected c ?w = buf" "kernel_ok (kdevice ?w, opened, kheap ?w)"
    using assms(1,3,6) by (simp_all add: client_ok_def collected_def)
  have eqw: "kdevice ?w = kdevice w" "kheap ?w = kheap w" "outbox ?w = outbox w" by simp_all
  from serve_line_spec [OF ok(1,2) assms(4) ok(3) assms(7-10), unfolded eqw, OF assms(11,12)] obtain d' kh' ys where
    sv: "serve_line t c ?w = Inr (Loop, c, ?w\<lparr>kdevice := d', kheap := kh', outbox := outbox w @ ys\<rparr>)"
    and post: "kernel_ok (d', opened, kh')"
    "(dev_log d' kh', dev_pending d' kh') =
       foldl spec_write (dev_log (kdevice w) (kheap w), dev_pending (kdevice w) (kheap w)) (split t buf)"
    "dev_base d' = bases (dev_base (kdevice w)) (dev_log (kdevice w) (kheap w), dev_pending (kdevice w) (kheap w)) (split t buf)"
    "concat ys = concat (dev_log d' kh')"
    "PTRDIFF_MAX - used (kheap w) \<le> PTRDIFF_MAX - used kh' + length buf" .
  let ?w2 = "?w\<lparr>kdevice := d', kheap := kh', outbox := outbox w @ ys\<rparr>"
  from packet_released [OF assms(1,2) cmd, of serve_command t serve_line ?w2] sv obtain c' u where
    "packet_turn t c w = Inr (Loop, c', ?w2\<lparr>fileMutex := False, uheap := u\<rparr>)"
    "released c w c' (?w2\<lparr>fileMutex := False, uheap := u\<rparr>)" by (auto simp: packet_turn_def)
  with that post show thesis by simp
qed

text \<open>
  A complete packet that is a seek command: if the device accepts it, the log is sent from there, if
  not, the thread calls \<open>logAndExit\<close>. Nothing is stored, whatever follows the command is dropped, and
  in both cases the collected bytes and the mutex are given back.
\<close>

definition seek_command :: "nat \<Rightarrow> nat \<Rightarrow> bytes" where
  "seek_command i k = SEEK_CMD_PREFIX @ dec i @ CHR '','' # dec k"

definition undec :: "bytes \<Rightarrow> nat" where
  "undec = foldl (\<lambda>v c. 10 * v + (of_char c - 48)) 0"

text \<open>The numbers of a seek command.\<close>

definition command_of :: "bytes \<Rightarrow> nat \<times> nat" where
  "command_of buf = (let ds = takeWhile isdigit (drop 19 buf) in
     (undec ds, undec (takeWhile isdigit (drop (20 + length ds) buf))))"

text \<open>A well-formed command: decimal numbers of 32 bits without leading zeros, followed by anything but a digit.\<close>

definition well_formed :: "bytes \<Rightarrow> bool" where
  "well_formed buf \<longleftrightarrow> (let (i, k) = command_of buf; n = length (seek_command i k) in
     take n buf = seek_command i k \<and> n < length buf \<and> \<not> isdigit (buf ! n) \<and> i < 2 ^ 32 \<and> k < 2 ^ 32)"

lemma well_formed_split:
  assumes "well_formed buf"
  obtains i k y ys where "command_of buf = (i, k)" "buf = seek_command i k @ y # ys" "\<not> isdigit y" "i < 2 ^ 32" "k < 2 ^ 32"
proof -
  obtain i k where ik: "command_of buf = (i, k)" by fastforce
  let ?n = "length (seek_command i k)"
  have w: "take ?n buf = seek_command i k" "?n < length buf" "\<not> isdigit (buf ! ?n)" "i < 2 ^ 32" "k < 2 ^ 32"
    using assms ik by (simp_all add: well_formed_def Let_def)
  have "buf = seek_command i k @ buf ! ?n # drop (Suc ?n) buf" using w(1) id_take_nth_drop [OF w(2)] by simp
  from that [OF ik this w(3-5)] show thesis .
qed

definition seek_reply :: "bytes list \<Rightarrow> nat \<Rightarrow> nat \<Rightarrow> nat \<Rightarrow> control \<times> bytes" where
  "seek_reply log base i k =
     (case seek_target log base i k of
        None \<Rightarrow> (LogExit ''Failed to seek in file'', [])
      | Some p \<Rightarrow> (Loop, drop p (concat log)))"

lemma seek_target_le:
  assumes "seek_target log base i k = Some p"
  shows "p \<le> length (concat log)"
proof -
  have "length (concat (take i log)) + k \<le> length (concat log)" if "i < length log" "k < length (log ! i)"
    using that(2) arg_cong [OF concat_split_nth [OF that(1)], of length] by (simp only: length_append)
  then show ?thesis using assms by (auto simp: seek_target_def split: if_splits)
qed

text \<open>The two outcomes of the seek, in the section.\<close>

lemma serve_command_refused:
  assumes "client_ok c w" "kernel_ok (kdevice w, opened, kheap w)" "open_first t"
    and "seek_target (dev_log (kdevice w) (kheap w)) (dev_base (kdevice w)) (unat (write_cmd s)) (unat (write_cmd_offset s)) = None"
  obtains u where "serve_command t s c w = Inr (LogExit ''Failed to seek in file'', c\<lparr>bufferString := server_buffer_init\<rparr>,
      w\<lparr>fileMutex := False, uheap := u\<rparr>)"
    "heap_ok u" "grant u = grant (uheap w)" "blocks u = other_blocks c w"
proof -
  have ok: "heap_ok (kheap w)" "dev_ok (kdevice w) (kheap w)" "healthy (kdevice w)"
    using assms(2) by (auto simp: kernel_ok_def)
  from clean_collected [OF assms(1)] obtain u where
    u: "server_buffer_clean (bufferString c) (uheap w) = Inr (server_buffer_init, u)" "heap_ok u"
    "grant u = grant (uheap w)" "blocks u = other_blocks c w" .
  moreover have "serve_command t s c w = Inr (LogExit ''Failed to seek in file'', c\<lparr>bufferString := server_buffer_init\<rparr>,
      w\<lparr>fileMutex := False, uheap := u\<rparr>)"
    using aesd_ioctl_seek [OF ok(1,2) opened_private ok(3), of s] assms(3,4) u(1) fopen_opened [of w]
    by (simp add: serve_command_def)
  ultimately show thesis using that by blast
qed

lemma serve_command_accepted:
  assumes "kernel_ok (kdevice w, opened, kheap w)" "open_first t" "ahead t \<noteq> 0"
    and "length (concat (dev_log (kdevice w) (kheap w))) < send_fuel t"
    and "seek_target (dev_log (kdevice w) (kheap w)) (dev_base (kdevice w)) (unat (write_cmd s)) (unat (write_cmd_offset s)) = Some p"
  obtains xs where "serve_command t s c w = Inr (Loop, c, w\<lparr>outbox := outbox w @ xs\<rparr>)"
    "concat xs = drop p (concat (dev_log (kdevice w) (kheap w)))"
proof -
  have ok: "heap_ok (kheap w)" "dev_ok (kdevice w) (kheap w)" "healthy (kdevice w)"
    using assms(1) by (auto simp: kernel_ok_def)
  have io: "aesd_ioctl (kdevice w) opened AESDCHAR_IOCSEEKTO (Some s) = Inr (Inr 0, opened\<lparr>f_pos := of_nat p\<rparr>)"
    using aesd_ioctl_seek [OF ok(1,2) opened_private ok(3), of s] assms(5) by simp
  let ?d = "(kdevice w, opened\<lparr>f_pos := of_nat p\<rparr>, kheap w)"
  have kd: "kernel_ok ?d" "length (concat (kernel_log ?d)) < send_fuel t"
    using assms(1,4) by (auto simp: kernel_ok_def kernel_log_def)
  have "p < 2 ^ 64" using seek_target_le [OF assms(5)] kdev.data_fits [OF kd(1)] by (simp add: kernel_log_def PTRDIFF_MAX_def)
  then have p: "unat (of_nat p :: loff_t) = p" by (simp add: unat_of_nat)
  from kdev.send_contents_spec [OF kd(1) assms(3) kd(2), of "of_nat p" c w] obtain xs where
    "send_contents sys_read t ?d (of_nat p) c w = Inr (Loop, c, w\<lparr>outbox := outbox w @ xs\<rparr>)"
    "concat xs = drop p (concat (dev_log (kdevice w) (kheap w)))" by (auto simp: kernel_log_def p)
  with that io assms(2) fopen_opened [of w] show thesis by (simp add: serve_command_def)
qed

lemma packet_command:
  assumes "client_ok c w" "\<not> fileMutex w" "collected c w = seek_command i k @ y # ys" "\<not> isdigit y"
    and "i < 2 ^ 32" "k < 2 ^ 32" "kernel_ok (kdevice w, opened, kheap w)" "open_first t" "ahead t \<noteq> 0"
    and "length (concat (dev_log (kdevice w) (kheap w))) < send_fuel t"
  obtains c' w' where
    "packet_turn t c w = Inr (fst (seek_reply (dev_log (kdevice w) (kheap w)) (dev_base (kdevice w)) i k), c', w')"
    "released c w c' w'" "kdevice w' = kdevice w" "kheap w' = kheap w"
    "concat (outbox w') = concat (outbox w) @ snd (seek_reply (dev_log (kdevice w) (kheap w)) (dev_base (kdevice w)) i k)"
proof -
  let ?log = "dev_log (kdevice w) (kheap w)" and ?w = "w\<lparr>fileMutex := True\<rparr>"
  let ?s = "\<lparr>write_cmd = of_nat i, write_cmd_offset = of_nat k\<rparr>"
  have "collected c w \<noteq> []" using assms(3) by simp
  then obtain a where a: "t_buffptr (bufferString c) = Ptr a" "blocks (uheap w) a = Some (collected c w)"
    "unat (t_size (bufferString c)) = length (collected c w)"
    using collected_block [OF assms(1)] by auto
  have cmd: "checkForCommandInString (t_buffptr (bufferString c)) (t_size (bufferString c))
      \<lparr>write_cmd = 0, write_cmd_offset = 0\<rparr> (uheap w) = Inr (True, ?s)"
    using command_parsed [of "uheap w" a i k y ys] a assms(3-6) by (simp add: seek_command_def)
  have num: "unat (of_nat i :: u32) = i" "unat (of_nat k :: u32) = k"
    using assms(5,6) by (simp_all add: unat_of_nat)
  have ok: "client_ok c ?w" "kernel_ok (kdevice ?w, opened, kheap ?w)" using assms(1,7) by (simp_all add: client_ok_def)
  show thesis
  proof (cases "seek_target ?log (dev_base (kdevice w)) i k")
    case None
    from serve_command_refused [OF ok assms(8), of ?s] None obtain u where
      u: "serve_command t ?s c ?w = Inr (LogExit ''Failed to seek in file'', c\<lparr>bufferString := server_buffer_init\<rparr>,
        ?w\<lparr>fileMutex := False, uheap := u\<rparr>)" "heap_ok u" "grant u = grant (uheap w)" "blocks u = other_blocks c ?w"
      by (auto simp: num)
    have "packet_turn t c w = Inr (LogExit ''Failed to seek in file'', c\<lparr>bufferString := server_buffer_init\<rparr>,
        ?w\<lparr>fileMutex := False, uheap := u\<rparr>)"
      using cmd u(1) assms(2) by (simp add: packet_turn_def packet_section_def locked_section_def)
    moreover have "released c w (c\<lparr>bufferString := server_buffer_init\<rparr>) (?w\<lparr>fileMutex := False, uheap := u\<rparr>)"
      using u(2-4) by (simp add: released_def other_blocks_def)
    ultimately show thesis
      using None that [of "c\<lparr>bufferString := server_buffer_init\<rparr>" "?w\<lparr>fileMutex := False, uheap := u\<rparr>"]
      by (simp add: seek_reply_def)
  next
    case (Some p)
    from serve_command_accepted [OF ok(2) assms(8,9), of ?s p c] assms(10) Some obtain xs where
      xs: "serve_command t ?s c ?w = Inr (Loop, c, ?w\<lparr>outbox := outbox ?w @ xs\<rparr>)" "concat xs = drop p (concat ?log)"
      by (auto simp: num)
    from packet_released [OF assms(1,2) cmd, of serve_command t serve_line "?w\<lparr>outbox := outbox ?w @ xs\<rparr>"] xs(1)
    obtain c' u where
      "packet_turn t c w = Inr (Loop, c', ?w\<lparr>outbox := outbox ?w @ xs, fileMutex := False, uheap := u\<rparr>)"
      "released c w c' (?w\<lparr>outbox := outbox ?w @ xs, fileMutex := False, uheap := u\<rparr>)" by (auto simp: packet_turn_def)
    with xs(2) Some show thesis
      using that [of c' "?w\<lparr>outbox := outbox ?w @ xs, fileMutex := False, uheap := u\<rparr>"] by (simp add: seek_reply_def)
  qed
qed

text \<open>The turn that completes a packet: what the packet releases, the turn releases.\<close>

lemma turn_completes:
  assumes "client_ok c w" "data_turn t xs" "newline \<in> set (take (length xs) (collected c w @ xs))"
    and "ample (uheap w) (BUFFER_SIZE + length (collected c w) + length xs)"
  obtains c1 w1 where "client_turn packet t c w = packet t c1 w1" "client_ok c1 w1"
    "collected c1 w1 = collected c w @ xs" "w1 = w\<lparr>uheap := uheap w1\<rparr>"
    "\<And>c' w'. released c1 w1 c' w' \<Longrightarrow> released c w c' w'"
proof -
  from turn_received [OF assms(1,2,4), of packet] obtain c1 w1 where
    tr: "client_turn packet t c w =
       (if newline \<in> set (take (length xs) (collected c w @ xs)) then packet t c1 w1 else Inr (Loop, c1, w1))"
    and s1: "client_ok c1 w1" "collected c1 w1 = collected c w @ xs" "other_blocks c1 w1 = other_blocks c w"
    "w1 = w\<lparr>uheap := uheap w1\<rparr>" "c1 = c\<lparr>bufferString := bufferString c1\<rparr>"
    "grant (uheap w1) = grant (uheap w)" .
  show thesis by (rule that [OF _ s1(1,2,4)]) (use tr assms(3) released_through [OF _ s1(5,3,6)] in auto)
qed

lemma only_uheap:
  assumes "w1 = w\<lparr>uheap := uheap w1\<rparr>"
  shows "fileMutex w1 = fileMutex w" "kdevice w1 = kdevice w" "kheap w1 = kheap w" "outbox w1 = outbox w"
  by (subst assms, simp)+

text \<open>A turn that receives a whole line: the line becomes one entry.\<close>

lemma turn_line:
  assumes "client_ok c w" "collected c w = []" "\<not> fileMutex w" "data_turn t (line @ [newline])"
    and "newline \<notin> set line" "take 19 (line @ [newline]) \<noteq> SEEK_CMD_PREFIX"
    and "ample (uheap w) (2 * BUFFER_SIZE)"
    and "kernel_ok (kdevice w, opened, kheap w)" "open_first t" "open_second t" "ahead t \<noteq> 0"
    and "concat (split t (line @ [newline])) = line @ [newline]"
    and "length (dev_pending (kdevice w) (kheap w)) + 4 * BUFFER_SIZE \<le> PTRDIFF_MAX - used (kheap w)"
    and "length (concat (dev_log (kdevice w) (kheap w))) + length (dev_pending (kdevice w) (kheap w)) +
      BUFFER_SIZE \<le> send_fuel t"
  obtains c' w' where "clientHandler_turn t c w = Inr (Loop, c', w')" "released c w c' w'"
    "kernel_ok (kdevice w', opened, kheap w')" "dev_pending (kdevice w') (kheap w') = []"
    "dev_log (kdevice w') (kheap w') =
      log_push (dev_log (kdevice w) (kheap w)) (dev_pending (kdevice w) (kheap w) @ line @ [newline])"
    "concat (outbox w') = concat (outbox w) @ concat (dev_log (kdevice w') (kheap w'))"
    "PTRDIFF_MAX - used (kheap w) \<le> PTRDIFF_MAX - used (kheap w') + BUFFER_SIZE"
proof -
  let ?x = "line @ [newline]" and ?d = "kdevice w" and ?kh = "kheap w"
  have len: "length ?x < BUFFER_SIZE" using assms(4) by (simp add: data_turn_def)
  have am: "ample (uheap w) (BUFFER_SIZE + length (collected c w) + length ?x)" using assms(2,7) len by (simp add: ample_def)
  have nl: "newline \<in> set (take (length ?x) (collected c w @ ?x))" using assms(2) by simp
  from turn_completes [OF assms(1,4) nl am, of packet_turn, unfolded assms(2)] obtain c1 w1 where
    tr: "clientHandler_turn t c w = packet_turn t c1 w1" "client_ok c1 w1" "collected c1 w1 = ?x"
    "w1 = w\<lparr>uheap := uheap w1\<rparr>" "\<And>c' w'. released c1 w1 c' w' \<Longrightarrow> released c w c' w'"
    by (auto simp: clientHandler_turn_def)
  note eq = only_uheap [OF tr(4)]
  have pre: "\<not> fileMutex w1" "?x \<noteq> []" "kernel_ok (kdevice w1, opened, kheap w1)"
    "length (dev_pending (kdevice w1) (kheap w1)) + 4 * length ?x \<le> PTRDIFF_MAX - used (kheap w1)"
    "length (concat (dev_log (kdevice w1) (kheap w1))) + length (dev_pending (kdevice w1) (kheap w1)) +
      length ?x < send_fuel t"
    using assms(3,8,13,14) len eq by simp_all
  from packet_line [OF tr(2) pre(1) tr(3) pre(2) assms(6) pre(3) assms(9-12) pre(4,5), unfolded eq] obtain c' w' where
    r: "packet_turn t c1 w1 = Inr (Loop, c', w')" "released c1 w1 c' w'" "kernel_ok (kdevice w', opened, kheap w')"
    "(dev_log (kdevice w') (kheap w'), dev_pending (kdevice w') (kheap w')) =
      foldl spec_write (dev_log ?d ?kh, dev_pending ?d ?kh) (split t ?x)"
    "concat (outbox w') = concat (outbox w) @ concat (dev_log (kdevice w') (kheap w'))"
    "PTRDIFF_MAX - used ?kh \<le> PTRDIFF_MAX - used (kheap w') + length ?x" .
  with that tr(1,5) kdev.foldl_line [OF assms(12,5), of "dev_log ?d ?kh" "dev_pending ?d ?kh"] len show thesis by simp
qed

text \<open>A turn that receives a whole seek command.\<close>

lemma turn_command:
  assumes "client_ok c w" "collected c w = []" "\<not> fileMutex w"
    and "data_turn t (SEEK_CMD_PREFIX @ dec i @ CHR '','' # dec k @ [newline])" "i < 2 ^ 32" "k < 2 ^ 32"
    and "ample (uheap w) (2 * BUFFER_SIZE)"
    and "kernel_ok (kdevice w, opened, kheap w)" "open_first t" "ahead t \<noteq> 0"
    and "length (concat (dev_log (kdevice w) (kheap w))) < send_fuel t"
  obtains c' w' where
    "clientHandler_turn t c w = Inr (fst (seek_reply (dev_log (kdevice w) (kheap w)) (dev_base (kdevice w)) i k), c', w')"
    "released c w c' w'" "kdevice w' = kdevice w" "kheap w' = kheap w"
    "concat (outbox w') = concat (outbox w) @ snd (seek_reply (dev_log (kdevice w) (kheap w)) (dev_base (kdevice w)) i k)"
proof -
  let ?xs = "seek_command i k @ [newline]"
  have dt: "data_turn t ?xs" using assms(4) by (simp add: seek_command_def)
  have len: "length ?xs < BUFFER_SIZE" using dt by (simp add: data_turn_def)
  have am: "ample (uheap w) (BUFFER_SIZE + length (collected c w) + length ?xs)"
    using assms(2,7) len by (simp add: ample_def)
  have nl: "newline \<in> set (take (length ?xs) (collected c w @ ?xs))" using assms(2) by simp
  from turn_completes [OF assms(1) dt nl am, of packet_turn, unfolded assms(2)] obtain c1 w1 where
    tr: "clientHandler_turn t c w = packet_turn t c1 w1" "client_ok c1 w1" "collected c1 w1 = ?xs"
    "w1 = w\<lparr>uheap := uheap w1\<rparr>" "\<And>c' w'. released c1 w1 c' w' \<Longrightarrow> released c w c' w'"
    by (auto simp: clientHandler_turn_def)
  note eq = only_uheap [OF tr(4)]
  have nd: "\<not> isdigit newline" by (simp add: isdigit_def)
  have pre: "\<not> fileMutex w1" "kernel_ok (kdevice w1, opened, kheap w1)"
    "length (concat (dev_log (kdevice w1) (kheap w1))) < send_fuel t"
    using assms(3,8,11) eq by simp_all
  from packet_command [OF tr(2) pre(1) tr(3) nd assms(5,6) pre(2) assms(9,10) pre(3), unfolded eq] obtain c' w' where
    "packet_turn t c1 w1 = Inr (fst (seek_reply (dev_log (kdevice w) (kheap w)) (dev_base (kdevice w)) i k), c', w')"
    "released c1 w1 c' w'" "kdevice w' = kdevice w" "kheap w' = kheap w"
    "concat (outbox w') = concat (outbox w) @ snd (seek_reply (dev_log (kdevice w) (kheap w)) (dev_base (kdevice w)) i k)" .
  with that tr(1,5) show thesis by simp
qed

text \<open>
  Before the ring has wrapped the command finds the byte it names, if there is one, and is refused
  if not.
\<close>

lemma seek_reply_unwrapped:
  assumes "length log \<le> 10"
  shows "seek_reply log 0 i k =
    (if i < length log \<and> k < length (log ! i) then (Loop, drop k (log ! i) @ concat (drop (Suc i) log))
     else (LogExit ''Failed to seek in file'', []))"
proof -
  have "drop (length (concat (take i log)) + k) (concat log) = drop k (log ! i) @ concat (drop (Suc i) log)"
    if "i < length log" "k < length (log ! i)"
    using that by (subst id_take_nth_drop [OF that(1)]) simp
  then show ?thesis using assms by (auto simp: seek_reply_def seek_target_def slot_size_def Let_def)
qed

subsection \<open>The end of a connection\<close>

definition close_turn :: "turn \<Rightarrow> bool" where
  "close_turn t \<longleftrightarrow> poll_ret t \<noteq> - 1 \<and> \<not> pipe_ready t \<and> sock_ready t \<and> received t = Some []"

text \<open>The peer has closed the connection: the thread closes it, too, and leaves the loop.\<close>

lemma turn_close:
  assumes "client_ok c w" "close_turn t" "ample (uheap w) (BUFFER_SIZE + length (collected c w))"
  obtains u where "client_turn packet t c w =
      Inr (Break, c\<lparr>bufferString := server_buffer_init, closes := Suc (closes c)\<rparr>, w\<lparr>uheap := u\<rparr>)"
    "heap_ok u" "blocks u = other_blocks c w" "grant u = grant (uheap w)"
proof -
  let ?b = "bufferString c" and ?u = "uheap w"
  have ok: "heap_ok ?u" "temp_ok ?b ?u" using assms(1) by (auto simp: client_ok_def)
  from calloc_ample [OF ok(1) assms(3)] obtain k u1 where
    al: "calloc (of_nat BUFFER_SIZE) 1 ?u = (Ptr k, u1)" "heap_ok u1" "grant u1 = grant ?u"
    "blocks ?u k = None" "blocks u1 = (blocks ?u)(k \<mapsto> replicate BUFFER_SIZE nul)"
    "used u1 = used ?u + BUFFER_SIZE" by auto
  have k: "k \<notin> temp_fp ?b" using temp_ok_fp_live [OF ok(2)] al(4) by auto
  have same: "temp_ok ?b u1 = temp_ok ?b ?u" "temp_data ?b u1 = temp_data ?b ?u"
    using temp_frame_upd [OF k al(5)] by simp_all
  have kb: "blocks u1 k = Some (replicate BUFFER_SIZE nul)" using al(5) by simp
  from recv_and_add_spec [OF al(2) _ kb k, of "[]"] same ok(2) obtain r b1 u2 where
    rv: "recv_and_add (Some []) (Ptr k) ?b u1 = Inr (r, b1, u2)" "recv_post [] k ?b u1 r b1 u2"
    by (auto simp: BUFFER_SIZE_def)
  have r: "r" using rv(2) assms(3) al(3,6) same(2) by (simp add: recv_post_def ample_def collected_def)
  have "(blocks u1)(k := None) = blocks ?u" using al(4,5) by auto
  with rv(2) have p: "heap_ok u2" "temp_ok b1 u2" "blocks u2 |` (- temp_fp b1) = other_blocks c w"
    "grant u2 = grant u1"
    by (auto simp: recv_post_def other_blocks_def)
  from ubuf.clean_spec [OF p(1,2)] obtain u3 where
    u3: "server_buffer_clean b1 u2 = Inr (server_buffer_init, u3)" "heap_ok u3"
    "blocks u3 = blocks u2 |` (- temp_fp b1)" "grant u3 = grant u2" by blast
  have "client_turn packet t c w =
      Inr (Break, c\<lparr>bufferString := server_buffer_init, closes := Suc (closes c)\<rparr>, w\<lparr>uheap := u3\<rparr>)"
    using assms(2) al(1) rv(1) r u3(1)
    by (simp add: client_turn_def close_turn_def receive_turn_def Let_def recvLen_def)
  with that u3(2-4) p(3,4) al(3) show thesis by simp
qed

lemma cleanup_connection:
  assumes "client_ok c w" "clientPtr c = Ptr a" "a \<in> dom (blocks (uheap w))" "a \<notin> temp_fp (bufferString c)"
  obtains u where "cleanupClientHandler c w =
      Inr (c\<lparr>bufferString := server_buffer_init, clientPtr := NULL,
        closes := (if newSockFd c > 0 then Suc (closes c) else closes c)\<rparr>, w\<lparr>uheap := u\<rparr>)"
    "heap_ok u" "blocks u = (other_blocks c w)(a := None)" "grant u = grant (uheap w)"
proof -
  from clean_collected [OF assms(1)] obtain u1 where
    u1: "server_buffer_clean (bufferString c) (uheap w) = Inr (server_buffer_init, u1)" "heap_ok u1"
    "grant u1 = grant (uheap w)" "blocks u1 = other_blocks c w" .
  from assms(3,4) obtain bs where "blocks u1 a = Some bs" by (auto simp: u1(4) other_blocks_def)
  from kfree_Ptr [OF u1(2) this] obtain u where "kfree (Ptr a) u1 = Inr u" "heap_ok u"
    "blocks u = (blocks u1)(a := None)" "grant u = grant u1" .
  with that [of u] u1 assms(2) show thesis by (simp add: cleanupClientHandler_def Let_def free_eq)
qed

lemma cleanup_thread:
  assumes "heap_ok (uheap w)" "bufferString c = server_buffer_init" "clientPtr c = Ptr a"
    and "a \<in> dom (blocks (uheap w))"
  obtains u where "cleanupClientHandler c w =
      Inr (c\<lparr>clientPtr := NULL, closes := (if newSockFd c > 0 then Suc (closes c) else closes c)\<rparr>, w\<lparr>uheap := u\<rparr>)"
    "heap_ok u" "blocks u = (blocks (uheap w))(a := None)" "grant u = grant (uheap w)"
proof -
  from assms(4) obtain bs where "blocks (uheap w) a = Some bs" by auto
  from kfree_Ptr [OF assms(1) this] obtain u where "kfree (Ptr a) (uheap w) = Inr u" "heap_ok u"
    "blocks u = (blocks (uheap w))(a := None)" "grant u = grant (uheap w)" .
  with that [of u] assms(2,3) show thesis
    by (simp add: cleanupClientHandler_def server_buffer_clean_def server_buffer_init_def Let_def free_eq)
qed

text \<open>
  A turn in which \<open>poll\<close> fails, reports the pipe, or reports neither the pipe nor data: the receive
  buffer of this iteration is not freed.
\<close>

definition idle_turn :: "turn \<Rightarrow> bool" where
  "idle_turn t \<longleftrightarrow> poll_ret t = - 1 \<or> pipe_ready t \<or> \<not> sock_ready t"

definition told_to_end :: "turn \<Rightarrow> bool" where
  "told_to_end t \<longleftrightarrow> poll_ret t = - 1 \<or> pipe_ready t"

lemma turn_idle:
  assumes "heap_ok (uheap w)" "idle_turn t" "ample (uheap w) BUFFER_SIZE"
  obtains k u where "client_turn packet t c w = Inr (if told_to_end t then Break else Loop, c, w\<lparr>uheap := u\<rparr>)"
    "heap_ok u" "grant u = grant (uheap w)" "blocks (uheap w) k = None"
    "blocks u = (blocks (uheap w))(k \<mapsto> replicate BUFFER_SIZE nul)" "used u = used (uheap w) + BUFFER_SIZE"
proof -
  from calloc_ample [OF assms(1,3)] obtain k u where
    al: "calloc (of_nat BUFFER_SIZE) 1 (uheap w) = (Ptr k, u)" "heap_ok u" "grant u = grant (uheap w)"
    "blocks (uheap w) k = None" "blocks u = (blocks (uheap w))(k \<mapsto> replicate BUFFER_SIZE nul)"
    "used u = used (uheap w) + BUFFER_SIZE" by auto
  have "client_turn packet t c w = Inr (if told_to_end t then Break else Loop, c, w\<lparr>uheap := u\<rparr>)"
    using al(1) assms(2) by (auto simp: client_turn_def idle_turn_def told_to_end_def Let_def)
  then show thesis using that al(2-6) by blast
qed

subsection \<open>A connection\<close>

text \<open>A turn that brings one whole line, with a stream that loses no bytes.\<close>

definition line_turn :: "turn \<Rightarrow> bytes \<Rightarrow> bool" where
  "line_turn t x \<longleftrightarrow> data_turn t x \<and> last x = newline \<and> newline \<notin> set (butlast x) \<and>
     take 19 x \<noteq> SEEK_CMD_PREFIX \<and> open_first t \<and> open_second t \<and> ahead t \<noteq> 0 \<and> concat (split t x) = x"

text \<open>What the client is sent: after each line the whole log.\<close>

fun echoes :: "bytes list \<Rightarrow> bytes list \<Rightarrow> bytes" where
  "echoes l [] = []"
| "echoes l (x # xs) = concat (log_push l x) @ echoes (log_push l x) xs"

definition idle :: "client \<Rightarrow> world \<Rightarrow> bool" where
  "idle c w \<longleftrightarrow> heap_ok (uheap w) \<and> bufferString c = server_buffer_init \<and> \<not> fileMutex w \<and>
     ample (uheap w) (2 * BUFFER_SIZE) \<and> kernel_ok (kdevice w, opened, kheap w) \<and>
     dev_pending (kdevice w) (kheap w) = []"

lemma idle_ok:
  assumes "idle c w"
  shows "client_ok c w" "collected c w = []" "other_blocks c w = blocks (uheap w)" "\<not> fileMutex w"
    "ample (uheap w) (2 * BUFFER_SIZE)" "kernel_ok (kdevice w, opened, kheap w)"
    "dev_pending (kdevice w) (kheap w) = []"
  using assms ubuf.init_ok by (auto simp: idle_def client_ok_def collected_def other_blocks_def)

lemma idle_again:
  assumes "idle c w" "released c w c' w'" "kernel_ok (kdevice w', opened, kheap w')"
    and "dev_pending (kdevice w') (kheap w') = []"
  shows "idle c' w'" "blocks (uheap w') = blocks (uheap w)"
proof -
  show bl: "blocks (uheap w') = blocks (uheap w)"
    using assms(2) idle_ok(3) [OF assms(1)] by (simp add: released_def)
  then have "used (uheap w') = used (uheap w)"
    using assms(1,2) by (simp add: idle_def released_def heap_ok_def)
  with assms show "idle c' w'" by (simp add: idle_def released_def ample_def)
qed

lemma connection_lines:
  "idle c w \<Longrightarrow> list_all2 line_turn ts xs \<Longrightarrow>
   4 * BUFFER_SIZE + BUFFER_SIZE * length xs \<le> PTRDIFF_MAX - used (kheap w) \<Longrightarrow>
   (\<And>t. t \<in> set ts \<Longrightarrow> length (concat (dev_log (kdevice w) (kheap w))) + BUFFER_SIZE * length xs \<le> send_fuel t) \<Longrightarrow>
   \<exists>c' w'. clientHandler_loop ts c w = Inr (Loop, c', w') \<and> idle c' w' \<and>
     c' = c\<lparr>bufferString := server_buffer_init\<rparr> \<and> blocks (uheap w') = blocks (uheap w) \<and>
     dev_log (kdevice w') (kheap w') = foldl log_push (dev_log (kdevice w) (kheap w)) xs \<and>
     concat (outbox w') = concat (outbox w) @ echoes (dev_log (kdevice w) (kheap w)) xs"
proof (induction ts xs arbitrary: c w rule: list_induct2')
  case 1
  then show ?case by (auto simp: idle_def)
next
  case (4 t ts x xs)
  let ?log = "dev_log (kdevice w) (kheap w)"
  note i = idle_ok [OF "4.prems"(1)]
  have lt: "line_turn t x" "list_all2 line_turn ts xs" using "4.prems"(2) by simp_all
  define line where "line = butlast x"
  have "x \<noteq> []" using lt(1) by (auto simp: line_turn_def data_turn_def)
  then have x: "x = line @ [newline]" using lt(1) append_butlast_last_id [of x]
    by (simp add: line_def line_turn_def)
  have len: "length x < BUFFER_SIZE" using lt(1) by (simp add: line_turn_def data_turn_def)
  have t: "data_turn t (line @ [newline])" "newline \<notin> set line" "take 19 (line @ [newline]) \<noteq> SEEK_CMD_PREFIX"
    "open_first t" "open_second t" "ahead t \<noteq> 0" "concat (split t (line @ [newline])) = line @ [newline]"
    using lt(1) x by (auto simp: line_turn_def)
  have room: "length (dev_pending (kdevice w) (kheap w)) + 4 * BUFFER_SIZE \<le> PTRDIFF_MAX - used (kheap w)"
    "length (concat ?log) + length (dev_pending (kdevice w) (kheap w)) + BUFFER_SIZE \<le> send_fuel t"
    using "4.prems"(3) "4.prems"(4) [of t] i(7) by simp_all
  from turn_line [OF i(1,2,4) t(1-3) i(5,6) t(4-7) room, unfolded i(7)] obtain c1 w1 where
    s1: "clientHandler_turn t c w = Inr (Loop, c1, w1)" "released c w c1 w1"
    "kernel_ok (kdevice w1, opened, kheap w1)" "dev_pending (kdevice w1) (kheap w1) = []"
    "dev_log (kdevice w1) (kheap w1) = log_push ?log ([] @ line @ [newline])"
    "concat (outbox w1) = concat (outbox w) @ concat (dev_log (kdevice w1) (kheap w1))"
    "PTRDIFF_MAX - used (kheap w) \<le> PTRDIFF_MAX - used (kheap w1) + BUFFER_SIZE" .
  note again = idle_again [OF "4.prems"(1) s1(2-4)]
  have log1: "dev_log (kdevice w1) (kheap w1) = log_push ?log x" using s1(5) x by simp
  have r1: "4 * BUFFER_SIZE + BUFFER_SIZE * length xs \<le> PTRDIFF_MAX - used (kheap w1)"
    using s1(7) "4.prems"(3) by simp
  have "length (concat (log_push ?log x)) \<le> length (concat ?log) + BUFFER_SIZE"
    using log_push_size [of ?log x] len by simp
  then have f1: "length (concat (dev_log (kdevice w1) (kheap w1))) + BUFFER_SIZE * length xs \<le> send_fuel t'"
    if "t' \<in> set ts" for t' using "4.prems"(4) [of t'] that log1 by simp
  have c1: "c1\<lparr>bufferString := server_buffer_init\<rparr> = c\<lparr>bufferString := server_buffer_init\<rparr>"
    using s1(2) by (simp add: released_def)
  from "4.IH" [OF again(1) lt(2) r1 f1] c1 again(2) s1(1,6) log1 show ?case by auto
qed simp_all

lemma clientHandler_loop_append:
  "clientHandler_loop ts c w = Inr (Loop, c1, w1) \<Longrightarrow> clientHandler_loop (ts @ us) c w = clientHandler_loop us c1 w1"
proof (induction ts arbitrary: c w)
  case (Cons t ts)
  then show ?case by (auto simp: andthen_eq_Inr_iff split: if_splits)
qed simp

text \<open>A connection of lines that the peer then closes.\<close>

lemma connection_closed:
  assumes "heap_ok (uheap w)" "\<not> fileMutex w" "ample (uheap w) (2 * BUFFER_SIZE)"
    and "kernel_ok (kdevice w, opened, kheap w)" "dev_pending (kdevice w) (kheap w) = []"
    and "a \<in> dom (blocks (uheap w))" "list_all2 line_turn ts xs" "close_turn t"
    and "4 * BUFFER_SIZE + BUFFER_SIZE * length xs \<le> PTRDIFF_MAX - used (kheap w)"
    and "\<And>t. t \<in> set ts \<Longrightarrow>
      length (concat (dev_log (kdevice w) (kheap w))) + BUFFER_SIZE * length xs \<le> send_fuel t"
  obtains c' w' where "clientHandler fd (Ptr a) (ts @ [t]) w = Inr (Break, c', w')"
    "dev_log (kdevice w') (kheap w') = foldl log_push (dev_log (kdevice w) (kheap w)) xs"
    "concat (outbox w') = concat (outbox w) @ echoes (dev_log (kdevice w) (kheap w)) xs"
    "blocks (uheap w') = (blocks (uheap w))(a := None)" "\<not> fileMutex w'"
    "closes c' = (if fd > 0 then 2 else 1)"
proof -
  let ?c = "\<lparr>newSockFd = fd, clientPtr = Ptr a, bufferString = server_buffer_init, closes = 0\<rparr>"
  have "idle ?c w" using assms(1-5) by (simp add: idle_def)
  from connection_lines [OF this assms(7,9,10)] obtain c1 w1 where
    l: "clientHandler_loop ts ?c w = Inr (Loop, c1, w1)" "idle c1 w1" "c1 = ?c"
    "blocks (uheap w1) = blocks (uheap w)"
    "dev_log (kdevice w1) (kheap w1) = foldl log_push (dev_log (kdevice w) (kheap w)) xs"
    "concat (outbox w1) = concat (outbox w) @ echoes (dev_log (kdevice w) (kheap w)) xs" by auto
  note i = idle_ok [OF l(2)]
  have "ample (uheap w1) (BUFFER_SIZE + length (collected c1 w1))"
    using i(2,5) by (simp add: ample_def)
  from turn_close [OF i(1) assms(8) this, of packet_turn] obtain u where
    u: "clientHandler_turn t c1 w1 =
      Inr (Break, c1\<lparr>bufferString := server_buffer_init, closes := Suc (closes c1)\<rparr>, w1\<lparr>uheap := u\<rparr>)"
    "heap_ok u" "blocks u = blocks (uheap w1)"
    by (auto simp: i(3) clientHandler_turn_def)
  let ?c2 = "c1\<lparr>bufferString := server_buffer_init, closes := Suc (closes c1)\<rparr>"
  have loop: "clientHandler_loop (ts @ [t]) ?c w = Inr (Break, ?c2, w1\<lparr>uheap := u\<rparr>)"
    using clientHandler_loop_append [OF l(1), of "[t]"] u(1) by simp
  have "a \<in> dom (blocks u)" using assms(6) u(3) l(4) by simp
  then obtain u' where cl: "cleanupClientHandler ?c2 (w1\<lparr>uheap := u\<rparr>) =
      Inr (?c2\<lparr>clientPtr := NULL, closes := (if newSockFd ?c2 > 0 then Suc (closes ?c2) else closes ?c2)\<rparr>,
           w1\<lparr>uheap := u'\<rparr>)" "blocks u' = (blocks u)(a := None)"
    using cleanup_thread [of "w1\<lparr>uheap := u\<rparr>" ?c2 a] u(2) l(3) by auto
  have "clientHandler fd (Ptr a) (ts @ [t]) w =
      Inr (Break, ?c2\<lparr>clientPtr := NULL, closes := (if newSockFd ?c2 > 0 then Suc (closes ?c2) else closes ?c2)\<rparr>,
           w1\<lparr>uheap := u'\<rparr>)"
    using loop cl(1) by (simp add: clientHandler_def)
  with that l u(3) cl(2) i(4) show thesis by simp
qed

subsection \<open>What goes wrong\<close>

text \<open>
  The search for a newline looks at as many bytes from the start of the collected bytes as the
  last \<open>recv\<close> returned, not at the bytes it returned.
\<close>

lemma turn_newline_missed:
  assumes "client_ok c w" "data_turn t xs" "ample (uheap w) (BUFFER_SIZE + length (collected c w) + length xs)"
    and "newline \<notin> set (take (length xs) (collected c w @ xs))"
  obtains c' w' where "clientHandler_turn t c w = Inr (Loop, c', w')" "collected c' w' = collected c w @ xs"
    "kdevice w' = kdevice w" "kheap w' = kheap w" "outbox w' = outbox w"
proof -
  from turn_received [OF assms(1-3), of packet_turn] obtain c1 w1 where
    tr: "client_turn packet_turn t c w = (if newline \<in> set (take (length xs) (collected c w @ xs))
        then packet_turn t c1 w1 else Inr (Loop, c1, w1))"
    "collected c1 w1 = collected c w @ xs" "w1 = w\<lparr>uheap := uheap w1\<rparr>" .
  with that only_uheap [OF tr(3)] assms(4) show thesis by (simp add: clientHandler_turn_def)
qed

text \<open>A failed \<open>recv\<close> while bytes are collected.\<close>

lemma turn_recv_failed:
  assumes "client_ok c w" "poll_ret t \<noteq> - 1" "\<not> pipe_ready t" "sock_ready t" "received t = None"
    and "collected c w \<noteq> []" "ample (uheap w) (BUFFER_SIZE + length (collected c w))"
  shows "clientHandler_turn t c w = Inl OutOfBounds"
proof -
  let ?b = "bufferString c" and ?u = "uheap w"
  have ok: "heap_ok ?u" "temp_ok ?b ?u" using assms(1) by (auto simp: client_ok_def)
  from calloc_ample [OF ok(1) assms(7)] obtain k u1 where
    al: "calloc (of_nat BUFFER_SIZE) 1 ?u = (Ptr k, u1)" "heap_ok u1" "grant u1 = grant ?u"
    "blocks ?u k = None" "blocks u1 = (blocks ?u)(k \<mapsto> replicate BUFFER_SIZE nul)"
    "used u1 = used ?u + BUFFER_SIZE" by auto
  from collected_block [OF assms(1,6)] obtain a where
    a: "t_buffptr ?b = Ptr a" "blocks ?u a = Some (collected c w)" "unat (t_size ?b) = length (collected c w)" .
  have "a \<noteq> k" using a(2) al(4) by auto
  then have a1: "blocks u1 a = Some (collected c w)" using a(2) al(5) by simp
  have "t_size ?b \<noteq> 0" using a(3) assms(6) by auto
  then have "unat (t_size ?b - 1) \<le> length (collected c w)" using a(3) by (simp add: unat_minus_one)
  then have "ample u1 (unat (t_size ?b - 1))" using assms(7) al(3,6) by (simp add: ample_def)
  from kmalloc_ample [OF this] obtain a' u2 where "kmalloc (t_size ?b - 1) u1 = (Ptr a', u2)"
    by (cases "kmalloc (t_size ?b - 1) u1"; cases "fst (kmalloc (t_size ?b - 1) u1)") auto
  from server_buffer_add_minus_one [OF al(2) a(1) a1 _ assms(6) this] a(3)
  have "server_buffer_add ?b (Ptr k) (- 1) u1 = Inl OutOfBounds" by simp
  with assms(2-5) al(1) show ?thesis
    by (simp add: clientHandler_turn_def client_turn_def receive_turn_def recv_and_add_def recvLen_def Let_def)
qed

subsection \<open>A server with one client\<close>

text \<open>
  A world for concrete runs: the device just loaded, and a server heap that holds the client's
  \<open>clientData\<close> block at address 0; and turns whose system calls succeed.
\<close>

definition sample_uheap :: heap where
  "sample_uheap = snd (malloc 24 (empty_heap (\<lambda>_. True)))"

definition sample_world :: world where
  "sample_world = \<lparr>uheap = sample_uheap, kdevice = aesd_device loaded_module, kheap = loaded_heap,
     fileMutex = False, outbox = []\<rparr>"

definition sample_client :: client where
  "sample_client = \<lparr>newSockFd = 5, clientPtr = Ptr 0, bufferString = server_buffer_init, closes = 0\<rparr>"

definition sample_turn :: "bytes option \<Rightarrow> turn" where
  "sample_turn data = \<lparr>poll_ret = 1, pipe_ready = False, sock_ready = True, received = data, open_first = True,
     open_second = True, split = (\<lambda>x. [x]), ahead = 4096, send_fuel = 10000\<rparr>"

lemma sample_malloc: "kmalloc 24 (empty_heap (\<lambda>_. True)) = (Ptr 0, sample_uheap)"
  by (simp add: sample_uheap_def malloc_def empty_heap_def kmalloc_def Let_def PTRDIFF_MAX_def)

lemma sample_uheap_ok: "heap_ok sample_uheap" "0 \<in> dom (blocks sample_uheap)" "ample sample_uheap (4 * BUFFER_SIZE)"
proof -
  from kmalloc_Ptr [OF sample_malloc heap_ok_empty] show "heap_ok sample_uheap" "0 \<in> dom (blocks sample_uheap)"
    by auto
  show "ample sample_uheap (4 * BUFFER_SIZE)"
    by (simp add: ample_def sample_uheap_def malloc_def empty_heap_def kmalloc_def Let_def PTRDIFF_MAX_def BUFFER_SIZE_def)
qed

lemma ample_mono: "ample h n \<Longrightarrow> m \<le> n \<Longrightarrow> ample h m"
  by (simp add: ample_def)

lemma sample_kernel_ok:
  "kernel_ok (aesd_device loaded_module, opened, loaded_heap)"
  using loaded_ok by (auto simp: kernel_ok_def loaded_used)

lemma sample_idle: "idle sample_client sample_world"
  using sample_uheap_ok sample_kernel_ok loaded_ok(9) ample_mono [OF sample_uheap_ok(3), of "2 * BUFFER_SIZE"]
  by (simp add: idle_def sample_client_def sample_world_def)

lemma sample_room:
  "4 * BUFFER_SIZE + BUFFER_SIZE * n \<le> PTRDIFF_MAX - used loaded_heap" if "n \<le> 1000"
  using that by (simp add: loaded_used PTRDIFF_MAX_def BUFFER_SIZE_def)

text \<open>A client whose first bytes, without a newline, are collected: for runs that continue it.\<close>

definition collecting_uheap :: heap where
  "collecting_uheap = \<lparr>blocks = [0 \<mapsto> replicate 24 nul, 1 \<mapsto> ''ab''], brk = 2, grant = (\<lambda>_. True),
     junk = (\<lambda>_ _. nul), used = 26\<rparr>"

definition collecting_world :: world where
  "collecting_world = sample_world\<lparr>uheap := collecting_uheap\<rparr>"

definition collecting_client :: client where
  "collecting_client = sample_client\<lparr>bufferString := \<lparr>t_buffptr = Ptr 1, t_size = 2\<rparr>\<rparr>"

lemma collecting_ok: "client_ok collecting_client collecting_world" "collected collecting_client collecting_world = ''ab''"
  "ample (uheap collecting_world) (4 * BUFFER_SIZE)"
proof -
  have "blocksum [0 \<mapsto> replicate 24 nul, 1 \<mapsto> ''ab''] = 26" by (simp add: blocksum_insert)
  then show "client_ok collecting_client collecting_world"
    by (simp add: client_ok_def heap_ok_def collecting_world_def collecting_uheap_def collecting_client_def
        temp_ok_def PTRDIFF_MAX_def)
  show "collected collecting_client collecting_world = ''ab''"
    by (simp add: collected_def temp_data_def collecting_client_def collecting_world_def collecting_uheap_def)
  show "ample (uheap collecting_world) (4 * BUFFER_SIZE)"
    by (simp add: ample_def collecting_world_def collecting_uheap_def PTRDIFF_MAX_def BUFFER_SIZE_def)
qed

lemma collecting_device: "kdevice collecting_world = aesd_device loaded_module" "outbox collecting_world = []"
  by (simp_all add: collecting_world_def sample_world_def)

text \<open>The wrapped device of the driver's theory is one the kernel may hold.\<close>

lemma wrapped_kernel_ok: "kernel_ok (wrapped_dev, opened, wrapped_heap)"
  using wrapped_heap_ok wrapped_dev_ok wrapped_healthy by (simp add: kernel_ok_def wrapped_heap_def)

end
