(* ===== verification/Server_Main.thy ===== *)
theory Server_Main
  imports CMemory
begin

text \<open>
  The main thread of the socket server and its shutdown, \<open>main\<close>, \<open>cleanupMain\<close>, \<open>logAndExit\<close>
  and the signal handlers of \<^verbatim>\<open>server/src/aesdsocket.c\<close>, as an interleaving of the main thread
  with the client threads.

  Of a client thread that is kept which the shutdown depends on, its place in the loop: it polls,
  has a packet and waits for the file mutex, is in the section under the mutex, or has ended. A
  thread that polls ends by itself (its peer has closed the connection, or \<open>poll\<close> failed), or finds a
  byte in the pipe, takes it and ends; it goes for a packet only when the pipe is empty, since the
  pipe is looked at first. Main accepts connections until a signal sets \<open>stop\<close>, then writes one byte
  per started thread into the pipe and joins the threads in order. What the system calls return are
  arguments. Client threads that call \<open>logAndExit\<close> are in \<^verbatim>\<open>Server_Exit\<close>.
\<close>

definition MAX_THREADS :: nat where "MAX_THREADS = 128"

abbreviation (input) EXIT_SUCCESS :: int where "EXIT_SUCCESS \<equiv> 0"
abbreviation (input) EXIT_FAILURE :: int where "EXIT_FAILURE \<equiv> 1"

datatype cthread = TPoll | TWait | TCrit | TGone

datatype main_pc = AtLoop | InAccept | SendTokens nat | JoinThreads nat | CloseServer | Finished

record server =
  stop :: bool
  serverSockFd :: int
  server_open :: bool
  pipe_write :: int
  threadCount :: nat
  threads :: "cthread list"
  mutex :: "nat option"
  packets :: nat
  tokens :: nat
  exit_code :: int
  pc :: main_pc

text \<open>
  \<open>mutex\<close> is the thread that holds the file mutex; \<open>packets\<close> counts the packets that threads have gone
  for.
\<close>

definition running :: "server \<Rightarrow> bool list" where
  "running s = map (\<lambda>t. t \<noteq> TGone) (threads s)"

subsection \<open>Start-up\<close>

record startup_env =
  daemon_arg :: bool
  fork_ret :: int
  setsid_ret :: int
  socket_ret :: int
  setsockopt_ret :: int
  bind_ret :: int
  pipe_ret :: int
  pipe_fd :: int

datatype startup = ParentExit int | StartFailed string server | Serving server

definition fresh_server :: server where
  "fresh_server = \<lparr>stop = False, serverSockFd = 0, server_open = False, pipe_write = 0, threadCount = 0,
     threads = [], mutex = None, packets = 0, tokens = 0, exit_code = EXIT_SUCCESS, pc = AtLoop\<rparr>"

text \<open>\<open>cleanupMain\<close> is entered: tokens first, if there are threads and a pipe.\<close>

definition cleanupMain :: "server \<Rightarrow> server" where
  "cleanupMain s =
     s\<lparr>pc := if threadCount s > 0 \<and> pipe_write s > 0 then SendTokens 0
             else if threadCount s > 0 then JoinThreads 0 else CloseServer\<rparr>"

text \<open>
  \<open>logAndExit\<close>: a message too long for its buffer ends the process at once, any other is logged
  and the process cleans up before it ends.
\<close>

definition logAndExit :: "string \<Rightarrow> int \<Rightarrow> server \<Rightarrow> server" where
  "logAndExit msg code s =
     (if length msg \<ge> 256 - 64 then s\<lparr>pc := Finished, exit_code := EXIT_FAILURE\<rparr>
      else cleanupMain (s\<lparr>exit_code := code\<rparr>))"

definition main_startup :: "startup_env \<Rightarrow> startup" where
  "main_startup e =
     (let s = fresh_server in
      if daemon_arg e \<and> fork_ret e < 0 then
        StartFailed ''Failed to fork for daemon'' (logAndExit ''Failed to fork for daemon'' EXIT_FAILURE s)
      else if daemon_arg e \<and> fork_ret e > 0 then ParentExit EXIT_SUCCESS
      else if daemon_arg e \<and> setsid_ret e < 0 then
        StartFailed ''Failed to setsid'' (logAndExit ''Failed to setsid'' EXIT_FAILURE s)
      else
        let s1 = s\<lparr>serverSockFd := socket_ret e, server_open := (socket_ret e \<ge> 0)\<rparr> in
        if socket_ret e < 0 then
          StartFailed ''Failed to create socket'' (logAndExit ''Failed to create socket'' EXIT_FAILURE s1)
        else if setsockopt_ret e < 0 then
          StartFailed ''Failed to set socket options'' (logAndExit ''Failed to set socket options'' EXIT_FAILURE s1)
        else if bind_ret e < 0 then
          StartFailed ''Failed to bind socket'' (logAndExit ''Failed to bind socket'' EXIT_FAILURE s1)
        else if pipe_ret e < 0 then
          StartFailed ''Failed to create pipe for client handler''
            (logAndExit ''Failed to create pipe for client handler'' EXIT_FAILURE s1)
        else Serving (s1\<lparr>pipe_write := pipe_fd e\<rparr>))"

subsection \<open>The accept loop\<close>

definition SIGINTHandler :: "server \<Rightarrow> server" where
  "SIGINTHandler s = s\<lparr>stop := True\<rparr>"

definition SIGTERMHandler :: "server \<Rightarrow> server" where
  "SIGTERMHandler s = s\<lparr>stop := True\<rparr>"

text \<open>The test of the loop; leaving the loop runs \<open>cleanupMain\<close>.\<close>

definition loop_test :: "server \<Rightarrow> server" where
  "loop_test s = (if stop s then cleanupMain (s\<lparr>exit_code := EXIT_SUCCESS\<rparr>) else s\<lparr>pc := InAccept\<rparr>)"

text \<open>
  What \<open>accept\<close> returns: a descriptor, with whether the block for \<open>clientData\<close> can be allocated,
  or an error, with whether it is \<open>EINTR\<close>. The new thread's identifier goes to
  \<open>clientThreads[threadCount++]\<close>, an array of 128.
\<close>

datatype accepted = Connection bool | AcceptFailed bool

definition accept_return :: "accepted \<Rightarrow> server \<Rightarrow> server res" where
  "accept_return a s =
     (case a of
        AcceptFailed eintr \<Rightarrow>
          Inr (if eintr \<and> stop s then cleanupMain (s\<lparr>exit_code := EXIT_SUCCESS\<rparr>)
               else logAndExit ''Failed to accept connection'' EXIT_FAILURE s)
      | Connection allocated \<Rightarrow>
          if \<not> allocated then Inl NullDeref
          else if threadCount s \<ge> MAX_THREADS then Inl OutOfBounds
          else Inr (s\<lparr>threadCount := Suc (threadCount s), threads := threads s @ [TPoll], pc := AtLoop\<rparr>))"

subsection \<open>Cleaning up\<close>

text \<open>One step of \<open>cleanupMain\<close>; \<open>None\<close> while \<open>pthread_join\<close> waits.\<close>

definition cleanup_step :: "server \<Rightarrow> server option" where
  "cleanup_step s =
     (case pc s of
        SendTokens i \<Rightarrow>
          if i < threadCount s then Some (s\<lparr>tokens := Suc (tokens s), pc := SendTokens (Suc i)\<rparr>)
          else Some (s\<lparr>pc := JoinThreads 0\<rparr>)
      | JoinThreads i \<Rightarrow>
          if i < threadCount s then (if threads s ! i \<noteq> TGone then None else Some (s\<lparr>pc := JoinThreads (Suc i)\<rparr>))
          else Some (s\<lparr>pc := CloseServer\<rparr>)
      | CloseServer \<Rightarrow> Some (s\<lparr>server_open := (if serverSockFd s > 0 then False else server_open s), pc := Finished\<rparr>)
      | _ \<Rightarrow> None)"

text \<open>A client thread ends: by itself, or by taking a byte out of the pipe.\<close>

definition thread_end :: "nat \<Rightarrow> server \<Rightarrow> server" where
  "thread_end i s = s\<lparr>threads := (threads s)[i := TGone]\<rparr>"

definition thread_token :: "nat \<Rightarrow> server \<Rightarrow> server" where
  "thread_token i s = s\<lparr>threads := (threads s)[i := TGone], tokens := tokens s - 1\<rparr>"

text \<open>A client thread receives the end of a packet, locks the mutex, and gives it back.\<close>

definition thread_packet :: "nat \<Rightarrow> server \<Rightarrow> server" where
  "thread_packet i s = s\<lparr>threads := (threads s)[i := TWait], packets := Suc (packets s)\<rparr>"

definition thread_lock :: "nat \<Rightarrow> server \<Rightarrow> server" where
  "thread_lock i s = s\<lparr>threads := (threads s)[i := TCrit], mutex := Some i\<rparr>"

definition thread_served :: "nat \<Rightarrow> server \<Rightarrow> server" where
  "thread_served i s = s\<lparr>threads := (threads s)[i := TPoll], mutex := None\<rparr>"

lemmas thread_defs = thread_end_def thread_token_def thread_packet_def thread_lock_def thread_served_def

subsection \<open>The interleaving\<close>

definition at :: "nat \<Rightarrow> cthread \<Rightarrow> server \<Rightarrow> bool" where
  "at i t s \<longleftrightarrow> i < length (threads s) \<and> threads s ! i = t \<and> pc s \<noteq> Finished"

inductive server_step :: "server \<Rightarrow> server \<Rightarrow> bool" where
  sigint: "\<not> stop s \<Longrightarrow> pc s \<noteq> Finished \<Longrightarrow> server_step s (SIGINTHandler s)"
| sigterm: "\<not> stop s \<Longrightarrow> pc s \<noteq> Finished \<Longrightarrow> server_step s (SIGTERMHandler s)"
| test: "pc s = AtLoop \<Longrightarrow> server_step s (loop_test s)"
| accept: "pc s = InAccept \<Longrightarrow> accept_return a s = Inr s' \<Longrightarrow> server_step s s'"
| cleanup: "cleanup_step s = Some s' \<Longrightarrow> server_step s s'"
| ended: "at i TPoll s \<Longrightarrow> server_step s (thread_end i s)"
| token: "at i TPoll s \<Longrightarrow> 0 < tokens s \<Longrightarrow> server_step s (thread_token i s)"
| packet: "at i TPoll s \<Longrightarrow> tokens s = 0 \<Longrightarrow> server_step s (thread_packet i s)"
| lock: "at i TWait s \<Longrightarrow> mutex s = None \<Longrightarrow> server_step s (thread_lock i s)"
| served: "at i TCrit s \<Longrightarrow> server_step s (thread_served i s)"

inductive_cases server_stepE: "server_step s s'"

inductive reachable :: "server \<Rightarrow> server \<Rightarrow> bool" for s0 where
  start: "reachable s0 s0"
| step: "reachable s0 s \<Longrightarrow> server_step s s' \<Longrightarrow> reachable s0 s'"

subsection \<open>The invariant of the shutdown\<close>

definition nrun :: "bool list \<Rightarrow> nat" where
  "nrun bs = length (filter (\<lambda>b. b) bs)"

lemma nrun_le: "nrun (running s) \<le> length (threads s)"
  unfolding nrun_def running_def by (metis length_filter_le length_map)

lemma nrun_zero: "(\<And>j. j < length (threads s) \<Longrightarrow> threads s ! j = TGone) \<Longrightarrow> nrun (running s) = 0"
  by (auto simp: nrun_def running_def filter_empty_conv in_set_conv_nth)

lemma nrun_gone: "nrun (running s) = 0 \<Longrightarrow> i < length (threads s) \<Longrightarrow> threads s ! i = TGone"
  by (auto simp: nrun_def running_def filter_empty_conv)

text \<open>What a thread still has to do, at most, until it has ended; a sum over the threads.\<close>

primrec thread_work :: "cthread \<Rightarrow> nat" where
  "thread_work TPoll = 1"
| "thread_work TWait = 3"
| "thread_work TCrit = 2"
| "thread_work TGone = 0"

definition alive :: "cthread \<Rightarrow> nat" where
  "alive t = of_bool (t \<noteq> TGone)"

lemma sum_update:
  fixes f :: "cthread \<Rightarrow> nat"
  assumes "i < length ts"
  shows "sum_list (map f (ts[i := t])) + f (ts ! i) = sum_list (map f ts) + f t"
  using assms elem_le_sum_list [of i "map f ts"] by (simp add: map_update sum_list_update)

lemma nrun_sum: "nrun (running s) = sum_list (map alive (threads s))"
proof -
  have "nrun (map (\<lambda>t. t \<noteq> TGone) ts) = sum_list (map alive ts)" for ts
    by (induction ts) (auto simp: nrun_def alive_def)
  then show ?thesis by (simp add: running_def)
qed

lemma nrun_move:
  assumes "at i t s" "threads s' = (threads s)[i := t']"
  shows "nrun (running s') + alive t = nrun (running s) + alive t'"
  using assms sum_update [of i "threads s" alive t'] by (simp add: nrun_sum at_def)

text \<open>
  One token has been written for every thread that may still need one: what was written and not
  taken covers the threads that are running, since every token taken has ended one of them. The
  mutex is held exactly by the thread in the section.
\<close>

definition main_inv :: "server \<Rightarrow> bool" where
  "main_inv s \<longleftrightarrow> length (threads s) = threadCount s \<and> threadCount s \<le> MAX_THREADS \<and> 0 < pipe_write s \<and>
     (case pc s of
        AtLoop \<Rightarrow> tokens s = 0
      | InAccept \<Rightarrow> tokens s = 0
      | SendTokens i \<Rightarrow> i \<le> threadCount s \<and> i + nrun (running s) \<le> tokens s + threadCount s
      | JoinThreads i \<Rightarrow> i \<le> threadCount s \<and> nrun (running s) \<le> tokens s \<and> (\<forall>j<i. threads s ! j = TGone)
      | _ \<Rightarrow> nrun (running s) = 0)"

definition mutex_inv :: "server \<Rightarrow> bool" where
  "mutex_inv s \<longleftrightarrow> (\<forall>i. mutex s = Some i \<longleftrightarrow> i < length (threads s) \<and> threads s ! i = TCrit)"

definition server_inv :: "server \<Rightarrow> bool" where
  "server_inv s \<longleftrightarrow> main_inv s \<and> mutex_inv s"

lemma cleanupMain_inv:
  assumes "main_inv s"
  shows "main_inv (cleanupMain (s\<lparr>exit_code := n\<rparr>))"
  using assms nrun_le [of s] by (auto simp: main_inv_def cleanupMain_def running_def)

lemma mutex_inv_cong: "mutex s' = mutex s \<Longrightarrow> threads s' = threads s \<Longrightarrow> mutex_inv s' = mutex_inv s"
  by (simp add: mutex_inv_def)

text \<open>A thread that has not ended moves, taking a token if it ends.\<close>

lemma main_inv_move:
  assumes "main_inv s" "at i t s" "t \<noteq> TGone" "threads s' = (threads s)[i := t']"
    and "pc s' = pc s" "threadCount s' = threadCount s" "pipe_write s' = pipe_write s"
    and "tokens s' = tokens s \<or> t' = TGone \<and> 0 < tokens s \<and> tokens s' = tokens s - 1"
  shows "main_inv s'"
proof -
  have n: "nrun (running s') + 1 = nrun (running s) + alive t'" using nrun_move [OF assms(2,4)] assms(3) by (simp add: alive_def)
  have i: "i < length (threads s)" "threads s ! i \<noteq> TGone" using assms(2,3) by (auto simp: at_def)
  have le: "nrun (running s') \<le> nrun (running s)" using n by (cases "t' = TGone") (auto simp: alive_def)
  have gone: "\<forall>j<k. threads s' ! j = TGone" if "\<forall>j<k. threads s ! j = TGone" for k
    using that i(2) assms(4) by (metis nth_list_update_neq)
  have dead: "0 < nrun (running s)" using nrun_gone [of s i] i by auto
  show ?thesis
  proof (cases "tokens s' = tokens s")
    case True
    with assms(1,4-7) le gone dead show ?thesis by (auto simp: main_inv_def split: main_pc.splits)
  next
    case False
    then have "t' = TGone" "0 < tokens s" "tokens s' = tokens s - 1" using assms(8) by auto
    with assms(1,4-7) n gone dead show ?thesis by (auto simp: main_inv_def alive_def split: main_pc.splits)
  qed
qed

lemma mutex_inv_move:
  assumes "mutex_inv s" "at i t s" "threads s' = (threads s)[i := t']"
    and "if t' = TCrit then mutex s = None \<and> mutex s' = Some i else if t = TCrit then mutex s' = None else mutex s' = mutex s"
  shows "mutex_inv s'"
proof -
  have i: "i < length (threads s)" "threads s ! i = t" using assms(2) by (auto simp: at_def)
  have m: "mutex s = Some k \<longleftrightarrow> k < length (threads s) \<and> threads s ! k = TCrit" for k
    using assms(1) by (simp add: mutex_inv_def)
  have "mutex s' = Some j \<longleftrightarrow> j < length (threads s) \<and> (if j = i then t' else threads s ! j) = TCrit" for j
    using m [of i] m [of j] assms(4) i by (cases "j = i"; cases "t' = TCrit"; cases "t = TCrit") auto
  then show ?thesis using i(1) by (simp add: mutex_inv_def assms(3) nth_list_update)
qed

lemma cleanup_inv:
  assumes "main_inv s" "cleanup_step s = Some s'"
  shows "main_inv s'" "threads s' = threads s" "mutex s' = mutex s"
proof -
  show "main_inv s'"
  proof (cases "pc s")
    case (JoinThreads i)
    with assms show ?thesis
      by (auto simp: main_inv_def cleanup_step_def running_def less_Suc_eq split: if_splits)
        (metis nrun_zero running_def)
  qed (use assms in \<open>auto simp: main_inv_def cleanup_step_def running_def split: if_splits\<close>)
  show "threads s' = threads s" "mutex s' = mutex s"
    using assms(2) by (auto simp: cleanup_step_def split: main_pc.splits if_splits)
qed

lemma accept_inv:
  assumes "server_inv s" "pc s = InAccept" "accept_return a s = Inr s'"
  shows "server_inv s'"
proof (cases a)
  case (Connection ok)
  with assms have s': "s' = s\<lparr>threadCount := Suc (threadCount s), threads := threads s @ [TPoll], pc := AtLoop\<rparr>"
    "threadCount s < MAX_THREADS" by (auto simp: accept_return_def split: if_splits)
  have "(i < length (threads s @ [TPoll]) \<and> (threads s @ [TPoll]) ! i = TCrit) \<longleftrightarrow>
      (i < length (threads s) \<and> threads s ! i = TCrit)" for i by (auto simp: nth_append less_Suc_eq)
  then show ?thesis using assms(1,2) s' by (simp add: server_inv_def main_inv_def mutex_inv_def)
next
  case (AcceptFailed e)
  have "server_inv (cleanupMain (s\<lparr>exit_code := n\<rparr>))" for n
    using assms(1) cleanupMain_inv [of s n] mutex_inv_cong [of "cleanupMain (s\<lparr>exit_code := n\<rparr>)" s]
    by (simp add: server_inv_def) (simp add: cleanupMain_def)
  with AcceptFailed assms(3) show ?thesis
    by (auto simp: accept_return_def logAndExit_def split: if_splits)
qed

lemma signal_inv: "server_inv (s\<lparr>stop := True\<rparr>) = server_inv s"
  by (simp add: server_inv_def main_inv_def mutex_inv_def running_def cong: main_pc.case_cong)

lemma test_inv:
  assumes "server_inv s" "pc s = AtLoop"
  shows "server_inv (loop_test s)"
proof -
  have "server_inv (cleanupMain (s\<lparr>exit_code := n\<rparr>))" for n
    using assms(1) cleanupMain_inv [of s n] mutex_inv_cong [of "cleanupMain (s\<lparr>exit_code := n\<rparr>)" s]
    by (simp add: server_inv_def) (simp add: cleanupMain_def)
  with assms show ?thesis by (simp add: loop_test_def) (simp add: server_inv_def main_inv_def mutex_inv_def)
qed

lemma cthread_move_inv:
  assumes "server_inv s" "at i t s" "t \<noteq> TGone" "threads s' = (threads s)[i := t']"
    and "pc s' = pc s" "threadCount s' = threadCount s" "pipe_write s' = pipe_write s"
    and "tokens s' = tokens s \<or> t' = TGone \<and> 0 < tokens s \<and> tokens s' = tokens s - 1"
    and "if t' = TCrit then mutex s = None \<and> mutex s' = Some i else if t = TCrit then mutex s' = None else mutex s' = mutex s"
  shows "server_inv s'"
  using assms(1) main_inv_move [OF _ assms(2-8)] mutex_inv_move [OF _ assms(2,4,9)] by (simp add: server_inv_def)

lemma step_inv:
  assumes "server_inv s" "server_step s s'"
  shows "server_inv s'"
  using assms(2)
proof (cases rule: server_step.cases)
  case (accept a)
  then show ?thesis using accept_inv assms(1) by blast
next
  case cleanup
  then show ?thesis using cleanup_inv [of s s'] mutex_inv_cong [of s' s] assms(1) by (simp add: server_inv_def)
next
  case (ended i)
  then show ?thesis by (intro cthread_move_inv [OF assms(1) ended(2)]) (auto simp: thread_defs)
next
  case (token i)
  then show ?thesis by (intro cthread_move_inv [OF assms(1) token(2)]) (auto simp: thread_defs)
next
  case (packet i)
  then show ?thesis by (intro cthread_move_inv [OF assms(1) packet(2)]) (auto simp: thread_defs)
next
  case (lock i)
  then show ?thesis by (intro cthread_move_inv [OF assms(1) lock(2)]) (auto simp: thread_defs)
next
  case (served i)
  then show ?thesis by (intro cthread_move_inv [OF assms(1) served(2)]) (auto simp: thread_defs)
qed (use assms(1) in \<open>auto simp: SIGINTHandler_def SIGTERMHandler_def signal_inv intro: test_inv\<close>)

lemma reachable_inv: "reachable s0 s \<Longrightarrow> server_inv s0 \<Longrightarrow> server_inv s"
  by (induction rule: reachable.induct) (auto intro: step_inv)

subsection \<open>The shutdown ends\<close>

definition cleaning :: "server \<Rightarrow> bool" where
  "cleaning s \<longleftrightarrow> (case pc s of SendTokens i \<Rightarrow> True | JoinThreads i \<Rightarrow> True | CloseServer \<Rightarrow> True | _ \<Rightarrow> False)"

text \<open>All bytes are in the pipe.\<close>

definition tokens_written :: "server \<Rightarrow> bool" where
  "tokens_written s \<longleftrightarrow> (case pc s of JoinThreads i \<Rightarrow> True | CloseServer \<Rightarrow> True | Finished \<Rightarrow> True | _ \<Rightarrow> False)"

text \<open>What is left to do: tokens to write, joins, threads to end, a signal that may still come.\<close>

definition work_left :: "server \<Rightarrow> nat" where
  "work_left s = sum_list (map thread_work (threads s)) + (if stop s then 0 else 1) +
     (case pc s of
        SendTokens i \<Rightarrow> 2 * (threadCount s + 3) - i
      | JoinThreads i \<Rightarrow> threadCount s + 2 - i
      | CloseServer \<Rightarrow> 1
      | _ \<Rightarrow> 0)"

text \<open>While it cleans up the server is never stuck, whoever has to move.\<close>

lemma cleaning_progress:
  assumes "server_inv s" "cleaning s"
  shows "\<exists>s'. server_step s s'"
proof (cases "cleanup_step s")
  case None
  then obtain i where i: "pc s = JoinThreads i" "i < threadCount s" "threads s ! i \<noteq> TGone"
    using assms(2) by (auto simp: cleaning_def cleanup_step_def split: main_pc.splits if_splits)
  then have n: "nrun (running s) \<le> tokens s" "i < length (threads s)"
    using assms(1) by (auto simp: server_inv_def main_inv_def)
  have tok: "0 < tokens s" using n nrun_gone [of s i] i(3) by (cases "tokens s") auto
  show ?thesis
  proof (cases "threads s ! i")
    case TPoll
    with i n tok show ?thesis using server_step.token [of i s] by (auto simp: at_def)
  next
    case TWait
    show ?thesis
    proof (cases "mutex s")
      case None
      with TWait i n show ?thesis using server_step.lock [of i s] by (auto simp: at_def)
    next
      case (Some j)
      with assms(1) i(1) show ?thesis using server_step.served [of j s] by (auto simp: at_def server_inv_def mutex_inv_def)
    qed
  next
    case TCrit
    with i n show ?thesis using server_step.served [of i s] by (auto simp: at_def)
  qed (use i in simp)
qed (auto intro: server_step.cleanup)

text \<open>A thread that moves, and what it has left.\<close>

lemma work_move:
  assumes "at i t s" "threads s' = (threads s)[i := t']" "pc s' = pc s" "threadCount s' = threadCount s" "stop s' = stop s"
  shows "work_left s' + thread_work t = work_left s + thread_work t'"
  using assms sum_update [of i "threads s" thread_work t'] by (simp add: work_left_def at_def cong: main_pc.case_cong)

definition advances :: "server \<Rightarrow> server \<Rightarrow> bool" where
  "advances s s' \<longleftrightarrow> Suc (work_left s' + 3 * packets s) \<le> work_left s + 3 * packets s' \<and> packets s \<le> packets s' \<and>
     (cleaning s' \<or> pc s' = Finished) \<and> exit_code s' = exit_code s \<and>
     (tokens_written s \<longrightarrow> tokens_written s' \<and> packets s' = packets s)"

lemma thread_advances:
  assumes "at i t s" "cleaning s" "threads s' = (threads s)[i := t']" "thread_work t' < thread_work t"
    and "pc s' = pc s" "threadCount s' = threadCount s" "stop s' = stop s" "exit_code s' = exit_code s"
    and "packets s' = packets s"
  shows "advances s s'"
  using work_move [OF assms(1,3,5-7)] assms(2,4,5,8,9) by (simp add: advances_def cleaning_def tokens_written_def)

text \<open>Once all bytes are in the pipe and a thread is left, the pipe is not empty.\<close>

lemma pipe_filled:
  assumes "server_inv s" "tokens_written s" "at i TPoll s"
  shows "0 < tokens s"
proof -
  have "0 < nrun (running s)" using nrun_gone [of s i] assms(3) by (auto simp: at_def)
  with assms show ?thesis by (auto simp: server_inv_def main_inv_def tokens_written_def at_def split: main_pc.splits)
qed

lemma cleaning_step:
  assumes "server_inv s" "cleaning s" "server_step s s'"
  shows "advances s s'"
  using assms(3)
proof (cases rule: server_step.cases)
  case (ended i)
  then show ?thesis by (intro thread_advances [OF ended(2) assms(2)]) (auto simp: thread_defs)
next
  case (token i)
  then show ?thesis by (intro thread_advances [OF token(2) assms(2)]) (auto simp: thread_defs)
next
  case (lock i)
  then show ?thesis by (intro thread_advances [OF lock(2) assms(2)]) (auto simp: thread_defs)
next
  case (served i)
  then show ?thesis by (intro thread_advances [OF served(2) assms(2)]) (auto simp: thread_defs)
next
  case (packet i)
  then have "\<not> tokens_written s" using pipe_filled [OF assms(1) _ packet(2)] by auto
  moreover have "work_left s' = work_left s + 2"
    using work_move [OF packet(2), of s' TWait] packet(1) by (simp add: thread_packet_def)
  ultimately show ?thesis using assms(2) packet(1) by (simp add: advances_def thread_packet_def cleaning_def)
qed (use assms(1,2) in \<open>auto simp: advances_def work_left_def cleaning_def tokens_written_def server_inv_def main_inv_def
    SIGINTHandler_def SIGTERMHandler_def cleanup_step_def split: main_pc.splits if_splits\<close>)

lemma finished_stuck: "pc s = Finished \<Longrightarrow> \<not> server_step s s'"
  by (auto elim!: server_stepE simp: cleanup_step_def at_def)

lemma cleaning_reach:
  assumes "server_step\<^sup>*\<^sup>* s s'" "server_inv s" "cleaning s"
  shows "server_inv s' \<and> (cleaning s' \<or> pc s' = Finished) \<and> exit_code s' = exit_code s \<and> packets s \<le> packets s' \<and>
    (tokens_written s \<longrightarrow> tokens_written s' \<and> packets s' = packets s)"
  using assms
proof (induction rule: rtranclp_induct)
  case (step s1 s2)
  then have "server_inv s2" "advances s1 s2" using step_inv cleaning_step finished_stuck by blast+
  then show ?case using step by (auto simp: advances_def)
qed simp

text \<open>Every run is bounded but for the packets that threads go for.\<close>

lemma cleaning_bounded:
  "server_inv s \<Longrightarrow> cleaning s \<Longrightarrow> (server_step ^^ n) s s' \<Longrightarrow> n + 3 * packets s \<le> work_left s + 3 * packets s'"
proof (induction n arbitrary: s)
  case (Suc n)
  from Suc.prems(3) obtain s1 where s1: "server_step s s1" "(server_step ^^ n) s1 s'"
    by (meson relpowp_Suc_E2)
  note c = cleaning_step [OF Suc.prems(1,2) s1(1)] step_inv [OF Suc.prems(1) s1(1)]
  show ?case
  proof (cases "cleaning s1")
    case True
    with Suc.IH [OF c(2) True s1(2)] c(1) show ?thesis by (simp add: advances_def)
  next
    case False
    then have "pc s1 = Finished" using c(1) by (simp add: advances_def)
    with s1(2) finished_stuck [of s1] have "n = 0" by (metis not0_implies_Suc relpowp_Suc_D2)
    with c(1) s1(2) show ?thesis by (simp add: advances_def)
  qed
qed simp

text \<open>And from everywhere the end can be reached: main writes the rest of its bytes, after which all runs are bounded.\<close>

lemma written_finishes:
  "server_inv s \<Longrightarrow> cleaning s \<Longrightarrow> tokens_written s \<Longrightarrow> \<exists>s'. server_step\<^sup>*\<^sup>* s s' \<and> pc s' = Finished"
proof (induction "work_left s" arbitrary: s rule: less_induct)
  case less
  from cleaning_progress [OF less.prems(1,2)] obtain s1 where s1: "server_step s s1" by blast
  note c = cleaning_step [OF less.prems(1,2) s1] step_inv [OF less.prems(1) s1]
  show ?case
  proof (cases "pc s1 = Finished")
    case False
    then have "work_left s1 < work_left s" "cleaning s1" "tokens_written s1" using c(1) less.prems(3) by (auto simp: advances_def)
    with less.hyps [of s1] c(2) obtain s' where "server_step\<^sup>*\<^sup>* s1 s'" "pc s' = Finished" by blast
    with s1 show ?thesis by (meson converse_rtranclp_into_rtranclp)
  qed (use s1 in blast)
qed

lemma tokens_get_written:
  "cleaning s \<Longrightarrow> \<exists>s'. server_step\<^sup>*\<^sup>* s s' \<and> cleaning s' \<and> tokens_written s'"
proof (induction "case pc s of SendTokens i \<Rightarrow> Suc (threadCount s) - i | _ \<Rightarrow> 0" arbitrary: s rule: less_induct)
  case less
  show ?case
  proof (cases "pc s")
    case (SendTokens i)
    let ?s = "if i < threadCount s then s\<lparr>tokens := Suc (tokens s), pc := SendTokens (Suc i)\<rparr> else s\<lparr>pc := JoinThreads 0\<rparr>"
    have st: "server_step s ?s" using SendTokens by (intro server_step.cleanup) (simp add: cleanup_step_def)
    show ?thesis
    proof (cases "i < threadCount s")
      case True
      then have "cleaning ?s" "(case pc ?s of SendTokens i \<Rightarrow> Suc (threadCount ?s) - i | _ \<Rightarrow> 0) <
          (case pc s of SendTokens i \<Rightarrow> Suc (threadCount s) - i | _ \<Rightarrow> 0)"
        using SendTokens by (simp_all add: cleaning_def)
      from less.hyps [OF this(2,1)] obtain s' where "server_step\<^sup>*\<^sup>* ?s s'" "cleaning s'" "tokens_written s'" by blast
      with st show ?thesis by (meson converse_rtranclp_into_rtranclp)
    next
      case False
      then have "cleaning ?s" "tokens_written ?s" by (simp_all add: cleaning_def tokens_written_def)
      with st show ?thesis by blast
    qed
  qed (use less.prems in \<open>auto simp: cleaning_def tokens_written_def\<close>)
qed

lemma cleaning_finishes:
  assumes "server_inv s" "cleaning s"
  shows "\<exists>s'. server_step\<^sup>*\<^sup>* s s' \<and> pc s' = Finished"
proof -
  obtain s1 where s1: "server_step\<^sup>*\<^sup>* s s1" "cleaning s1" "tokens_written s1" using tokens_get_written [OF assms(2)] by blast
  have "server_inv s1" using cleaning_reach [OF s1(1) assms] by simp
  from written_finishes [OF this s1(2,3)] s1(1) show ?thesis by (meson rtranclp_trans)
qed

subsection \<open>Connections over the life of the server\<close>

text \<open>
  A connection that is accepted and closed again: the slot in \<open>clientThreads\<close> is not reused.
\<close>

definition short_connection :: "server \<Rightarrow> server" where
  "short_connection s = s\<lparr>threadCount := Suc (threadCount s), threads := threads s @ [TGone]\<rparr>"

lemma short_connection_reachable:
  assumes "reachable s0 s" "pc s = AtLoop" "\<not> stop s" "threadCount s < MAX_THREADS"
    and "length (threads s) = threadCount s"
  shows "reachable s0 (short_connection s)"
proof -
  let ?s1 = "s\<lparr>pc := InAccept\<rparr>"
  let ?s2 = "s\<lparr>threadCount := Suc (threadCount s), threads := threads s @ [TPoll]\<rparr>"
  have "server_step s ?s1" using server_step.test [OF assms(2)] assms(3) by (simp add: loop_test_def)
  moreover have "server_step ?s1 ?s2"
    by (rule server_step.accept [of _ "Connection True"]) (use assms(2,4) in \<open>simp_all add: accept_return_def\<close>)
  moreover have "server_step ?s2 (short_connection s)"
    using server_step.ended [of "threadCount s" ?s2] assms(2,5)
    by (simp add: thread_end_def short_connection_def at_def nth_append list_update_append)
  ultimately show ?thesis using assms(1) by (meson reachable.step)
qed

lemma many_short_connections:
  assumes "pc s0 = AtLoop" "\<not> stop s0" "threadCount s0 = 0" "threads s0 = []" "n \<le> MAX_THREADS"
  shows "reachable s0 (s0\<lparr>threadCount := n, threads := replicate n TGone\<rparr>)"
  using assms(5)
proof (induction n)
  case 0
  have "s0\<lparr>threadCount := 0, threads := []\<rparr> = s0" using assms(3,4) by simp
  then show ?case by (simp add: reachable.start)
next
  case (Suc n)
  let ?s = "s0\<lparr>threadCount := n, threads := replicate n TGone\<rparr>"
  have "reachable s0 (short_connection ?s)"
    using Suc assms(1,2) by (intro short_connection_reachable) auto
  then show ?case by (simp add: short_connection_def replicate_append_same flip: replicate_Suc)
qed

subsection \<open>Properties of the server process\<close>

lemma startup_inv: "main_startup e = Serving s \<Longrightarrow> 0 < pipe_fd e \<Longrightarrow> server_inv s"
  by (auto simp: main_startup_def Let_def fresh_server_def server_inv_def main_inv_def mutex_inv_def split: if_splits)

text \<open>
  C14. Shutdown by the main thread, with client threads that poll, wait for the file mutex, hold it or
  have ended, as long as none of them calls \<open>logAndExit\<close>. In every state the server can reach once it has
  begun to clean up, whether after a signal or after a failed \<open>accept\<close>, and however main, the threads
  and a signal interleave: the number of steps is bounded by the work left and three for every
  packet that a thread goes for; once the bytes are in the pipe no thread goes for another packet;
  no state but the final one is stuck; the final state can be reached; and whenever it is reached
  every client thread has ended, nobody holds the mutex, and the exit status is the one chosen.
\<close>

theorem server_shutdown_finishes:
  assumes "main_startup e = Serving s0" "0 < pipe_fd e" "reachable s0 s" "cleaning s"
  shows "(\<forall>n s'. (server_step ^^ n) s s' \<longrightarrow> n \<le> work_left s + 3 * (packets s' - packets s)) \<and>
    (\<forall>s'. tokens_written s \<and> server_step\<^sup>*\<^sup>* s s' \<longrightarrow> packets s' = packets s) \<and>
    (\<forall>s'. server_step\<^sup>*\<^sup>* s s' \<longrightarrow> pc s' = Finished \<or> (\<exists>s''. server_step s' s'')) \<and>
    (\<exists>s'. server_step\<^sup>*\<^sup>* s s' \<and> pc s' = Finished) \<and>
    (\<forall>s'. server_step\<^sup>*\<^sup>* s s' \<and> pc s' = Finished \<longrightarrow>
       nrun (running s') = 0 \<and> mutex s' = None \<and> exit_code s' = exit_code s)"
proof -
  have inv: "server_inv s" using reachable_inv [OF assms(3)] startup_inv [OF assms(1,2)] .
  have bound: "n \<le> work_left s + 3 * (packets s' - packets s)" if "(server_step ^^ n) s s'" for n s'
    using cleaning_bounded [OF inv assms(4) that] cleaning_reach [OF relpowp_imp_rtranclp [OF that] inv assms(4)] by simp
  have fin: "nrun (running s') = 0 \<and> mutex s' = None \<and> exit_code s' = exit_code s"
    if "server_step\<^sup>*\<^sup>* s s'" "pc s' = Finished" for s'
  proof -
    from cleaning_reach [OF that(1) inv assms(4)] that(2) have "nrun (running s') = 0" "mutex_inv s'" "exit_code s' = exit_code s"
      by (auto simp: server_inv_def main_inv_def)
    moreover have "mutex s' \<noteq> Some i" for i
      using calculation(1,2) nrun_gone [of s' i] by (auto simp: mutex_inv_def)
    ultimately show ?thesis by (cases "mutex s'") auto
  qed
  show ?thesis
    using bound fin cleaning_reach [OF _ inv assms(4)] cleaning_progress cleaning_finishes [OF inv assms(4)] by blast
qed

definition sample_env :: startup_env where
  "sample_env = \<lparr>daemon_arg = False, fork_ret = 0, setsid_ret = 0, socket_ret = 3, setsockopt_ret = 0,
     bind_ret = 0, pipe_ret = 0, pipe_fd = 5\<rparr>"

definition sample_server :: server where
  "sample_server = fresh_server\<lparr>serverSockFd := 3, server_open := True, pipe_write := 5\<rparr>"

lemma sample_startup: "main_startup sample_env = Serving sample_server"
  by (simp add: main_startup_def sample_env_def sample_server_def Let_def)

theorem server_shutdown_finishes_witness:
  "\<exists>s. reachable sample_server s \<and> threads s = [TWait] \<and> cleaning s \<and>
    (\<exists>s'. server_step\<^sup>*\<^sup>* s s' \<and> pc s' = Finished \<and> nrun (running s') = 0)"
proof -
  let ?s1 = "sample_server\<lparr>pc := InAccept\<rparr>"
  let ?s2 = "sample_server\<lparr>threadCount := 1, threads := [TPoll]\<rparr>"
  let ?s3 = "thread_packet 0 ?s2"
  let ?s4 = "SIGINTHandler ?s3"
  let ?s5 = "loop_test ?s4"
  have f: "pc sample_server = AtLoop" "\<not> stop sample_server" "threadCount sample_server = 0"
    "threads sample_server = []" "pipe_write sample_server = 5" "tokens sample_server = 0"
    by (simp_all add: sample_server_def fresh_server_def)
  have "server_step sample_server ?s1"
    using server_step.test [OF f(1)] f(2) by (simp add: loop_test_def)
  moreover have "server_step ?s1 ?s2"
    by (rule server_step.accept [of _ "Connection True"]) (use f in \<open>simp_all add: accept_return_def MAX_THREADS_def\<close>)
  moreover have "server_step ?s2 ?s3" by (rule server_step.packet) (use f in \<open>simp_all add: at_def\<close>)
  moreover have "server_step ?s3 ?s4" by (rule server_step.sigint) (use f in \<open>simp_all add: thread_packet_def\<close>)
  moreover have "server_step ?s4 ?s5" by (rule server_step.test) (use f in \<open>simp add: SIGINTHandler_def thread_packet_def\<close>)
  ultimately have r: "reachable sample_server ?s5" by (meson reachable.start reachable.step)
  have c: "cleaning ?s5" "threads ?s5 = [TWait]"
    using f by (simp_all add: loop_test_def SIGINTHandler_def thread_packet_def cleanupMain_def cleaning_def)
  have "0 < pipe_fd sample_env" by (simp add: sample_env_def)
  from server_shutdown_finishes [OF sample_startup this r c(1)] r c show ?thesis by blast
qed

text \<open>
  C15. The array of thread identifiers is never reused: after 128 connections, all of them closed
  again, the server waits for the next, and accepting it writes behind the end of the array.
\<close>

theorem server_thread_array_overflow:
  assumes "main_startup e = Serving s0"
  shows "\<exists>s. reachable s0 s \<and> pc s = InAccept \<and> nrun (running s) = 0 \<and>
    accept_return (Connection True) s = Inl OutOfBounds"
proof -
  have f: "pc s0 = AtLoop" "\<not> stop s0" "threadCount s0 = 0" "threads s0 = []"
    using assms by (auto simp: main_startup_def Let_def fresh_server_def split: if_splits)
  let ?s = "s0\<lparr>threadCount := MAX_THREADS, threads := replicate MAX_THREADS TGone\<rparr>"
  have "reachable s0 ?s" using many_short_connections [OF f] by simp
  moreover have "server_step ?s (?s\<lparr>pc := InAccept\<rparr>)"
    using server_step.test [of ?s] f by (simp add: loop_test_def)
  ultimately have "reachable s0 (?s\<lparr>pc := InAccept\<rparr>)" by (rule reachable.step)
  moreover have "nrun (running (?s\<lparr>pc := InAccept\<rparr>)) = 0" by (rule nrun_zero) simp
  ultimately show ?thesis
    by (intro exI [of _ "?s\<lparr>pc := InAccept\<rparr>"]) (simp add: accept_return_def)
qed

theorem server_thread_array_overflow_witness:
  "\<exists>s. reachable sample_server s \<and> accept_return (Connection True) s = Inl OutOfBounds"
  using server_thread_array_overflow [OF sample_startup] by blast

end
