(* ===== verification/Connections.thy ===== *)
theory Connections
  imports Client_Handler Server_Main Simulation
begin

text \<open>
  All connections of the socket server at once, in either build. Every connection has its thread,
  its collected bytes and its socket; the threads share the heap of the process, its table of
  descriptors, the file mutex and what they store their packets in. The main thread accepts
  connections and starts a thread for each (\<open>accept_step\<close>). A client thread is cut where it may have to
  wait for others and where others can see what it does: it receives (\<open>recv_step\<close>: an iteration of its
  loop up to the mutex; when its peer has closed the descriptor is closed in this step), it cleans up
  after it has left its loop, which closes the descriptor again (\<open>leave_step\<close>), it locks the
  mutex (\<open>lock_step\<close>) and it runs the section under the mutex, which gives it back (\<open>serve_step\<close>). A
  schedule is a list of such steps, of any threads in any order, and of things that others do to
  the store. A step that a thread cannot take leaves everything as it is. A thread that calls
  \<open>logAndExit\<close> is marked as exiting; what it does then is \<^verbatim>\<open>Server_Exit\<close>.

  Sockets are numbered like the connections. \<open>send\<close> and \<open>poll\<close> go through the table: bytes sent on a
  descriptor reach the peer of the socket that the table has for it at that time, and on a
  descriptor that is not open they are lost; \<open>poll\<close> reports no data on a descriptor that is not open. A
  peer that is sent something reads it; \<open>send\<close> does not fail.

  \<open>spec_server\<close> is the abstract server that the threads implement (\<^verbatim>\<open>Packet_Service\<close>): one store for
  all, and for every connection the bytes collected and the bytes sent. It also counts the
  receive buffers that threads leave behind.
\<close>

datatype phase = Receiving | AtLock | InSection | Leaving | Exiting | Ended

record conn =
  conn_client :: client
  conn_sent :: "bytes list"
  conn_phase :: phase

text \<open>The open descriptors of client sockets.\<close>

type_synonym fd_table = "int \<Rightarrow> nat option"

type_synonym 'w conns = "conn list \<times> fd_table \<times> 'w world_scheme"

datatype 'e happening = Accept int | Recv nat turn | Leave nat | Lock nat | Serve nat turn | Other 'e

text \<open>
  A connection with descriptor \<open>fd\<close>: the block for its \<open>clientData\<close> (two integers and an address of 16
  bytes; what is stored in it is kept in \<open>client\<close>) is allocated and cleared, the result of \<open>malloc\<close>
  unchecked, and the new thread's identifier goes to \<open>clientThreads\<close>. \<open>pthread_create\<close> is taken to
  succeed.
\<close>

definition client_data_size :: size_t where "client_data_size = 24"

definition accepted_conn :: "int \<Rightarrow> nat \<Rightarrow> conn" where
  "accepted_conn fd p = \<lparr>conn_client = \<lparr>newSockFd = fd, clientPtr = Ptr p, bufferString = server_buffer_init,
     closes = 0\<rparr>, conn_sent = [], conn_phase = Receiving\<rparr>"

fun accept_step :: "int \<Rightarrow> 'w conns \<Rightarrow> (control \<times> 'w conns) res" where
  "accept_step fd (cs, ft, w) =
     (case malloc client_data_size (uheap w) of
        (NULL, uh) \<Rightarrow> Inl NullDeref
      | (Ptr p, uh) \<Rightarrow>
          andthen (memset (Ptr p) nul client_data_size uh) (\<lambda>uh1.
          if length cs \<ge> MAX_THREADS then Inl OutOfBounds
          else Inr (Loop, cs @ [accepted_conn fd p], ft(fd \<mapsto> length cs), w\<lparr>uheap := uh1\<rparr>)))"

text \<open>A thread that has a packet arrives at the mutex.\<close>

definition arrive :: "turn \<Rightarrow> client \<Rightarrow> 'w world_scheme \<Rightarrow> 'w handled" where
  "arrive t c w = Inr (Blocked, c, w)"

text \<open>What the calls of \<open>close\<close> that a thread has made do to the table.\<close>

definition after_close :: "client \<Rightarrow> client \<Rightarrow> fd_table \<Rightarrow> fd_table" where
  "after_close c c1 ft = (if closes c1 = closes c then ft else ft(newSockFd c := None))"

text \<open>What \<open>poll\<close> reports, when the descriptor is open and when it is not.\<close>

definition polled :: "nat option \<Rightarrow> turn \<Rightarrow> turn" where
  "polled s t = (if s = None then t\<lparr>sock_ready := False\<rparr> else t)"

definition recv_phase :: "control \<Rightarrow> phase" where
  "recv_phase ctl = (case ctl of Loop \<Rightarrow> Receiving | Blocked \<Rightarrow> AtLock | Break \<Rightarrow> Leaving | _ \<Rightarrow> Exiting)"

fun recv_step :: "nat \<Rightarrow> turn \<Rightarrow> 'w conns \<Rightarrow> (control \<times> 'w conns) res" where
  "recv_step i t (cs, ft, w) =
     (if i < length cs \<and> conn_phase (cs ! i) = Receiving then
        let c = conn_client (cs ! i) in
        andthen (client_turn arrive (polled (ft (newSockFd c)) t) c w) (\<lambda>(ctl, c1, w1).
        Inr (ctl, cs[i := (cs ! i)\<lparr>conn_client := c1, conn_phase := recv_phase ctl\<rparr>], after_close c c1 ft, w1))
      else Inr (Blocked, cs, ft, w))"

fun leave_step :: "nat \<Rightarrow> 'w conns \<Rightarrow> (control \<times> 'w conns) res" where
  "leave_step i (cs, ft, w) =
     (if i < length cs \<and> conn_phase (cs ! i) = Leaving then
        let c = conn_client (cs ! i) in
        andthen (cleanupClientHandler c w) (\<lambda>(c1, w1).
        Inr (Break, cs[i := (cs ! i)\<lparr>conn_client := c1, conn_phase := Ended\<rparr>], after_close c c1 ft, w1))
      else Inr (Blocked, cs, ft, w))"

fun lock_step :: "nat \<Rightarrow> 'w conns \<Rightarrow> (control \<times> 'w conns) res" where
  "lock_step i (cs, ft, w) =
     (if i < length cs \<and> conn_phase (cs ! i) = AtLock \<and> \<not> fileMutex w
      then Inr (Loop, cs[i := (cs ! i)\<lparr>conn_phase := InSection\<rparr>], ft, w\<lparr>fileMutex := True\<rparr>)
      else Inr (Blocked, cs, ft, w))"

text \<open>What the peer of a socket has been sent.\<close>

definition sent_to :: "nat option \<Rightarrow> conn list \<Rightarrow> bytes list" where
  "sent_to s cs = (case s of None \<Rightarrow> [] | Some j \<Rightarrow> conn_sent (cs ! j))"

definition put_sent :: "nat option \<Rightarrow> bytes list \<Rightarrow> conn list \<Rightarrow> conn list" where
  "put_sent s out cs = (case s of None \<Rightarrow> cs | Some j \<Rightarrow> cs[j := (cs ! j)\<lparr>conn_sent := out\<rparr>])"

definition serve_phase :: "control \<Rightarrow> phase" where
  "serve_phase ctl = (case ctl of Loop \<Rightarrow> Receiving | Spinning \<Rightarrow> InSection | _ \<Rightarrow> Exiting)"

fun serve_step ::
    "(turn \<Rightarrow> client \<Rightarrow> 'w world_scheme \<Rightarrow> 'w handled) \<Rightarrow> nat \<Rightarrow> turn \<Rightarrow> 'w conns \<Rightarrow> (control \<times> 'w conns) res" where
  "serve_step section_body i t (cs, ft, w) =
     (if i < length cs \<and> conn_phase (cs ! i) = InSection then
        let c = conn_client (cs ! i); s = ft (newSockFd c) in
        andthen (section_body t c (w\<lparr>outbox := sent_to s cs\<rparr>)) (\<lambda>(ctl, c1, w1).
        let cs1 = put_sent s (outbox w1) cs in
        Inr (ctl, cs1[i := (cs1 ! i)\<lparr>conn_client := c1, conn_phase := serve_phase ctl\<rparr>], ft, w1))
      else Inr (Blocked, cs, ft, w))"

fun threads_step ::
    "(turn \<Rightarrow> client \<Rightarrow> 'w world_scheme \<Rightarrow> 'w handled) \<Rightarrow> ('e \<Rightarrow> 'w world_scheme \<Rightarrow> 'w world_scheme res) \<Rightarrow>
     'e happening \<Rightarrow> 'w conns \<Rightarrow> (control \<times> 'w conns) res" where
  "threads_step section_body other (Accept fd) s = accept_step fd s"
| "threads_step section_body other (Recv i t) s = recv_step i t s"
| "threads_step section_body other (Leave i) s = leave_step i s"
| "threads_step section_body other (Lock i) s = lock_step i s"
| "threads_step section_body other (Serve i t) s = serve_step section_body i t s"
| "threads_step section_body other (Other e) (cs, ft, w) = andthen (other e w) (\<lambda>w1. Inr (Loop, cs, ft, w1))"

text \<open>The pieces of one thread in a row are its iteration.\<close>

lemma turn_by_steps:
  "client_turn packet t c w = andthen (client_turn arrive t c w) (\<lambda>(ctl, c1, w1).
     if ctl = Blocked then packet t c1 w1 else Inr (ctl, c1, w1))"
  by (auto simp: client_turn_def receive_turn_def arrive_def Let_def
      split: prod.split ptr.split andthen_split)

subsection \<open>The abstract server\<close>

record aconn =
  a_fd :: int
  a_coll :: bytes
  a_out :: bytes
  a_phase :: phase

record 'a aserver =
  v_store :: 'a
  v_lock :: bool
  v_leaks :: nat
  v_conns :: "aconn list"

definition set_conn :: "nat \<Rightarrow> aconn \<Rightarrow> 'a aserver \<Rightarrow> 'a aserver" where
  "set_conn i a v = v\<lparr>v_conns := (v_conns v)[i := a]\<rparr>"

lemma set_conn_simps [simp]: "v_store (set_conn i a v) = v_store v" "v_lock (set_conn i a v) = v_lock v"
  "v_leaks (set_conn i a v) = v_leaks v" "v_conns (set_conn i a v) = (v_conns v)[i := a]"
  by (simp_all add: set_conn_def)

definition turn_data :: "turn \<Rightarrow> bytes" where
  "turn_data t = (case received t of None \<Rightarrow> [] | Some xs \<Rightarrow> xs)"

text \<open>The search for a newline looks at as many bytes as were received, from the first collected.\<close>

definition completes :: "bytes \<Rightarrow> bytes \<Rightarrow> bool" where
  "completes coll xs \<longleftrightarrow> newline \<in> set (take (length xs) (coll @ xs))"

definition in_phase :: "phase \<Rightarrow> nat \<Rightarrow> 'a aserver \<Rightarrow> bool" where
  "in_phase ph i v \<longleftrightarrow> i < length (v_conns v) \<and> a_phase (v_conns v ! i) = ph"

definition new_aconn :: "int \<Rightarrow> aconn" where
  "new_aconn fd = \<lparr>a_fd = fd, a_coll = [], a_out = [], a_phase = Receiving\<rparr>"

definition spec_accept :: "int \<Rightarrow> 'a aserver \<Rightarrow> control \<times> 'a aserver" where
  "spec_accept fd v = (Loop, v\<lparr>v_conns := v_conns v @ [new_aconn fd]\<rparr>)"

definition spec_recv :: "nat \<Rightarrow> turn \<Rightarrow> 'a aserver \<Rightarrow> control \<times> 'a aserver" where
  "spec_recv i t v =
     (if in_phase Receiving i v then
        let a = v_conns v ! i; xs = turn_data t; v1 = v\<lparr>v_leaks := Suc (v_leaks v)\<rparr> in
        if told_to_end t then (Break, set_conn i (a\<lparr>a_phase := Leaving\<rparr>) v1)
        else if idle_turn t then (Loop, v1)
        else if xs = [] then (Break, set_conn i (a\<lparr>a_coll := [], a_phase := Leaving\<rparr>) v)
        else if completes (a_coll a) xs then (Blocked, set_conn i (a\<lparr>a_coll := a_coll a @ xs, a_phase := AtLock\<rparr>) v)
        else (Loop, set_conn i (a\<lparr>a_coll := a_coll a @ xs\<rparr>) v)
      else (Blocked, v))"

definition spec_leave :: "nat \<Rightarrow> 'a aserver \<Rightarrow> control \<times> 'a aserver" where
  "spec_leave i v =
     (if in_phase Leaving i v then (Break, set_conn i ((v_conns v ! i)\<lparr>a_coll := [], a_phase := Ended\<rparr>) v) else (Blocked, v))"

definition spec_lock :: "nat \<Rightarrow> 'a aserver \<Rightarrow> control \<times> 'a aserver" where
  "spec_lock i v =
     (if in_phase AtLock i v \<and> \<not> v_lock v
      then (Loop, set_conn i ((v_conns v ! i)\<lparr>a_phase := InSection\<rparr>) (v\<lparr>v_lock := True\<rparr>)) else (Blocked, v))"

definition spec_serve ::
    "(turn \<Rightarrow> bytes \<Rightarrow> 'a \<Rightarrow> control \<times> bytes \<times> 'a) \<Rightarrow> nat \<Rightarrow> turn \<Rightarrow> 'a aserver \<Rightarrow> control \<times> 'a aserver" where
  "spec_serve spec_packet i t v =
     (if in_phase InSection i v then
        let a = v_conns v ! i; (ctl, answer, st) = spec_packet t (a_coll a) (v_store v) in
        (ctl, set_conn i (a\<lparr>a_coll := [], a_out := a_out a @ answer, a_phase := (if ctl = Loop then Receiving else Exiting)\<rparr>)
                (v\<lparr>v_store := st, v_lock := False\<rparr>))
      else (Blocked, v))"

fun spec_server ::
    "(turn \<Rightarrow> bytes \<Rightarrow> 'a \<Rightarrow> control \<times> bytes \<times> 'a) \<Rightarrow> ('e \<Rightarrow> 'a \<Rightarrow> 'a) \<Rightarrow> 'e happening \<Rightarrow> 'a aserver \<Rightarrow> control \<times> 'a aserver" where
  "spec_server spec_packet spec_other (Accept fd) v = spec_accept fd v"
| "spec_server spec_packet spec_other (Recv i t) v = spec_recv i t v"
| "spec_server spec_packet spec_other (Leave i) v = spec_leave i v"
| "spec_server spec_packet spec_other (Lock i) v = spec_lock i v"
| "spec_server spec_packet spec_other (Serve i t) v = spec_serve spec_packet i t v"
| "spec_server spec_packet spec_other (Other e) v = (Loop, v\<lparr>v_store := spec_other e (v_store v)\<rparr>)"

lemmas spec_defs = spec_accept_def spec_recv_def spec_leave_def spec_lock_def spec_serve_def

text \<open>
  The happenings considered. No more connections are accepted than the array of threads can hold, and
  \<open>accept\<close> returns a positive descriptor that no connection has which has not ended. That it is not open is
  what the kernel guarantees; that it is not one which a thread has closed once and will close again
  is an assumption, see \<open>Double_Close\<close>. A thread that receives gets data, or the end of it, or is told to
  end, or \<open>poll\<close> has nothing for it; a packet that is served is one the store \<open>accepts\<close>; what others do
  \<open>fits\<close> the mutex.
\<close>

definition fresh_fd :: "int \<Rightarrow> aconn list \<Rightarrow> bool" where
  "fresh_fd fd as \<longleftrightarrow> 0 < fd \<and> (\<forall>a\<in>set as. a_phase a \<noteq> Ended \<longrightarrow> a_fd a \<noteq> fd)"

fun regular ::
    "(turn \<Rightarrow> bytes \<Rightarrow> 'a \<Rightarrow> bool) \<Rightarrow> ('e \<Rightarrow> bool \<Rightarrow> bool) \<Rightarrow> 'e happening \<Rightarrow> 'a aserver \<Rightarrow> bool" where
  "regular accepts fits (Accept fd) v \<longleftrightarrow> length (v_conns v) < MAX_THREADS \<and> fresh_fd fd (v_conns v)"
| "regular accepts fits (Recv i t) v \<longleftrightarrow>
     (in_phase Receiving i v \<longrightarrow> idle_turn t \<or> close_turn t \<or> data_turn t (turn_data t))"
| "regular accepts fits (Leave i) v \<longleftrightarrow> True"
| "regular accepts fits (Lock i) v \<longleftrightarrow> True"
| "regular accepts fits (Serve i t) v \<longleftrightarrow> (in_phase InSection i v \<longrightarrow> accepts t (a_coll (v_conns v ! i)) (v_store v))"
| "regular accepts fits (Other e) v \<longleftrightarrow> fits e (v_lock v)"

fun regular_run ::
    "('h \<Rightarrow> 'v \<Rightarrow> 'x \<times> 'v) \<Rightarrow> ('h \<Rightarrow> 'v \<Rightarrow> bool) \<Rightarrow> 'h list \<Rightarrow> 'v \<Rightarrow> bool" where
  "regular_run spec ok [] v = True"
| "regular_run spec ok (h # hs) v = (ok h v \<and> regular_run spec ok hs (snd (spec h v)))"

subsection \<open>Mutual exclusion\<close>

definition conn_sum :: "(aconn \<Rightarrow> nat) \<Rightarrow> 'a aserver \<Rightarrow> nat" where
  "conn_sum f v = sum_list (map f (v_conns v))"

lemma conn_sum_update:
  assumes "i < length (v_conns v)"
  shows "conn_sum f (set_conn i a v) + f (v_conns v ! i) = conn_sum f v + f a"
proof -
  have "map f (v_conns v) ! i \<le> sum_list (map f (v_conns v))" using assms by (intro elem_le_sum_list) simp
  then show ?thesis using assms by (simp add: conn_sum_def set_conn_def map_update sum_list_update)
qed

lemma conn_sum_store [simp]: "conn_sum f (v\<lparr>v_store := x\<rparr>) = conn_sum f v" "conn_sum f (v\<lparr>v_lock := b\<rparr>) = conn_sum f v"
  "conn_sum f (v\<lparr>v_leaks := n\<rparr>) = conn_sum f v"
  by (simp_all add: conn_sum_def)

definition inside :: "aconn \<Rightarrow> nat" where
  "inside a = of_bool (a_phase a = InSection)"

text \<open>The mutex is held exactly when one thread, and no more, is in the section.\<close>

definition exclusive :: "'a aserver \<Rightarrow> bool" where
  "exclusive v \<longleftrightarrow> conn_sum inside v = of_bool (v_lock v)"

lemma inside_locked: "exclusive v \<Longrightarrow> in_phase InSection i v \<Longrightarrow> v_lock v"
  using elem_le_sum_list [of i "map inside (v_conns v)"]
  by (cases "v_lock v") (auto simp: exclusive_def in_phase_def conn_sum_def inside_def)

lemma exclusive_step:
  assumes "exclusive v"
  shows "exclusive (snd (spec_server spec_packet spec_other h v))"
proof (cases h)
  case (Accept fd)
  then show ?thesis using assms by (simp add: spec_accept_def exclusive_def conn_sum_def inside_def new_aconn_def)
next
  case (Recv i t)
  then show ?thesis
    using assms conn_sum_update [of i v inside] conn_sum_update [of i "v\<lparr>v_leaks := Suc (v_leaks v)\<rparr>" inside]
    by (auto simp: spec_recv_def exclusive_def in_phase_def inside_def Let_def)
next
  case (Leave i)
  then show ?thesis using assms conn_sum_update [of i v inside "(v_conns v ! i)\<lparr>a_coll := [], a_phase := Ended\<rparr>"]
    by (auto simp: spec_leave_def exclusive_def in_phase_def inside_def)
next
  case (Lock i)
  then show ?thesis using assms conn_sum_update [of i "v\<lparr>v_lock := True\<rparr>" inside "(v_conns v ! i)\<lparr>a_phase := InSection\<rparr>"]
    by (auto simp: spec_lock_def exclusive_def in_phase_def inside_def set_conn_def)
next
  case (Serve i t)
  then show ?thesis using assms inside_locked [OF assms, of i]
      conn_sum_update [of i "v\<lparr>v_store := snd (snd (spec_packet t (a_coll (v_conns v ! i)) (v_store v))), v_lock := False\<rparr>" inside]
    by (auto simp: spec_serve_def exclusive_def in_phase_def inside_def set_conn_def case_prod_beta Let_def)
next
  case (Other e)
  then show ?thesis using assms by (simp add: exclusive_def)
qed

text \<open>
  Nobody waits for ever: a thread at the mutex has its packet served in at most three steps, the
  first of which may be that of the thread that holds the mutex.
\<close>

definition served :: "nat \<Rightarrow> 'a aserver \<Rightarrow> bool" where
  "served i v \<longleftrightarrow> in_phase Receiving i v \<or> in_phase Exiting i v"

lemma lock_then_serve:
  assumes "in_phase AtLock i v" "\<not> v_lock v"
  shows "served i (snd (run_spec (spec_server spec_packet spec_other) [Lock i, Serve i t] v))"
  using assms by (simp add: spec_defs in_phase_def served_def Let_def case_prod_beta)

lemma waiting_is_served:
  assumes "exclusive v" "in_phase AtLock i v"
  shows "\<exists>hs. length hs \<le> 3 \<and> served i (snd (run_spec (spec_server spec_packet spec_other) hs v))"
proof (cases "v_lock v")
  case True
  then have "sum_list (map inside (v_conns v)) \<noteq> 0" using assms(1) by (simp add: exclusive_def conn_sum_def)
  then obtain j where j: "in_phase InSection j v"
    by (auto simp: inside_def in_phase_def in_set_conv_nth split: if_splits)
  let ?v = "snd (spec_serve spec_packet j undefined v)"
  have "in_phase AtLock i ?v" "\<not> v_lock ?v"
    using assms(2) j by (auto simp: spec_serve_def in_phase_def Let_def case_prod_beta nth_list_update)
  then have "served i (snd (run_spec (spec_server spec_packet spec_other) [Lock i, Serve i undefined] ?v))"
    by (rule lock_then_serve)
  then show ?thesis by (intro exI [of _ "[Serve j undefined, Lock i, Serve i undefined]"]) (simp add: case_prod_beta)
next
  case False
  with lock_then_serve [OF assms(2), of spec_packet spec_other undefined] show ?thesis
    by (intro exI [of _ "[Lock i, Serve i undefined]"]) simp
qed

subsection \<open>Descriptors\<close>

text \<open>
  The table agrees with the connections: a connection that has not left its loop has its descriptor
  open, an open descriptor belongs to a connection that has not ended, and no two such connections
  have the same.
\<close>

definition fds_ok :: "fd_table \<Rightarrow> aconn list \<Rightarrow> bool" where
  "fds_ok ft as \<longleftrightarrow>
     (\<forall>i<length as. a_phase (as ! i) \<notin> {Leaving, Ended} \<longrightarrow> ft (a_fd (as ! i)) = Some i) \<and>
     (\<forall>fd j. ft fd = Some j \<longrightarrow> j < length as \<and> a_phase (as ! j) \<noteq> Ended \<and> a_fd (as ! j) = fd) \<and>
     (\<forall>i<length as. \<forall>j<length as. i \<noteq> j \<longrightarrow> a_phase (as ! i) \<noteq> Ended \<longrightarrow> a_phase (as ! j) \<noteq> Ended \<longrightarrow>
        a_fd (as ! i) \<noteq> a_fd (as ! j)) \<and>
     (\<forall>i<length as. a_phase (as ! i) \<noteq> Ended \<longrightarrow> 0 < a_fd (as ! i))"

lemma fds_start: "fds_ok Map.empty []"
  by (simp add: fds_ok_def)

lemma fds_accept:
  assumes "fds_ok ft as" "fresh_fd fd as"
  shows "fds_ok (ft(fd \<mapsto> length as)) (as @ [new_aconn fd])"
proof -
  have n: "a_phase (as ! i) \<noteq> Ended \<Longrightarrow> i < length as \<Longrightarrow> a_fd (as ! i) \<noteq> fd" for i
    using assms(2) nth_mem by (auto simp: fresh_fd_def)
  show ?thesis
    using assms n unfolding fds_ok_def
    by (intro conjI allI impI) (auto simp: nth_append less_Suc_eq new_aconn_def fresh_fd_def split: if_splits)
qed

text \<open>A connection that keeps its descriptor, and one whose descriptor is closed.\<close>

lemma fds_keep:
  assumes "fds_ok ft as" "i < length as" "a_fd a = a_fd (as ! i)" "a_phase (as ! i) \<notin> {Leaving, Ended}" "a_phase a \<noteq> Ended"
  shows "fds_ok ft (as[i := a])"
  using assms unfolding fds_ok_def
  by (intro conjI allI impI) (auto simp: nth_list_update split: if_splits)

lemma fds_closed:
  assumes "fds_ok ft as" "i < length as" "a_fd a = a_fd (as ! i)" "a_phase (as ! i) \<noteq> Ended" "a_phase a \<in> {Leaving, Ended}"
  shows "fds_ok (ft(a_fd (as ! i) := None)) (as[i := a])"
  using assms unfolding fds_ok_def
  by (intro conjI allI impI) (auto simp: nth_list_update split: if_splits)

end
