(* ===== verification/Ownership.thy ===== *)
theory Ownership
  imports Connections
begin

text \<open>
  Which blocks of the server's heap belong to which connection of \<^verbatim>\<open>Connections\<close>, what is left of the
  heap beside them, and the memory that a schedule needs. \<open>held\<close> says that every connection is as the
  abstract server has it, that no block belongs to two of them, and that beside them there is what was there
  from the start and as many lost receive buffers as the abstract server counts. Its lemmas are the
  ways in which a step changes the heap: one connection moves, a buffer is lost, a connection is
  accepted, a connection ends.
\<close>

subsection \<open>What a connection owns\<close>

definition own :: "conn \<Rightarrow> nat set" where
  "own k = ptr_set (clientPtr (conn_client k)) \<union> temp_fp (bufferString (conn_client k))"

definition owned :: "conn list \<Rightarrow> nat set" where
  "owned cs = \<Union> (own ` set cs)"

definition separate :: "conn list \<Rightarrow> bool" where
  "separate cs \<longleftrightarrow> (\<forall>i<length cs. \<forall>j<length cs. i \<noteq> j \<longrightarrow> own (cs ! i) \<inter> own (cs ! j) = {})"

text \<open>A connection and what the abstract server knows of it.\<close>

definition conn_rel :: "heap \<Rightarrow> conn \<Rightarrow> aconn \<Rightarrow> bool" where
  "conn_rel u k a \<longleftrightarrow> conn_phase k = a_phase a \<and> concat (conn_sent k) = a_out a \<and> newSockFd (conn_client k) = a_fd a \<and>
     temp_ok (bufferString (conn_client k)) u \<and> temp_data (bufferString (conn_client k)) u = a_coll a \<and>
     (if conn_phase k \<noteq> Ended then
        (\<exists>p. clientPtr (conn_client k) = Ptr p \<and> p \<in> dom (blocks u) \<and> p \<notin> temp_fp (bufferString (conn_client k)))
      else own k = {}) \<and>
     (conn_phase k = AtLock \<or> conn_phase k = InSection \<longrightarrow> a_coll a \<noteq> [])"

lemma conn_rel_live: "conn_rel u k a \<Longrightarrow> own k \<subseteq> dom (blocks u)"
  using temp_ok_fp_live [of "bufferString (conn_client k)" u]
  by (auto simp: conn_rel_def own_def split: if_splits)

lemma conn_rel_frame:
  assumes "conn_rel u k a" "\<And>x. x \<in> own k \<Longrightarrow> blocks u' x = blocks u x"
  shows "conn_rel u' k a"
proof -
  have "temp_ok (bufferString (conn_client k)) u' = temp_ok (bufferString (conn_client k)) u"
    "temp_data (bufferString (conn_client k)) u' = temp_data (bufferString (conn_client k)) u"
    using assms(2) by (intro temp_frame; simp add: own_def)+
  moreover have "p \<in> dom (blocks u') \<longleftrightarrow> p \<in> dom (blocks u)" if "clientPtr (conn_client k) = Ptr p" for p
    using assms(2) [of p] that by (simp add: own_def domIff)
  ultimately show ?thesis using assms(1) by (auto simp: conn_rel_def)
qed

lemma owned_update:
  assumes "i < length cs"
  shows "owned (cs[i := k]) = own k \<union> \<Union> {own (cs ! j) | j. j < length cs \<and> j \<noteq> i}"
proof -
  have "set (cs[i := k]) = insert k {cs ! j | j. j < length cs \<and> j \<noteq> i}"
    using assms by (auto simp: set_conv_nth nth_list_update split: if_splits)
  then show ?thesis by (auto simp: owned_def)
qed

text \<open>
  One connection moves: if what it does to the heap stays within what it owned before and owns
  after, the others are as they were and own other blocks.
\<close>

lemma conns_move:
  assumes "list_all2 (conn_rel u) cs as" "separate cs" "i < length cs"
    and "blocks u' |` (- own k') = blocks u |` (- own (cs ! i))" "conn_rel u' k' a'"
  shows "list_all2 (conn_rel u') (cs[i := k']) (as[i := a'])" "separate (cs[i := k'])"
    "blocks u' |` (- owned (cs[i := k'])) = blocks u |` (- owned cs)"
proof -
  let ?G = "\<Union> {own (cs ! j) | j. j < length cs \<and> j \<noteq> i}"
  have rel: "conn_rel u (cs ! j) (as ! j)" if "j < length cs" for j using assms(1) that by (simp add: list_all2_conv_all_nth)
  have "?G \<inter> own (cs ! i) = {}" using assms(2,3) by (auto simp: separate_def)
  moreover have "?G \<subseteq> dom (blocks u)" using conn_rel_live [OF rel] by blast
  ultimately have G: "?G \<inter> own (cs ! i) = {}" "?G \<subseteq> dom (blocks u)" .
  note fu = frame_union [OF assms(4) G]
  have o: "owned cs = own (cs ! i) \<union> ?G" using owned_update [OF assms(3), of "cs ! i"] by simp
  show "blocks u' |` (- owned (cs[i := k'])) = blocks u |` (- owned cs)"
    unfolding owned_update [OF assms(3)] o by (rule fu(1))
  have keep: "conn_rel u' (cs ! j) (as ! j)" if "j < length cs" "j \<noteq> i" for j
    using that by (intro conn_rel_frame [OF rel] fu(3)) auto
  then show "list_all2 (conn_rel u') (cs[i := k']) (as[i := a'])"
    using assms(1,3,5) by (auto simp: list_all2_conv_all_nth nth_list_update)
  have "own k' \<inter> own (cs ! j) = {}" if "j < length cs" "j \<noteq> i" for j using fu(2) that by blast
  then show "separate (cs[i := k'])"
    using assms(2,3) by (auto simp: separate_def nth_list_update Int_commute)
qed

text \<open>A thread that keeps its \<open>clientData\<close> and changes its collected bytes.\<close>

lemma conn_moved:
  assumes "conn_rel (uheap w) k a" "conn_phase k \<noteq> Ended" "clientPtr c' = clientPtr (conn_client k)"
    and "newSockFd c' = newSockFd (conn_client k)" "client_ok c' w'" "other_blocks c' w' = blocks (uheap w) |` (- temp_fp (bufferString (conn_client k)))"
    and "k' = \<lparr>conn_client = c', conn_sent = ys, conn_phase = ph\<rparr>" "ph \<noteq> Ended"
    and "ph \<noteq> Receiving \<Longrightarrow> collected c' w' \<noteq> []"
  shows "blocks (uheap w') |` (- own k') = blocks (uheap w) |` (- own k)"
    "conn_rel (uheap w') k' \<lparr>a_fd = a_fd a, a_coll = collected c' w', a_out = concat ys, a_phase = ph\<rparr>"
proof -
  let ?F = "temp_fp (bufferString (conn_client k))" and ?F' = "temp_fp (bufferString c')"
  obtain p where p: "clientPtr (conn_client k) = Ptr p" "p \<in> dom (blocks (uheap w))" "p \<notin> ?F"
    using assms(1,2) by (auto simp: conn_rel_def)
  have fr: "blocks (uheap w') |` (- ?F') = blocks (uheap w) |` (- ?F)"
    using assms(6) by (simp add: other_blocks_def)
  have G: "{p} \<inter> ?F = {}" "{p} \<subseteq> dom (blocks (uheap w))" using p by auto
  note fu = frame_union [OF fr G]
  have o: "own k = ?F \<union> {p}" "own k' = ?F' \<union> {p}" using p(1) assms(3,7) by (auto simp: own_def)
  show "blocks (uheap w') |` (- own k') = blocks (uheap w) |` (- own k)" unfolding o by (rule fu(1))
  show "conn_rel (uheap w') k' \<lparr>a_fd = a_fd a, a_coll = collected c' w', a_out = concat ys, a_phase = ph\<rparr>"
    using fu(2,4) p assms(1,3-5,7-9) by (auto simp: conn_rel_def client_ok_def collected_def)
qed

lemma blocksum_restrict_le:
  assumes "finite (dom m)"
  shows "blocksum (m |` A) \<le> blocksum m"
proof -
  have "blocksum (m |` A) = (\<Sum>a\<in>dom m \<inter> A. length (the (m a)))" unfolding blocksum_def by (rule sum.cong) auto
  also have "\<dots> \<le> blocksum m" unfolding blocksum_def using assms by (intro sum_mono2) auto
  finally show ?thesis .
qed

subsection \<open>The heap beside the connections\<close>

text \<open>The blocks of \<open>B\<close> and \<open>n\<close> receive buffers that nobody owns.\<close>

definition leaked :: "(nat \<Rightarrow> bytes option) \<Rightarrow> (nat \<Rightarrow> bytes option) \<Rightarrow> nat \<Rightarrow> bool" where
  "leaked B m n \<longleftrightarrow> B \<subseteq>\<^sub>m m \<and> finite (dom m - dom B) \<and> card (dom m - dom B) = n \<and>
     (\<forall>a\<in>dom m - dom B. m a = Some (replicate BUFFER_SIZE nul))"

lemma leaked_none: "leaked B B 0"
  by (simp add: leaked_def)

lemma leaked_more:
  assumes "leaked B m n" "m k = None"
  shows "leaked B (m(k \<mapsto> replicate BUFFER_SIZE nul)) (Suc n)"
proof -
  have k: "k \<notin> dom B" using assms by (metis domIff leaked_def map_le_def domI)
  then have "dom (m(k \<mapsto> replicate BUFFER_SIZE nul)) - dom B = insert k (dom m - dom B)" by auto
  moreover have "k \<notin> dom m - dom B" using assms(2) by auto
  moreover have "B \<subseteq>\<^sub>m m(k \<mapsto> replicate BUFFER_SIZE nul)" using assms(1) k by (auto simp: leaked_def map_le_def)
  ultimately show ?thesis using assms(1) by (auto simp: leaked_def)
qed

definition held :: "(nat \<Rightarrow> bytes option) \<Rightarrow> nat \<Rightarrow> heap \<Rightarrow> conn list \<Rightarrow> aconn list \<Rightarrow> bool" where
  "held B n u cs as \<longleftrightarrow> heap_ok u \<and> list_all2 (conn_rel u) cs as \<and> separate cs \<and>
     leaked B (blocks u |` (- owned cs)) n"

lemma held_start: "heap_ok u \<Longrightarrow> held (blocks u) 0 u [] []"
  using leaked_none by (simp add: held_def separate_def owned_def)

lemma owned_live: "list_all2 (conn_rel u) cs as \<Longrightarrow> owned cs \<subseteq> dom (blocks u)"
  using conn_rel_live by (fastforce simp: owned_def list_all2_conv_all_nth in_set_conv_nth)

lemma held_moves:
  assumes "held B n u cs as" "i < length cs" "heap_ok u'"
    and "blocks u' |` (- own k') = blocks u |` (- own (cs ! i))" "conn_rel u' k' a'"
  shows "held B n u' (cs[i := k']) (as[i := a'])"
  using assms(1,3) conns_move [OF _ _ assms(2,4,5), of as] by (simp add: held_def)

text \<open>A new block changes nothing for the connections.\<close>

lemma new_block_rel:
  assumes "list_all2 (conn_rel u) cs as" "blocks u k = None" "blocks u' = (blocks u)(k \<mapsto> bs)"
  shows "list_all2 (conn_rel u') cs as" "k \<notin> owned cs"
proof -
  show k: "k \<notin> owned cs" using owned_live [OF assms(1)] assms(2) by auto
  show "list_all2 (conn_rel u') cs as"
    using assms(1)
  proof (rule list.rel_mono_strong)
    fix c a
    assume "c \<in> set cs" "conn_rel u c a"
    moreover from this(1) have "k \<notin> own c" using k by (auto simp: owned_def)
    ultimately show "conn_rel u' c a" using assms(3) by (auto intro: conn_rel_frame)
  qed
qed

lemma held_leak:
  assumes "held B n u cs as" "heap_ok u'" "blocks u k = None"
    and "blocks u' = (blocks u)(k \<mapsto> replicate BUFFER_SIZE nul)"
  shows "held B (Suc n) u' cs as"
proof -
  note new = new_block_rel [OF _ assms(3,4), of cs as]
  have "blocks u' |` (- owned cs) = (blocks u |` (- owned cs))(k \<mapsto> replicate BUFFER_SIZE nul)"
    using assms(1,4) new(2) by (auto simp: held_def restrict_map_def)
  with assms(1,2) new(1) leaked_more [of B "blocks u |` (- owned cs)" n k] assms(3) show ?thesis
    by (simp add: held_def restrict_map_def)
qed

lemma own_accepted: "own (accepted_conn fd p) = {p}"
  by (simp add: own_def accepted_conn_def ubuf.init_ok)

lemma accepted_rel: "p \<in> dom (blocks u) \<Longrightarrow> conn_rel u (accepted_conn fd p) (new_aconn fd)"
  using ubuf.init_ok by (auto simp: conn_rel_def accepted_conn_def new_aconn_def)

lemma held_accept:
  assumes "held B n u cs as" "heap_ok u'" "blocks u p = None" "blocks u' = (blocks u)(p \<mapsto> bs)"
  shows "held B n u' (cs @ [accepted_conn fd p]) (as @ [new_aconn fd])"
proof -
  let ?k = "accepted_conn fd p"
  have H: "list_all2 (conn_rel u) cs as" "separate cs" "leaked B (blocks u |` (- owned cs)) n"
    using assms(1) by (auto simp: held_def)
  note new = new_block_rel [OF H(1) assms(3,4)]
  have o: "owned (cs @ [?k]) = insert p (owned cs)" by (simp add: owned_def own_accepted)
  have "blocks u' |` (- owned (cs @ [?k])) = blocks u |` (- owned cs)"
    unfolding o using assms(3,4) by (auto simp: restrict_map_def)
  moreover have "p \<notin> own (cs ! j)" if "j < length cs" for j using new(2) that by (auto simp: owned_def)
  then have "separate (cs @ [?k])"
    using H(2) by (auto simp: separate_def nth_append own_accepted less_Suc_eq)
  moreover have "list_all2 (conn_rel u') (cs @ [?k]) (as @ [new_aconn fd])"
    using new(1) accepted_rel [of p u' fd] assms(4) by (simp add: list_all2_appendI)
  ultimately show ?thesis using assms(2) H(3) by (simp add: held_def)
qed

text \<open>A thread that has left its loop cleans up.\<close>

lemma held_end:
  assumes "held B n (uheap w) cs as" "i < length cs" "conn_phase (cs ! i) \<noteq> Ended" "0 < newSockFd (conn_client (cs ! i))"
  obtains c u where "cleanupClientHandler (conn_client (cs ! i)) w = Inr (c, w\<lparr>uheap := u\<rparr>)"
    "closes c = Suc (closes (conn_client (cs ! i)))"
    "held B n u (cs[i := (cs ! i)\<lparr>conn_client := c, conn_phase := Ended\<rparr>])
       (as[i := (as ! i)\<lparr>a_coll := [], a_phase := Ended\<rparr>])"
    "grant u = grant (uheap w)" "used u \<le> used (uheap w)"
proof -
  let ?k = "cs ! i" and ?c = "conn_client (cs ! i)"
  have r: "conn_rel (uheap w) ?k (as ! i)" "heap_ok (uheap w)"
    using assms(1,2) by (auto simp: held_def list_all2_nthD)
  have ok: "client_ok ?c w" using r by (simp add: client_ok_def conn_rel_def)
  obtain p where p: "clientPtr ?c = Ptr p" "p \<in> dom (blocks (uheap w))" "p \<notin> temp_fp (bufferString ?c)"
    using r(1) assms(3) by (auto simp: conn_rel_def)
  let ?c2 = "?c\<lparr>bufferString := server_buffer_init, clientPtr := NULL, closes := Suc (closes ?c)\<rparr>"
  from cleanup_connection [OF ok p] assms(4) obtain u where
    cl: "cleanupClientHandler ?c w = Inr (?c2, w\<lparr>uheap := u\<rparr>)"
    and u: "heap_ok u" "blocks u = (other_blocks ?c w)(p := None)" "grant u = grant (uheap w)" by auto
  let ?k' = "?k\<lparr>conn_client := ?c2, conn_phase := Ended\<rparr>"
  have o: "own ?k' = {}" by (simp add: own_def ubuf.init_ok)
  have bl: "blocks u = blocks (uheap w) |` (- own ?k)"
    unfolding u(2) using p(1) by (auto simp: other_blocks_def own_def restrict_map_def)
  have "conn_rel u ?k' ((as ! i)\<lparr>a_coll := [], a_phase := Ended\<rparr>)"
    using r(1) o ubuf.init_ok by (simp add: conn_rel_def)
  from held_moves [OF assms(1,2) u(1) _ this] bl o
  have "held B n u (cs[i := ?k']) (as[i := (as ! i)\<lparr>a_coll := [], a_phase := Ended\<rparr>])" by simp
  moreover have "used u \<le> used (uheap w)"
    using blocksum_restrict_le [of "blocks (uheap w)" "- own ?k"] bl u(1) r(2) by (simp add: heap_ok_def)
  ultimately show thesis using that [of ?c2 u] cl u(3) by simp
qed

subsection \<open>Resources\<close>

definition coll_total :: "'a aserver \<Rightarrow> nat" where
  "coll_total v = conn_sum (\<lambda>a. length (a_coll a)) v"

text \<open>
  Memory and fuel that are enough for \<open>n\<close> more happenings: each adds at most \<open>BUFFER_SIZE\<close> bytes
  to what is collected or stored, and what is collected may have to be stored and copied. \<open>space_left\<close> is
  what the store can still take, \<open>need\<close> what it may copy beside a packet, and \<open>extent\<close> how much
  may be sent.
\<close>

definition enough ::
    "('w world_scheme \<Rightarrow> nat) \<Rightarrow> ('a \<Rightarrow> nat) \<Rightarrow> ('a \<Rightarrow> nat) \<Rightarrow> 'e happening list \<Rightarrow> 'w world_scheme \<Rightarrow> 'a aserver \<Rightarrow> bool" where
  "enough space_left need extent hs w v \<longleftrightarrow> (\<forall>k. grant (uheap w) k) \<and>
     2 * used (uheap w) + 2 * BUFFER_SIZE * Suc (length hs) \<le> PTRDIFF_MAX \<and>
     need (v_store v) + 6 * (coll_total v + BUFFER_SIZE * length hs) \<le> space_left w \<and>
     (\<forall>i t. Serve i t \<in> set hs \<longrightarrow> extent (v_store v) + coll_total v + BUFFER_SIZE * length hs \<le> send_fuel t)"

lemma coll_update:
  "i < length (v_conns v) \<Longrightarrow>
   coll_total (set_conn i a v) + length (a_coll (v_conns v ! i)) = coll_total v + length (a_coll a)"
  using conn_sum_update [of i v "\<lambda>a. length (a_coll a)" a] by (simp add: coll_total_def)

text \<open>A heap is what lies outside a buffer and the buffer.\<close>

lemma used_split:
  assumes "heap_ok u" "temp_ok b u"
  shows "used u = blocksum (blocks u |` (- temp_fp b)) + length (temp_data b u)"
  using assms(2)
proof (cases rule: temp_ok_cases)
  case (Block a bs)
  have "blocks u |` (- {a}) = (blocks u)(a := None)" by (auto simp: restrict_map_def)
  with Block assms(1) blocksum_split [of "blocks u" a bs] show ?thesis
    by (simp add: heap_ok_def temp_fp_def temp_data_def)
qed (use assms(1) in \<open>simp add: heap_ok_def temp_fp_def temp_data_def\<close>)

lemma client_used:
  assumes "client_ok c w" "client_ok c' w'" "other_blocks c' w' = other_blocks c w"
  shows "used (uheap w') + length (collected c w) = used (uheap w) + length (collected c' w')"
  using used_split [of "uheap w" "bufferString c"] used_split [of "uheap w'" "bufferString c'"] assms
  by (simp add: client_ok_def other_blocks_def collected_def)

text \<open>The thread that moves, as \<open>Client_Handler\<close> sees it.\<close>

lemma conn_client_ok:
  assumes "conn_rel (uheap w) k a" "heap_ok (uheap w)"
  shows "client_ok (conn_client k) w" "collected (conn_client k) w = a_coll a"
    "client_ok (conn_client k) (w\<lparr>outbox := out\<rparr>)" "collected (conn_client k) (w\<lparr>outbox := out\<rparr>) = a_coll a"
  using assms by (simp_all add: client_ok_def collected_def conn_rel_def)

lemma enough_step:
  assumes "enough space_left need extent (h # hs) w v" "grant (uheap w') = grant (uheap w)"
    and "used (uheap w') \<le> used (uheap w) + BUFFER_SIZE"
    and "need (v_store v') + 6 * coll_total v' + space_left w \<le> need (v_store v) + 6 * (coll_total v + BUFFER_SIZE) + space_left w'"
    and "extent (v_store v') + coll_total v' \<le> extent (v_store v) + coll_total v + BUFFER_SIZE"
  shows "enough space_left need extent hs w' v'"
  using assms by (fastforce simp: enough_def)

end
