(* ===== verification/Packet_Service.thy ===== *)
theory Packet_Service
  imports Ownership
begin

text \<open>
  The contract between the threads of \<^verbatim>\<open>Connections\<close> and the store behind them, and the proof that the
  server implements the abstract server. The locale \<open>packet_service\<close> is what the threads rely on: the
  laws of the section under the mutex and of the store. It is interpreted on the character
  device (\<^verbatim>\<open>Server_Connections\<close>) and on the file that the other build uses, with the timestamp thread
  (\<^verbatim>\<open>File_Server\<close>).
\<close>

text \<open>The block that \<open>accept_step\<close> allocates and clears.\<close>

lemma new_client_data:
  assumes "heap_ok u" "ample u (unat client_data_size)"
  obtains p u1 u2 where "malloc client_data_size u = (Ptr p, u1)" "memset (Ptr p) nul client_data_size u1 = Inr u2"
    "heap_ok u2" "grant u2 = grant u" "blocks u p = None" "blocks u2 = (blocks u)(p \<mapsto> replicate 24 nul)"
    "used u2 = used u + 24"
proof -
  obtain q u1 where al: "kmalloc client_data_size u = (q, u1)" by fastforce
  then have "q \<noteq> NULL" using assms(2) by (auto simp: kmalloc_def Let_def ample_def split: if_splits)
  then obtain p where p: "q = Ptr p" by (cases q) auto
  note m = kmalloc_Ptr [OF al [unfolded p] assms(1)]
  from m(5) obtain bs where bs: "blocks u1 = (blocks u)(p \<mapsto> bs)" "length bs = 24" by (auto simp: client_data_size_def)
  from store_block [OF m(1), of p bs 0 "replicate 24 nul"] bs obtain u2 where
    u2: "store (Ptr p) 0 (replicate 24 nul) u1 = Inr u2" "heap_ok u2" "grant u2 = grant u1"
    "blocks u2 = (blocks u1)(p \<mapsto> replicate 24 nul)" by auto
  have bl: "blocks u2 = (blocks u)(p \<mapsto> replicate 24 nul)" using u2(4) bs(1) by simp
  show thesis
    using that [of p u1 u2] al p m(2,4) u2(1-3) bl used_of_blocks [OF assms(1) u2(2) bl m(4)]
    by (simp add: malloc_eq memset_def client_data_size_def)
qed

subsection \<open>What the threads rely on\<close>

text \<open>
  The section under the mutex serves a packet the store accepts, answers with what the abstract
  store says, and gives back the collected bytes and the mutex, whether the thread goes on or calls
  \<open>logAndExit\<close>. What others do to the store leaves the server's memory and its mutex alone. Neither
  \<open>store_rel\<close> nor \<open>space_left\<close> depends on the server's heap, its mutex and what was sent.
\<close>

locale packet_service =
  fixes section_body :: "turn \<Rightarrow> client \<Rightarrow> 'w world_scheme \<Rightarrow> 'w handled"
    and spec_packet :: "turn \<Rightarrow> bytes \<Rightarrow> 'a \<Rightarrow> control \<times> bytes \<times> 'a"
    and accepts :: "turn \<Rightarrow> bytes \<Rightarrow> 'a \<Rightarrow> bool"
    and other :: "'e \<Rightarrow> 'w world_scheme \<Rightarrow> 'w world_scheme res"
    and spec_other :: "'e \<Rightarrow> 'a \<Rightarrow> 'a"
    and fits :: "'e \<Rightarrow> bool \<Rightarrow> bool"
    and store_rel :: "'w world_scheme \<Rightarrow> 'a \<Rightarrow> bool"
    and space_left :: "'w world_scheme \<Rightarrow> nat"
    and need :: "'a \<Rightarrow> nat"
    and extent :: "'a \<Rightarrow> nat"
  assumes section_law: "client_ok c w \<Longrightarrow> fileMutex w \<Longrightarrow> buf = collected c w \<Longrightarrow> buf \<noteq> [] \<Longrightarrow> store_rel w a \<Longrightarrow>
      accepts t buf a \<Longrightarrow> need a + 4 * length buf \<le> space_left w \<Longrightarrow> extent a + length buf < send_fuel t \<Longrightarrow>
      \<exists>c' w'. section_body t c w = Inr (fst (spec_packet t buf a), c', w') \<and> released c w c' w' \<and>
        store_rel w' (snd (snd (spec_packet t buf a))) \<and>
        concat (outbox w') = concat (outbox w) @ fst (snd (spec_packet t buf a)) \<and> space_left w \<le> space_left w' + length buf"
    and section_ends: "accepts t buf a \<Longrightarrow> fst (spec_packet t buf a) \<noteq> Spinning"
    and section_size: "accepts t buf a \<Longrightarrow> need (snd (snd (spec_packet t buf a))) \<le> need a + length buf \<and>
      extent (snd (snd (spec_packet t buf a))) \<le> extent a + length buf"
    and other_law: "fits e (fileMutex w) \<Longrightarrow> store_rel w a \<Longrightarrow> need a + 4 * BUFFER_SIZE \<le> space_left w \<Longrightarrow>
      \<exists>w'. other e w = Inr w' \<and> store_rel w' (spec_other e a) \<and> space_left w \<le> space_left w' + BUFFER_SIZE \<and>
        uheap w' = uheap w \<and> fileMutex w' = fileMutex w"
    and other_size: "fits e b \<Longrightarrow> need (spec_other e a) \<le> need a + BUFFER_SIZE \<and> extent (spec_other e a) \<le> extent a + BUFFER_SIZE"
    and frame: "store_rel (w\<lparr>uheap := u\<rparr>) a = store_rel w a" "store_rel (w\<lparr>outbox := ys\<rparr>) a = store_rel w a"
      "store_rel (w\<lparr>fileMutex := m\<rparr>) a = store_rel w a" "space_left (w\<lparr>uheap := u\<rparr>) = space_left w"
      "space_left (w\<lparr>outbox := ys\<rparr>) = space_left w" "space_left (w\<lparr>fileMutex := m\<rparr>) = space_left w"
begin

definition conns_rel :: "(nat \<Rightarrow> bytes option) \<Rightarrow> 'e happening list \<Rightarrow> 'w conns \<Rightarrow> 'a aserver \<Rightarrow> bool" where
  "conns_rel B hs s v \<longleftrightarrow> (case s of (cs, ft, w) \<Rightarrow>
     held B (v_leaks v) (uheap w) cs (v_conns v) \<and> fds_ok ft (v_conns v) \<and>
     fileMutex w = v_lock v \<and> exclusive v \<and> store_rel w (v_store v) \<and>
     enough space_left need extent hs w v \<and>
     regular_run (spec_server spec_packet spec_other) (regular accepts fits) hs v)"

definition simulated :: "(nat \<Rightarrow> bytes option) \<Rightarrow> 'e happening \<Rightarrow> 'e happening list \<Rightarrow> 'w conns \<Rightarrow> 'a aserver \<Rightarrow> bool" where
  "simulated B h hs s v \<longleftrightarrow> (\<exists>s'. threads_step section_body other h s = Inr (fst (spec_server spec_packet spec_other h v), s') \<and>
     conns_rel B hs s' (snd (spec_server spec_packet spec_other h v)))"

text \<open>The phase of a thread is the same in both servers, and what is known of a thread in a phase.\<close>

lemma same_phase:
  "conns_rel B hs (cs, ft, w) v \<Longrightarrow> i < length cs \<and> conn_phase (cs ! i) = ph \<longleftrightarrow> in_phase ph i v"
  by (auto simp: conns_rel_def held_def in_phase_def conn_rel_def list_all2_conv_all_nth)

lemma thread_at:
  assumes "conns_rel B hs (cs, ft, w) v" "in_phase ph i v"
  shows "i < length cs" "i < length (v_conns v)" "conn_phase (cs ! i) = ph" "a_phase (v_conns v ! i) = ph"
    "conn_rel (uheap w) (cs ! i) (v_conns v ! i)" "heap_ok (uheap w)" "enough space_left need extent hs w v"
    "length (a_coll (v_conns v ! i)) \<le> used (uheap w)" "length (a_coll (v_conns v ! i)) \<le> coll_total v"
    "held B (v_leaks v) (uheap w) cs (v_conns v)" "newSockFd (conn_client (cs ! i)) = a_fd (v_conns v ! i)"
proof -
  show l: "i < length cs" "i < length (v_conns v)" "conn_phase (cs ! i) = ph" "a_phase (v_conns v ! i) = ph"
    "heap_ok (uheap w)" "enough space_left need extent hs w v" "held B (v_leaks v) (uheap w) cs (v_conns v)"
    using assms same_phase [OF assms(1), of i ph] by (auto simp: in_phase_def conns_rel_def held_def)
  then show r: "conn_rel (uheap w) (cs ! i) (v_conns v ! i)" by (simp add: held_def list_all2_nthD)
  then show "newSockFd (conn_client (cs ! i)) = a_fd (v_conns v ! i)" by (simp add: conn_rel_def)
  have "temp_ok (bufferString (conn_client (cs ! i))) (uheap w)"
    "temp_data (bufferString (conn_client (cs ! i))) (uheap w) = a_coll (v_conns v ! i)"
    using r by (auto simp: conn_rel_def)
  with used_split [OF l(5)] show "length (a_coll (v_conns v ! i)) \<le> used (uheap w)" by simp
  show "length (a_coll (v_conns v ! i)) \<le> coll_total v"
    using coll_update [OF l(2), of "(v_conns v ! i)\<lparr>a_coll := []\<rparr>"] by simp
qed

text \<open>Its descriptor, as long as it has not left its loop.\<close>

lemma fd_open:
  assumes "conns_rel B hs (cs, ft, w) v" "in_phase ph i v"
  shows "ph \<notin> {Leaving, Ended} \<Longrightarrow> ft (newSockFd (conn_client (cs ! i))) = Some i"
    "ph \<noteq> Ended \<Longrightarrow> 0 < newSockFd (conn_client (cs ! i))"
  using assms(1) thread_at(2,4,11) [OF assms] by (auto simp: conns_rel_def fds_ok_def)

lemma only_uheap_rel:
  assumes "w1 = w\<lparr>uheap := uheap w1\<rparr>"
  shows "store_rel w1 a = store_rel w a" "space_left w1 = space_left w"
  by (subst assms, simp add: frame)+

text \<open>What is to be shown of a step that is taken, and a step that cannot be taken.\<close>

lemma step_rel:
  assumes "conns_rel B (h # hs) s v" "spec_server spec_packet spec_other h v = (x, v')"
    and "held B (v_leaks v') (uheap w') cs' (v_conns v')" "fds_ok ft' (v_conns v')"
    and "store_rel w' (v_store v')" "fileMutex w' = v_lock v'"
    and "enough space_left need extent hs w' v'" "threads_step section_body other h s = Inr (x, cs', ft', w')"
  shows "simulated B h hs s v"
  using assms exclusive_step [of v spec_packet spec_other h] by (auto simp: conns_rel_def simulated_def)

lemma stutter_sim:
  assumes "conns_rel B (h # hs) s v" "spec_server spec_packet spec_other h v = (Blocked, v)"
    and "threads_step section_body other h s = Inr (Blocked, s)"
  shows "simulated B h hs s v"
proof -
  obtain cs ft w where s: "s = (cs, ft, w)" by (cases s)
  have "enough space_left need extent hs w v"
    using assms(1) s by (intro enough_step [of _ _ _ h hs w v]) (auto simp: conns_rel_def)
  then have "conns_rel B hs s v" using assms(1,2) s by (auto simp: conns_rel_def)
  with assms(2,3) show ?thesis by (simp add: simulated_def)
qed

lemma data_sim:
  assumes "conns_rel B (Recv i t # hs) (cs, ft, w) v" "in_phase Receiving i v" "data_turn t (turn_data t)"
  shows "simulated B (Recv i t) hs (cs, ft, w) v"
proof -
  let ?k = "cs ! i" and ?a = "v_conns v ! i" and ?xs = "turn_data t"
  note l = thread_at [OF assms(1,2)]
  note c = conn_client_ok [OF l(5,6)]
  have ft: "ft (newSockFd (conn_client ?k)) = Some i" using fd_open(1) [OF assms(1,2)] by simp
  have xs: "?xs \<noteq> []" "length ?xs < BUFFER_SIZE" using assms(3) by (auto simp: data_turn_def)
  have "2 * used (uheap w) + 2 * BUFFER_SIZE \<le> PTRDIFF_MAX" "\<forall>k. grant (uheap w) k" using l(7) by (auto simp: enough_def)
  then have "ample (uheap w) (BUFFER_SIZE + length (a_coll ?a) + length ?xs)" using l(8) xs(2) by (simp add: ample_def)
  from turn_received [OF c(1) assms(3) this [folded c(2)], of arrive, unfolded c(2)] obtain c1 w1 where
    raw: "client_turn arrive t (conn_client ?k) w =
       (if newline \<in> set (take (length ?xs) (a_coll ?a @ ?xs)) then arrive t c1 w1 else Inr (Loop, c1, w1))"
    and tr: "client_ok c1 w1" "collected c1 w1 = a_coll ?a @ ?xs"
      "other_blocks c1 w1 = other_blocks (conn_client ?k) w" "w1 = w\<lparr>uheap := uheap w1\<rparr>"
      "c1 = (conn_client ?k)\<lparr>bufferString := bufferString c1\<rparr>" "grant (uheap w1) = grant (uheap w)" .
  define ctl where "ctl = (if completes (a_coll ?a) ?xs then Blocked else Loop)"
  define ph where "ph = (if completes (a_coll ?a) ?xs then AtLock else Receiving)"
  have run: "client_turn arrive t (conn_client ?k) w = Inr (ctl, c1, w1)"
    using raw by (simp add: completes_def arrive_def ctl_def)
  have ctl: "recv_phase ctl = ph" "ph \<notin> {Leaving, Ended}" by (simp_all add: recv_phase_def ctl_def ph_def)
  have eq: "fileMutex w1 = fileMutex w" "store_rel w1 (v_store v) = store_rel w (v_store v)"
    "space_left w1 = space_left w"
    using only_uheap [OF tr(4)] only_uheap_rel [OF tr(4)] by simp_all
  let ?k' = "?k\<lparr>conn_client := c1, conn_phase := ph\<rparr>"
  let ?a' = "?a\<lparr>a_coll := a_coll ?a @ ?xs, a_phase := ph\<rparr>" and ?v = "set_conn i (?a\<lparr>a_coll := a_coll ?a @ ?xs, a_phase := ph\<rparr>) v"
  have ob: "other_blocks c1 w1 = blocks (uheap w) |` (- temp_fp (bufferString (conn_client ?k)))"
    using tr(3) by (simp add: other_blocks_def)
  have ne: "conn_phase ?k \<noteq> Ended" "ph \<noteq> Ended" "collected c1 w1 \<noteq> []" using l(3) xs(1) tr(2) by (simp_all add: ph_def)
  have same: "clientPtr c1 = clientPtr (conn_client ?k)" "newSockFd c1 = newSockFd (conn_client ?k)"
    "closes c1 = closes (conn_client ?k)" by (subst tr(5), simp)+
  have k': "?k' = \<lparr>conn_client = c1, conn_sent = conn_sent ?k, conn_phase = ph\<rparr>" by (rule conn.equality) simp_all
  note mv = conn_moved [OF l(5) ne(1) same(1,2) tr(1) ob k' ne(2,3)]
  have "\<lparr>a_fd = a_fd ?a, a_coll = collected c1 w1, a_out = concat (conn_sent ?k), a_phase = ph\<rparr> = ?a'"
    using l(5) tr(2) by (cases ?a) (simp add: conn_rel_def)
  note cr = mv(2) [unfolded this]
  have "used (uheap w1) = used (uheap w) + length ?xs" using client_used [OF c(1) tr(1,3)] c(2) tr(2) by simp
  moreover have "coll_total ?v = coll_total v + length ?xs" using coll_update [OF l(2), of ?a'] by simp
  ultimately have en: "enough space_left need extent hs w1 ?v"
    using xs(2) tr(6) eq(3) by (intro enough_step [OF l(7)]) auto
  have "?a\<lparr>a_coll := a_coll ?a @ ?xs\<rparr> = ?a'" if "ph = Receiving" using that l(4) by (cases ?a) simp
  then have sp: "spec_server spec_packet spec_other (Recv i t) v = (ctl, ?v)"
    using assms(2,3) xs(1) by (auto simp: spec_recv_def Let_def ctl_def ph_def data_turn_def told_to_end_def idle_turn_def)
  have "held B (v_leaks v) (uheap w1) (cs[i := ?k']) ((v_conns v)[i := ?a'])"
    using tr(1) by (intro held_moves [OF l(10,1) _ mv(1) cr]) (auto simp: client_ok_def)
  moreover have "threads_step section_body other (Recv i t) (cs, ft, w) = Inr (ctl, cs[i := ?k'], ft, w1)"
    using run l(1,3) ft ctl(1) same(3) by (simp add: polled_def after_close_def)
  moreover have "fds_ok ft ((v_conns v)[i := ?a'])"
    using assms(1) l(2,4) ctl(2) by (intro fds_keep) (auto simp: conns_rel_def)
  ultimately show ?thesis
    using assms(1) eq en by (intro step_rel [OF assms(1) sp]) (auto simp: conns_rel_def)
qed

text \<open>
  The two ways to leave the loop: after the peer has closed, and when told to; a thread for which
  \<open>poll\<close> has nothing goes on.
\<close>

lemma close_sim:
  assumes "conns_rel B (Recv i t # hs) (cs, ft, w) v" "in_phase Receiving i v" "close_turn t"
  shows "simulated B (Recv i t) hs (cs, ft, w) v"
proof -
  let ?k = "cs ! i" and ?a = "v_conns v ! i"
  note l = thread_at [OF assms(1,2)]
  note c = conn_client_ok [OF l(5,6)]
  have ft: "ft (newSockFd (conn_client ?k)) = Some i" using fd_open(1) [OF assms(1,2)] by simp
  have "2 * used (uheap w) + 2 * BUFFER_SIZE \<le> PTRDIFF_MAX" "\<forall>k. grant (uheap w) k" using l(7) by (auto simp: enough_def)
  then have "ample (uheap w) (BUFFER_SIZE + length (collected (conn_client ?k) w))"
    using l(8) c(2) by (simp add: ample_def)
  from turn_close [OF c(1) assms(3) this, of arrive] obtain u where
    tc: "client_turn arrive t (conn_client ?k) w = Inr (Break, (conn_client ?k)\<lparr>bufferString := server_buffer_init,
       closes := Suc (closes (conn_client ?k))\<rparr>, w\<lparr>uheap := u\<rparr>)" (is "_ = Inr (Break, ?c1, ?w1)")
    and u: "heap_ok u" "blocks u = other_blocks (conn_client ?k) w" "grant u = grant (uheap w)" .
  let ?k1 = "?k\<lparr>conn_client := ?c1, conn_phase := Leaving\<rparr>" and ?a1 = "?a\<lparr>a_coll := [], a_phase := Leaving\<rparr>"
  let ?v = "set_conn i (?a\<lparr>a_coll := [], a_phase := Leaving\<rparr>) v" and ?ft = "ft(a_fd ?a := None)"
  have c1: "client_ok ?c1 ?w1" "collected ?c1 ?w1 = []" "clientPtr ?c1 = clientPtr (conn_client ?k)"
    "newSockFd ?c1 = newSockFd (conn_client ?k)"
    "other_blocks ?c1 ?w1 = blocks (uheap w) |` (- temp_fp (bufferString (conn_client ?k)))"
    using u(1,2) ubuf.init_ok by (simp_all add: client_ok_def collected_def other_blocks_def)
  have ne: "conn_phase ?k \<noteq> Ended" using l(3) by simp
  have fr: "blocks u |` (- own ?k1) = blocks (uheap w) |` (- own ?k)"
    using conn_moved(1) [OF l(5) ne c1(3,4,1,5), of "\<lparr>conn_client = ?c1, conn_sent = [], conn_phase = Receiving\<rparr>" "[]" Receiving]
    by (simp add: own_def)
  have cr: "conn_rel u ?k1 ?a1"
    using l(3,5) u(1,2) ubuf.init_ok by (auto simp: conn_rel_def other_blocks_def)
  have H: "held B (v_leaks v) u (cs[i := ?k1]) ((v_conns v)[i := ?a1])"
    by (rule held_moves [OF l(10,1) u(1) fr cr])
  have "used u \<le> used (uheap w)" using client_used [OF c(1) c1(1)] c1(2,5) by (simp add: other_blocks_def)
  moreover have "coll_total ?v \<le> coll_total v" using coll_update [OF l(2), of ?a1] by simp
  ultimately have en: "enough space_left need extent hs ?w1 ?v"
    using u(3) by (intro enough_step [OF l(7)]) (auto simp: frame)
  have sp: "spec_server spec_packet spec_other (Recv i t) v = (Break, ?v)"
    using assms(2,3) by (simp add: spec_recv_def turn_data_def close_turn_def told_to_end_def idle_turn_def Let_def)
  have fd: "fds_ok ?ft ((v_conns v)[i := ?a1])" using assms(1) l(2,4) by (intro fds_closed) (auto simp: conns_rel_def)
  have "threads_step section_body other (Recv i t) (cs, ft, w) = Inr (Break, cs[i := ?k1], ?ft, ?w1)"
    using tc l(1,3,11) ft by (simp add: Let_def polled_def after_close_def recv_phase_def)
  then show ?thesis
    using assms(1) H en fd by (intro step_rel [OF assms(1) sp]) (auto simp: conns_rel_def frame)
qed

lemma idle_sim:
  assumes "conns_rel B (Recv i t # hs) (cs, ft, w) v" "in_phase Receiving i v" "idle_turn t"
  shows "simulated B (Recv i t) hs (cs, ft, w) v"
proof -
  let ?k = "cs ! i" and ?a = "v_conns v ! i"
  let ?v1 = "v\<lparr>v_leaks := Suc (v_leaks v)\<rparr>" and ?ph = "if told_to_end t then Leaving else Receiving"
  let ?k' = "?k\<lparr>conn_client := conn_client ?k, conn_phase := ?ph\<rparr>" and ?a' = "?a\<lparr>a_phase := ?ph\<rparr>"
  let ?v = "set_conn i (?a\<lparr>a_phase := ?ph\<rparr>) ?v1"
  note l = thread_at [OF assms(1,2)]
  have ft: "ft (newSockFd (conn_client ?k)) = Some i" using fd_open(1) [OF assms(1,2)] by simp
  have am: "ample (uheap w) BUFFER_SIZE" using l(7) by (auto simp: enough_def ample_def)
  from turn_idle [OF l(6) assms(3) am, of arrive "conn_client ?k"] obtain k u where
    run: "client_turn arrive t (conn_client ?k) w = Inr (if told_to_end t then Break else Loop, conn_client ?k, w\<lparr>uheap := u\<rparr>)"
    and u: "heap_ok u" "grant u = grant (uheap w)" "blocks (uheap w) k = None"
      "blocks u = (blocks (uheap w))(k \<mapsto> replicate BUFFER_SIZE nul)" "used u = used (uheap w) + BUFFER_SIZE" .
  have H: "held B (v_leaks ?v1) u cs (v_conns v)" using held_leak [OF l(10) u(1,3,4)] by simp
  then have "conn_rel u ?k ?a" using l(1) by (simp add: held_def list_all2_nthD)
  then have cr: "conn_rel u ?k' ?a'" "own ?k' = own ?k" using l(3) by (auto simp: conn_rel_def own_def)
  have fr: "blocks u |` (- own ?k') = blocks u |` (- own ?k)" unfolding cr(2) ..
  have H': "held B (v_leaks ?v1) u (cs[i := ?k']) ((v_conns v)[i := ?a'])"
    by (rule held_moves [OF H l(1) u(1) fr cr(1)])
  have "coll_total ?v = coll_total v" using coll_update [of i ?v1 ?a'] l(2) by (simp add: coll_total_def)
  then have en: "enough space_left need extent hs (w\<lparr>uheap := u\<rparr>) ?v"
    using u(2,5) by (intro enough_step [OF l(7)]) (auto simp: frame)
  have "set_conn i ?a ?v1 = ?v1" by (simp add: set_conn_def)
  moreover have "?a\<lparr>a_phase := Receiving\<rparr> = ?a" using l(4) by (cases ?a) simp
  ultimately have sp: "spec_server spec_packet spec_other (Recv i t) v = (if told_to_end t then Break else Loop, ?v)"
    using assms(2,3) by (auto simp: spec_recv_def Let_def)
  have fd: "fds_ok ft ((v_conns v)[i := ?a'])" using assms(1) l(2,4) by (intro fds_keep) (auto simp: conns_rel_def)
  have "threads_step section_body other (Recv i t) (cs, ft, w) =
      Inr (if told_to_end t then Break else Loop, cs[i := ?k'], ft, w\<lparr>uheap := u\<rparr>)"
    using run l(1,3) ft by (simp add: polled_def after_close_def recv_phase_def)
  then show ?thesis
    using assms(1) H' en fd by (intro step_rel [OF assms(1) sp]) (auto simp: conns_rel_def frame)
qed

lemma leave_sim:
  assumes "conns_rel B (Leave i # hs) (cs, ft, w) v" "in_phase Leaving i v"
  shows "simulated B (Leave i) hs (cs, ft, w) v"
proof -
  let ?k = "cs ! i" and ?a = "v_conns v ! i"
  let ?a' = "?a\<lparr>a_coll := [], a_phase := Ended\<rparr>" and ?v = "set_conn i (?a\<lparr>a_coll := [], a_phase := Ended\<rparr>) v"
  note l = thread_at [OF assms(1,2)]
  have pos: "0 < newSockFd (conn_client ?k)" "conn_phase ?k \<noteq> Ended" using fd_open(2) [OF assms(1,2)] l(3) by simp_all
  from held_end [OF l(10,1) pos(2,1)] obtain c u where
    cl: "cleanupClientHandler (conn_client ?k) w = Inr (c, w\<lparr>uheap := u\<rparr>)" "closes c = Suc (closes (conn_client ?k))"
    and H: "held B (v_leaks v) u (cs[i := ?k\<lparr>conn_client := c, conn_phase := Ended\<rparr>]) ((v_conns v)[i := ?a'])"
    and g: "grant u = grant (uheap w)" "used u \<le> used (uheap w)" .
  have "coll_total ?v \<le> coll_total v" using coll_update [OF l(2), of ?a'] by simp
  then have en: "enough space_left need extent hs (w\<lparr>uheap := u\<rparr>) ?v"
    using g by (intro enough_step [OF l(7)]) (auto simp: frame)
  have sp: "spec_server spec_packet spec_other (Leave i) v = (Break, ?v)" using assms(2) by (simp add: spec_leave_def)
  have fd: "fds_ok (ft(a_fd ?a := None)) ((v_conns v)[i := ?a'])"
    using assms(1) l(2,4) by (intro fds_closed) (auto simp: conns_rel_def)
  show ?thesis
    using assms(1) H en cl l(1,3,11) fd by (intro step_rel [OF assms(1) sp]) (auto simp: conns_rel_def frame after_close_def)
qed

lemma accept_sim:
  assumes "conns_rel B (Accept fd # hs) (cs, ft, w) v"
  shows "simulated B (Accept fd) hs (cs, ft, w) v"
proof -
  let ?u = "uheap w" and ?v = "v\<lparr>v_conns := v_conns v @ [new_aconn fd]\<rparr>"
  have R: "held B (v_leaks v) ?u cs (v_conns v)" "enough space_left need extent (Accept fd # hs) w v"
    "length (v_conns v) < MAX_THREADS" "fds_ok ft (v_conns v)" "fresh_fd fd (v_conns v)"
    using assms by (auto simp: conns_rel_def)
  have ok: "heap_ok ?u" "length cs = length (v_conns v)" using R(1) by (auto simp: held_def list_all2_lengthD)
  have "ample ?u (unat client_data_size)" using R(2) by (simp add: enough_def ample_def client_data_size_def BUFFER_SIZE_def)
  from new_client_data [OF ok(1) this] obtain p u1 u2 where
    al: "malloc client_data_size ?u = (Ptr p, u1)" "memset (Ptr p) nul client_data_size u1 = Inr u2"
    and u: "heap_ok u2" "grant u2 = grant ?u" "blocks ?u p = None" "blocks u2 = (blocks ?u)(p \<mapsto> replicate 24 nul)"
      "used u2 = used ?u + 24" .
  have sp: "spec_server spec_packet spec_other (Accept fd) v = (Loop, ?v)" by (simp add: spec_accept_def)
  have "coll_total ?v = coll_total v" by (simp add: coll_total_def conn_sum_def new_aconn_def)
  then have en: "enough space_left need extent hs (w\<lparr>uheap := u2\<rparr>) ?v"
    using u(2,5) by (intro enough_step [OF R(2)]) (auto simp: frame BUFFER_SIZE_def)
  have "held B (v_leaks v) u2 (cs @ [accepted_conn fd p]) (v_conns v @ [new_aconn fd])" by (rule held_accept [OF R(1) u(1,3,4)])
  then show ?thesis
    using assms en al R(3) ok(2) fds_accept [OF R(4,5)] by (intro step_rel [OF assms sp]) (auto simp: conns_rel_def frame)
qed

lemma lock_sim:
  assumes "conns_rel B (Lock i # hs) (cs, ft, w) v" "in_phase AtLock i v" "\<not> v_lock v"
  shows "simulated B (Lock i) hs (cs, ft, w) v"
proof -
  note l = thread_at [OF assms(1,2)]
  let ?k' = "(cs ! i)\<lparr>conn_phase := InSection\<rparr>" and ?a' = "(v_conns v ! i)\<lparr>a_phase := InSection\<rparr>"
  let ?w = "w\<lparr>fileMutex := True\<rparr>" and ?v = "set_conn i ((v_conns v ! i)\<lparr>a_phase := InSection\<rparr>) (v\<lparr>v_lock := True\<rparr>)"
  have cr: "conn_rel (uheap ?w) ?k' ?a'" "blocks (uheap ?w) |` (- own ?k') = blocks (uheap w) |` (- own (cs ! i))"
    using l(3,5) by (auto simp: conn_rel_def own_def)
  have "coll_total ?v = coll_total v" using coll_update [of i "v\<lparr>v_lock := True\<rparr>" ?a'] l(2) by (simp add: coll_total_def)
  then have en: "enough space_left need extent hs ?w ?v" by (intro enough_step [OF l(7)]) (auto simp: frame)
  have sp: "spec_server spec_packet spec_other (Lock i) v = (Loop, ?v)" using assms(2,3) by (simp add: spec_lock_def)
  have "held B (v_leaks v) (uheap ?w) (cs[i := ?k']) ((v_conns v)[i := ?a'])"
    using l(6) by (intro held_moves [OF l(10,1) _ cr(2,1)]) simp
  moreover have "\<not> fileMutex w" using assms(1,3) by (simp add: conns_rel_def)
  moreover have "fds_ok ft ((v_conns v)[i := ?a'])" using assms(1) l(2,4) by (intro fds_keep) (auto simp: conns_rel_def)
  ultimately show ?thesis
    using assms(1) en l(1,3) by (intro step_rel [OF assms(1) sp]) (auto simp: conns_rel_def frame)
qed

lemma serve_sim:
  assumes "conns_rel B (Serve i t # hs) (cs, ft, w) v" "in_phase InSection i v" "accepts t (a_coll (v_conns v ! i)) (v_store v)"
  shows "simulated B (Serve i t) hs (cs, ft, w) v"
proof -
  let ?k = "cs ! i" and ?a = "v_conns v ! i" and ?w = "w\<lparr>outbox := conn_sent (cs ! i)\<rparr>"
  obtain ctl ans st where pk: "spec_packet t (a_coll ?a) (v_store v) = (ctl, ans, st)" by (metis prod.exhaust)
  let ?ph = "if ctl = Loop then Receiving else Exiting"
  note l = thread_at [OF assms(1,2)]
  note c = conn_client_ok(3,4) [OF l(5,6), of "conn_sent ?k"]
  have ft: "ft (newSockFd (conn_client ?k)) = Some i" using fd_open(1) [OF assms(1,2)] by simp
  have m: "fileMutex ?w" "store_rel ?w (v_store v)"
    using assms(1) inside_locked [OF _ assms(2)] by (auto simp: conns_rel_def frame)
  have "extent (v_store v) + coll_total v + BUFFER_SIZE * Suc (length hs) \<le> send_fuel t"
    using l(7) by (auto simp: enough_def)
  then have pre: "a_coll ?a \<noteq> []" "need (v_store v) + 4 * length (a_coll ?a) \<le> space_left ?w"
    "extent (v_store v) + length (a_coll ?a) < send_fuel t"
    using l(3,5,7,9) by (auto simp: enough_def frame conn_rel_def BUFFER_SIZE_def)
  from section_law [OF c(1) m(1) c(2) [symmetric] pre(1) m(2) assms(3) pre(2,3)] obtain c1 w1 where
    run: "section_body t (conn_client ?k) ?w = Inr (ctl, c1, w1)" and rl: "released (conn_client ?k) ?w c1 w1"
    and st: "store_rel w1 st" "concat (outbox w1) = concat (outbox ?w) @ ans"
      "space_left ?w \<le> space_left w1 + length (a_coll ?a)" by (auto simp: pk)
  note ro = released_ok [OF rl]
  let ?k' = "\<lparr>conn_client = c1, conn_sent = outbox w1, conn_phase = ?ph\<rparr>"
  let ?a' = "?a\<lparr>a_coll := [], a_out := a_out ?a @ ans, a_phase := ?ph\<rparr>"
  let ?v = "set_conn i (?a\<lparr>a_coll := [], a_out := a_out ?a @ ans, a_phase := ?ph\<rparr>) (v\<lparr>v_store := st, v_lock := False\<rparr>)"
  have ob: "other_blocks c1 w1 = blocks (uheap w) |` (- temp_fp (bufferString (conn_client ?k)))"
    using ro(3) by (simp add: other_blocks_def)
  have ne: "conn_phase ?k \<noteq> Ended" using l(3) by simp
  have fr: "blocks (uheap w1) |` (- own ?k') = blocks (uheap w) |` (- own ?k)"
    using conn_moved(1) [OF l(5) ne ro(7,6,1) ob, of "\<lparr>conn_client = c1, conn_sent = outbox w1, conn_phase = Receiving\<rparr>"
      "outbox w1" Receiving] by (simp add: own_def)
  have "conn_rel (uheap w1) \<lparr>conn_client = c1, conn_sent = outbox w1, conn_phase = Receiving\<rparr>
      \<lparr>a_fd = a_fd ?a, a_coll = collected c1 w1, a_out = concat (outbox w1), a_phase = Receiving\<rparr>"
    by (rule conn_moved(2) [OF l(5) ne ro(7,6,1) ob refl]) simp_all
  then have cr: "conn_rel (uheap w1) ?k' ?a'" using l(5) st(2) ro(2) by (auto simp: conn_rel_def)
  have "used (uheap w1) \<le> used (uheap w)" using client_used [OF c(1) ro(1,3)] ro(2) by simp
  moreover have "coll_total ?v + length (a_coll ?a) = coll_total v"
    using coll_update [of i "v\<lparr>v_store := st, v_lock := False\<rparr>" ?a'] l(2) by (simp add: coll_total_def)
  ultimately have en: "enough space_left need extent hs w1 ?v"
    using ro(9) st(3) section_size [OF assms(3)] by (intro enough_step [OF l(7)]) (auto simp: frame pk)
  have sp: "spec_server spec_packet spec_other (Serve i t) v = (ctl, ?v)"
    using assms(2) by (simp add: spec_serve_def Let_def pk)
  have H: "held B (v_leaks v) (uheap w1) (cs[i := ?k']) ((v_conns v)[i := ?a'])"
    using ro(1) by (intro held_moves [OF l(10,1) _ fr cr]) (auto simp: client_ok_def)
  have "ctl \<noteq> Spinning" using section_ends [OF assms(3)] by (simp add: pk)
  then have "serve_phase ctl = ?ph" by (cases ctl) (simp_all add: serve_phase_def)
  moreover have all: "k\<lparr>conn_sent := outbox w1, conn_client := c1, conn_phase := ph\<rparr> =
      \<lparr>conn_client = c1, conn_sent = outbox w1, conn_phase = ph\<rparr>" for k :: conn and ph by (rule conn.equality) simp_all
  ultimately have "threads_step section_body other (Serve i t) (cs, ft, w) = Inr (ctl, cs[i := ?k'], ft, w1)"
    using run l(1,3) ft by (simp add: Let_def sent_to_def put_sent_def all)
  moreover have "fds_ok ft ((v_conns v)[i := ?a'])" using assms(1) l(2,4) by (intro fds_keep) (auto simp: conns_rel_def)
  ultimately show ?thesis
    using ro(8) st(1) en H by (intro step_rel [OF assms(1) sp]) auto
qed

lemma other_sim:
  assumes "conns_rel B (Other e # hs) (cs, ft, w) v"
  shows "simulated B (Other e) hs (cs, ft, w) v"
proof -
  let ?v = "v\<lparr>v_store := spec_other e (v_store v)\<rparr>"
  have R: "fits e (fileMutex w)" "store_rel w (v_store v)" "enough space_left need extent (Other e # hs) w v"
    using assms by (auto simp: conns_rel_def)
  then have "need (v_store v) + 4 * BUFFER_SIZE \<le> space_left w" by (simp add: enough_def)
  from other_law [OF R(1,2) this] obtain w' where
    w': "other e w = Inr w'" "store_rel w' (spec_other e (v_store v))" "space_left w \<le> space_left w' + BUFFER_SIZE"
    "uheap w' = uheap w" "fileMutex w' = fileMutex w" by blast
  have "enough space_left need extent hs w' ?v"
    using other_size [OF R(1), of "v_store v"] w'(3,4) by (intro enough_step [OF R(3)]) (auto simp: coll_total_def)
  then show ?thesis
    using assms w' by (intro step_rel [OF assms]) (auto simp: conns_rel_def)
qed

lemma step_sim:
  assumes "conns_rel B (h # hs) s v"
  shows "simulated B h hs s v"
proof -
  obtain cs ft w where s: "s = (cs, ft, w)" by (cases s)
  note rel = assms [unfolded s]
  note ph = same_phase [OF rel]
  have reg: "regular accepts fits h v" "fileMutex w = v_lock v" using rel by (auto simp: conns_rel_def)
  show ?thesis
  proof (cases h)
    case (Accept fd)
    with rel s accept_sim show ?thesis by simp
  next
    case (Recv i t)
    show ?thesis
    proof (cases "in_phase Receiving i v")
      case True
      with Recv reg(1) have "idle_turn t \<or> close_turn t \<or> data_turn t (turn_data t)" by simp
      then show ?thesis
        using data_sim [OF rel [unfolded Recv] True] close_sim [OF rel [unfolded Recv] True]
          idle_sim [OF rel [unfolded Recv] True] Recv s by blast
    next
      case False
      then have "recv_step i t (cs, ft, w) = Inr (Blocked, cs, ft, w)" using ph [of i Receiving] by auto
      with Recv s False stutter_sim [OF assms] show ?thesis by (simp add: spec_recv_def)
    qed
  next
    case (Leave i)
    show ?thesis
    proof (cases "in_phase Leaving i v")
      case True
      with Leave rel s leave_sim show ?thesis by simp
    next
      case False
      then have "leave_step i (cs, ft, w) = Inr (Blocked, cs, ft, w)" using ph [of i Leaving] by auto
      with Leave s False stutter_sim [OF assms] show ?thesis by (simp add: spec_leave_def)
    qed
  next
    case (Lock i)
    show ?thesis
    proof (cases "in_phase AtLock i v \<and> \<not> v_lock v")
      case True
      with Lock rel s lock_sim show ?thesis by simp
    next
      case False
      then have "lock_step i (cs, ft, w) = Inr (Blocked, cs, ft, w)" using ph [of i AtLock] reg(2) by auto
      with Lock s False stutter_sim [OF assms] show ?thesis by (auto simp: spec_lock_def)
    qed
  next
    case (Serve i t)
    show ?thesis
    proof (cases "in_phase InSection i v")
      case True
      with Serve reg(1) rel s serve_sim show ?thesis by simp
    next
      case False
      then have "serve_step section_body i t (cs, ft, w) = Inr (Blocked, cs, ft, w)" using ph [of i InSection] by auto
      with Serve s False stutter_sim [OF assms] show ?thesis by (simp add: spec_serve_def)
    qed
  next
    case (Other e)
    with rel s other_sim show ?thesis by simp
  qed
qed

end

text \<open>The server implements the abstract server, step by step and so for every schedule.\<close>

sublocale packet_service \<subseteq>
  runs: forward_simulation "threads_step section_body other" "spec_server spec_packet spec_other" "conns_rel B" for B
  by unfold_locales (use step_sim in \<open>simp add: simulated_def\<close>)

subsection \<open>The server from its start\<close>

definition start_server :: "'a \<Rightarrow> 'a aserver" where
  "start_server a = \<lparr>v_store = a, v_lock = False, v_leaks = 0, v_conns = []\<rparr>"

text \<open>
  What a server has done when it agrees with the abstract server's final state: every connection is
  in the phase and the peer of every connection has been sent the bytes that it should; the mutex
  is held exactly when one thread, and no more, is in the section; a connection that has ended owns
  no memory, and beside what the others own there is what was there from the start and the lost
  receive buffers; a connection that has not left its loop has its descriptor, and every open
  descriptor belongs to a connection that has not ended.
\<close>

definition agrees :: "heap \<Rightarrow> conn list \<Rightarrow> fd_table \<Rightarrow> 'w world_scheme \<Rightarrow> 'a aserver \<Rightarrow> bool" where
  "agrees u cs ft w v \<longleftrightarrow> map (\<lambda>k. concat (conn_sent k)) cs = map a_out (v_conns v) \<and>
     map conn_phase cs = map a_phase (v_conns v) \<and>
     length (filter (\<lambda>k. conn_phase k = InSection) cs) = of_bool (fileMutex w) \<and>
     (\<forall>k\<in>set cs. conn_phase k = Ended \<longrightarrow> own k = {}) \<and>
     leaked (blocks u) (blocks (uheap w) |` (- owned cs)) (v_leaks v) \<and>
     (\<forall>i<length cs. conn_phase (cs ! i) \<notin> {Leaving, Ended} \<longrightarrow> ft (newSockFd (conn_client (cs ! i))) = Some i) \<and>
     (\<forall>fd j. ft fd = Some j \<longrightarrow> j < length cs \<and> conn_phase (cs ! j) \<noteq> Ended \<and> newSockFd (conn_client (cs ! j)) = fd)"

lemma conn_sum_filter:
  "map conn_phase cs = map a_phase as \<Longrightarrow> sum_list (map inside as) = length (filter (\<lambda>k. conn_phase k = InSection) cs)"
  by (induction cs arbitrary: as) (auto simp: inside_def)

text \<open>
  When all threads have ended the heap is what it was, but for the lost buffers, and no descriptor is
  left open.
\<close>

lemma agrees_ended:
  assumes "agrees u cs ft w v" "\<forall>a\<in>set (v_conns v). a_phase a = Ended"
  shows "leaked (blocks u) (blocks (uheap w)) (v_leaks v)" "\<not> fileMutex w" "ft = Map.empty"
proof -
  have "conn_phase ` set cs = a_phase ` set (v_conns v)"
    using assms(1) unfolding agrees_def by (metis list.set_map)
  then have ended: "\<forall>k\<in>set cs. conn_phase k = Ended" using assms(2) by (metis image_iff)
  then have "owned cs = {}" "filter (\<lambda>k. conn_phase k = InSection) cs = []"
    using assms(1) by (auto simp: agrees_def owned_def filter_empty_conv)
  with assms(1) show "leaked (blocks u) (blocks (uheap w)) (v_leaks v)" "\<not> fileMutex w"
    by (auto simp: agrees_def)
  have "ft fd = None" for fd
  proof (cases "ft fd")
    case (Some j)
    then have "j < length cs" "conn_phase (cs ! j) \<noteq> Ended" using assms(1) by (auto simp: agrees_def)
    with ended show ?thesis by simp
  qed
  then show "ft = Map.empty" by auto
qed

context packet_service
begin

text \<open>Every schedule from the start to any state.\<close>

lemma server_runs:
  assumes "heap_ok (uheap w)" "\<not> fileMutex w" "store_rel w a" "enough space_left need extent hs w (start_server a)"
    and "regular_run (spec_server spec_packet spec_other) (regular accepts fits) hs (start_server a)"
    and "run_spec (spec_server spec_packet spec_other) hs (start_server a) = (replies, v')"
  shows "\<exists>cs' ft' w'. run_all (threads_step section_body other) hs ([], Map.empty, w) = Inr (replies, cs', ft', w') \<and>
    store_rel w' (v_store v') \<and> agrees (uheap w) cs' ft' w' v'"
proof -
  have "conns_rel (blocks (uheap w)) hs ([], Map.empty, w) (start_server a)"
    using assms(1-5) held_start fds_start by (simp add: conns_rel_def start_server_def exclusive_def conn_sum_def)
  from runs.run_sim [OF this] assms(6) obtain cs' ft' w' where
    run: "run_all (threads_step section_body other) hs ([], Map.empty, w) = Inr (replies, cs', ft', w')"
    and rel: "conns_rel (blocks (uheap w)) [] (cs', ft', w') v'" by auto
  have la: "list_all2 (conn_rel (uheap w')) cs' (v_conns v')" and fd: "fds_ok ft' (v_conns v')"
    using rel by (simp_all add: conns_rel_def held_def)
  have nth: "length cs' = length (v_conns v')" "\<And>i. i < length cs' \<Longrightarrow> conn_phase (cs' ! i) = a_phase (v_conns v' ! i)"
    "\<And>i. i < length cs' \<Longrightarrow> newSockFd (conn_client (cs' ! i)) = a_fd (v_conns v' ! i)"
    using la by (auto simp: list_all2_conv_all_nth conn_rel_def)
  have ph: "map (\<lambda>k. concat (conn_sent k)) cs' = map a_out (v_conns v')" "map conn_phase cs' = map a_phase (v_conns v')"
    using la by (auto simp: list_all2_conv_all_nth conn_rel_def intro: nth_equalityI)
  moreover have "\<forall>k\<in>set cs'. conn_phase k = Ended \<longrightarrow> own k = {}"
    using la by (auto simp: list_all2_conv_all_nth in_set_conv_nth conn_rel_def)
  moreover have "length (filter (\<lambda>k. conn_phase k = InSection) cs') = of_bool (fileMutex w')"
    using rel conn_sum_filter [OF ph(2)] by (simp add: conns_rel_def exclusive_def conn_sum_def)
  moreover have "\<forall>i<length cs'. conn_phase (cs' ! i) \<notin> {Leaving, Ended} \<longrightarrow> ft' (newSockFd (conn_client (cs' ! i))) = Some i"
    "\<forall>fd j. ft' fd = Some j \<longrightarrow> j < length cs' \<and> conn_phase (cs' ! j) \<noteq> Ended \<and> newSockFd (conn_client (cs' ! j)) = fd"
    using fd nth by (simp_all add: fds_ok_def)
  ultimately show ?thesis using run rel by (auto simp: conns_rel_def held_def agrees_def)
qed

end

end
