(* ===== verification/Server_Connections.thy ===== *)
theory Server_Connections
  imports Packet_Service
begin

text \<open>
  All connections of the server built with \<open>USE_AESD_CHAR_DEVICE\<close>: the laws of \<^verbatim>\<open>Packet_Service\<close> for the
  character device. The abstract store is the log of the device, the bytes pending after its last
  newline, and the slot of the array the log starts in. Packets are lines and seek commands; beside
  the server other processes may write to the device, which is the other kind of happening. They are
  considered only while no thread is in the section: the driver has no lock of its own, nothing keeps
  such a write out of the calls that the section makes, and \<^verbatim>\<open>Concurrent_Reads\<close> and
  \<^verbatim>\<open>Concurrent_Writes\<close> show what happens when one comes in between.
\<close>

record dstore =
  s_log :: "bytes list"
  s_pend :: bytes
  s_base :: nat

definition device_store :: "world \<Rightarrow> dstore" where
  "device_store w = \<lparr>s_log = dev_log (kdevice w) (kheap w), s_pend = dev_pending (kdevice w) (kheap w),
     s_base = dev_base (kdevice w)\<rparr>"

text \<open>Another process opens the device, writes to it and closes it.\<close>

definition device_write :: "bytes \<Rightarrow> world \<Rightarrow> world res" where
  "device_write xs w = andthen (sys_write (kdevice w, opened, kheap w) xs) (\<lambda>(ret, d, f, kh).
     Inr (w\<lparr>kdevice := d, kheap := kh\<rparr>))"

definition device_section :: "turn \<Rightarrow> client \<Rightarrow> world \<Rightarrow> unit handled" where
  "device_section = locked_section serve_command serve_line"

subsection \<open>What a packet does\<close>

definition write_store :: "bytes list \<Rightarrow> dstore \<Rightarrow> dstore" where
  "write_store chunks a = (let (log, pend) = foldl spec_write (s_log a, s_pend a) chunks in
     \<lparr>s_log = log, s_pend = pend, s_base = bases (s_base a) (s_log a, s_pend a) chunks\<rparr>)"

definition device_packet :: "turn \<Rightarrow> bytes \<Rightarrow> dstore \<Rightarrow> control \<times> bytes \<times> dstore" where
  "device_packet t buf a =
     (if take 19 buf = SEEK_CMD_PREFIX then
        let (i, k) = command_of buf; (ctl, answer) = seek_reply (s_log a) (s_base a) i k in (ctl, answer, a)
      else let a' = write_store (split t buf) a in (Loop, concat (s_log a'), a'))"

text \<open>
  The packets considered: any bytes that do not start like a command, when the file can be opened
  and the stream loses none of them; and any well-formed seek command, whether the device accepts it or refuses it. What starts
  like a command and goes on otherwise is left out: the search for the comma and the number may then run
  off the end of the collected bytes (\<^verbatim>\<open>Seek_Command\<close>).
\<close>

definition device_accepts :: "turn \<Rightarrow> bytes \<Rightarrow> dstore \<Rightarrow> bool" where
  "device_accepts t buf a \<longleftrightarrow> open_first t \<and> ahead t \<noteq> 0 \<and>
     (if take 19 buf = SEEK_CMD_PREFIX then well_formed buf
      else open_second t \<and> concat (split t buf) = buf)"

definition device_rel :: "world \<Rightarrow> dstore \<Rightarrow> bool" where
  "device_rel w a \<longleftrightarrow> kernel_ok (kdevice w, opened, kheap w) \<and> a = device_store w"

definition device_room :: "world \<Rightarrow> nat" where
  "device_room w = PTRDIFF_MAX - used (kheap w)"

definition device_need :: "dstore \<Rightarrow> nat" where
  "device_need a = length (s_pend a)"

definition device_extent :: "dstore \<Rightarrow> nat" where
  "device_extent a = length (concat (s_log a)) + length (s_pend a)"

lemmas device_defs = device_rel_def device_store_def device_room_def device_need_def device_extent_def

subsection \<open>The laws\<close>

lemma write_store_size:
  "device_need (write_store chunks a) \<le> device_need a + length (concat chunks)"
  "device_extent (write_store chunks a) \<le> device_extent a + length (concat chunks)"
  using spec_writes_pending [of "(s_log a, s_pend a)" chunks] spec_writes_size [of "(s_log a, s_pend a)" chunks]
  by (auto simp: write_store_def device_need_def device_extent_def case_prod_beta)

lemma device_line_law:
  assumes "client_ok c w" "\<not> fileMutex w" "buf = collected c w" "buf \<noteq> []" "device_rel w a" "device_accepts t buf a"
    and "device_need a + 4 * length buf \<le> device_room w" "device_extent a + length buf < send_fuel t"
    and "take 19 buf \<noteq> SEEK_CMD_PREFIX"
  shows "\<exists>c' w'. packet_turn t c w = Inr (fst (device_packet t buf a), c', w') \<and> released c w c' w' \<and>
    device_rel w' (snd (snd (device_packet t buf a))) \<and>
    concat (outbox w') = concat (outbox w) @ fst (snd (device_packet t buf a)) \<and> device_room w \<le> device_room w' + length buf"
proof -
  have a: "kernel_ok (kdevice w, opened, kheap w)" "a = device_store w" using assms(5) by (auto simp: device_rel_def)
  have t: "open_first t" "open_second t" "ahead t \<noteq> 0" "concat (split t buf) = buf"
    using assms(6,9) by (auto simp: device_accepts_def)
  from packet_line [OF assms(1,2) assms(3) [symmetric] assms(4,9) a(1) t] assms(7,8) a(2) obtain c' w' where
    "packet_turn t c w = Inr (Loop, c', w')" "released c w c' w'" "kernel_ok (kdevice w', opened, kheap w')"
    and st: "(dev_log (kdevice w') (kheap w'), dev_pending (kdevice w') (kheap w')) =
      foldl spec_write (s_log a, s_pend a) (split t buf)"
      "dev_base (kdevice w') = bases (s_base a) (s_log a, s_pend a) (split t buf)"
    and "concat (outbox w') = concat (outbox w) @ concat (dev_log (kdevice w') (kheap w'))"
      "PTRDIFF_MAX - used (kheap w) \<le> PTRDIFF_MAX - used (kheap w') + length buf"
    by (auto simp: device_defs)
  moreover have "write_store (split t buf) a = device_store w'"
    by (simp add: write_store_def device_store_def flip: st)
  ultimately show ?thesis using assms(9) by (auto simp: device_packet_def device_defs)
qed

lemma device_command_law:
  assumes "client_ok c w" "\<not> fileMutex w" "buf = collected c w" "device_rel w a" "device_accepts t buf a"
    and "device_extent a + length buf < send_fuel t" "take 19 buf = SEEK_CMD_PREFIX"
  shows "\<exists>c' w'. packet_turn t c w = Inr (fst (device_packet t buf a), c', w') \<and> released c w c' w' \<and>
    device_rel w' (snd (snd (device_packet t buf a))) \<and>
    concat (outbox w') = concat (outbox w) @ fst (snd (device_packet t buf a)) \<and> device_room w \<le> device_room w' + length buf"
proof -
  have a: "kernel_ok (kdevice w, opened, kheap w)" "a = device_store w" using assms(4) by (auto simp: device_rel_def)
  have t: "open_first t" "ahead t \<noteq> 0" "well_formed buf" using assms(5,7) by (simp_all add: device_accepts_def)
  from well_formed_split [OF t(3)] obtain i k y ys where
    ik: "command_of buf = (i, k)" and b: "buf = seek_command i k @ y # ys" "\<not> isdigit y" "i < 2 ^ 32" "k < 2 ^ 32" .
  have cb: "collected c w = seek_command i k @ y # ys" using assms(3) b(1) by simp
  have f: "length (concat (dev_log (kdevice w) (kheap w))) < send_fuel t" using assms(6) a(2) by (simp add: device_defs)
  let ?re = "seek_reply (dev_log (kdevice w) (kheap w)) (dev_base (kdevice w)) i k"
  from packet_command [OF assms(1,2) cb b(2-4) a(1) t(1,2) f] obtain c' w' where
    "packet_turn t c w = Inr (fst ?re, c', w')" "released c w c' w'" "kdevice w' = kdevice w" "kheap w' = kheap w"
    "concat (outbox w') = concat (outbox w) @ snd ?re" .
  then show ?thesis using a ik assms(7) by (auto simp: device_packet_def device_defs case_prod_beta)
qed

lemma device_write_law:
  assumes "device_rel w a" "length xs \<le> BUFFER_SIZE" "device_need a + 4 * BUFFER_SIZE \<le> device_room w"
  shows "\<exists>w'. device_write xs w = Inr w' \<and> device_rel w' (write_store [xs] a) \<and>
    device_room w \<le> device_room w' + BUFFER_SIZE \<and> uheap w' = uheap w \<and> fileMutex w' = fileMutex w"
proof -
  let ?s = "(kdevice w, opened, kheap w)"
  have a: "kernel_ok ?s" "a = device_store w" using assms(1) by (auto simp: device_rel_def)
  have "length (kernel_pending ?s) + 3 * length xs \<le> kernel_room ?s"
    using assms(2,3) a(2) by (simp add: device_defs kernel_defs)
  from kernel_write [OF a(1) this] obtain s' where s': "sys_write ?s xs = Inr (Inr (of_nat (length xs)), s')" "kernel_ok s'"
    "kernel_room ?s \<le> kernel_room s' + length xs"
    "(kernel_log s', kernel_pending s') = spec_write (kernel_log ?s, kernel_pending ?s) xs"
    "kernel_base s' = next_base (kernel_base ?s) (kernel_log ?s) xs" by blast
  obtain d f h where e: "s' = (d, f, h)" by (cases s')
  let ?w = "w\<lparr>kdevice := d, kheap := h\<rparr>"
  have st: "spec_write (dev_log (kdevice w) (kheap w), dev_pending (kdevice w) (kheap w)) xs = (dev_log d h, dev_pending d h)"
    "dev_base d = next_base (dev_base (kdevice w)) (dev_log (kdevice w) (kheap w)) xs"
    using s'(4,5) e by (simp_all add: kernel_defs)
  have "device_write xs w = Inr ?w" using s'(1) e by (simp add: device_write_def del: sys_write.simps)
  moreover have "write_store [xs] a = device_store ?w"
    using st a(2) by (simp add: write_store_def device_store_def)
  moreover have "kernel_ok (d, opened, h)" using s'(2) e kernel_reopen by blast
  ultimately show ?thesis using s'(3) e assms(2) by (auto simp: device_rel_def device_room_def kernel_defs)
qed

lemma device_section_law:
  assumes "client_ok c w" "fileMutex w" "buf = collected c w" "buf \<noteq> []" "device_rel w a" "device_accepts t buf a"
    and "device_need a + 4 * length buf \<le> device_room w" "device_extent a + length buf < send_fuel t"
  shows "\<exists>c' w'. device_section t c w = Inr (fst (device_packet t buf a), c', w') \<and> released c w c' w' \<and>
    device_rel w' (snd (snd (device_packet t buf a))) \<and>
    concat (outbox w') = concat (outbox w) @ fst (snd (device_packet t buf a)) \<and> device_room w \<le> device_room w' + length buf"
proof -
  let ?w = "w\<lparr>fileMutex := False\<rparr>"
  have "client_ok c ?w" "buf = collected c ?w" "device_rel ?w a" "\<not> fileMutex ?w" "device_room ?w = device_room w" "outbox ?w = outbox w"
    using assms by (simp_all add: client_ok_def collected_def device_defs)
  with assms device_line_law [of c ?w buf a t] device_command_law [of c ?w buf a t]
  show ?thesis by (auto simp: device_section_def section_of_packet packet_turn_def released_unlocked)
qed

interpretation chardev: packet_service device_section device_packet device_accepts device_write "\<lambda>xs. write_store [xs]"
  "\<lambda>xs locked. length xs \<le> BUFFER_SIZE \<and> \<not> locked" device_rel device_room device_need device_extent
proof (unfold_locales, goal_cases)
  case (1 c w buf a t)
  then show ?case by (rule device_section_law)
next
  case (2 t buf a)
  then show ?case
    by (auto simp: device_packet_def seek_reply_def Let_def case_prod_beta split: option.split)
next
  case (3 t buf a)
  then show ?case
    using write_store_size [where a = a and chunks = "split t buf"]
    by (auto simp: device_packet_def device_accepts_def Let_def case_prod_beta split: if_splits)
next
  case (4 e w a)
  then show ?case using device_write_law [of w a e] by simp
next
  case (5 e b a)
  then show ?case using write_store_size [where a = a and chunks = "[e]"] by simp
qed (simp_all add: device_defs)

subsection \<open>Every schedule\<close>

text \<open>
  C37. The threads of the device build together, under every schedule of their steps, from the start of
  the server: in whatever order connections are accepted (128 at most), their threads get data (whole
  lines, pieces of lines, several lines at once, seek commands that the device accepts or refuses) or find
  none, see their peer close, are told to end through the pipe, clean up, lock the mutex or wait for it,
  and serve their packets, and whatever other processes write to the device while the mutex is free, the
  server does what the abstract server does. No step faults; never are two threads in the section; each
  packet is written to the log in the order in which the threads serve them, and the whole log is then
  sent on the descriptor of the connection that it came from, which is still the socket of that connection,
  and nothing is sent to the others; a seek command sends that connection the log from the position
  asked for and changes nothing, or, refused, takes the thread to \<open>logAndExit\<close> with the mutex and its memory
  given back. A thread that has ended owns no memory, its \<open>clientData\<close> included; outside the blocks that the
  other connections own, memory is what it was, and one receive buffer of \<open>BUFFER_SIZE\<close> bytes for every time
  that a thread found nothing to receive or was told to end. Assumed of the schedule (\<open>regular\<close>): writes of
  other processes come while the mutex is free, which nothing in the code ensures; \<open>accept\<close> does not return a
  descriptor that a thread is about to close for the second time; commands are well formed; memory is
  granted.
\<close>

theorem server_connections_refine:
  assumes "heap_ok (uheap w)" "\<not> fileMutex w" "kernel_ok (kdevice w, opened, kheap w)"
    and "v = start_server (device_store w)" "enough device_room device_need device_extent hs w v"
    and "regular_run (spec_server device_packet (\<lambda>xs. write_store [xs]))
       (regular device_accepts (\<lambda>xs locked. length xs \<le> BUFFER_SIZE \<and> \<not> locked)) hs v"
    and "run_spec (spec_server device_packet (\<lambda>xs. write_store [xs])) hs v = (replies, v')"
  shows "\<exists>cs' ft' w'. run_all (threads_step device_section device_write) hs ([], Map.empty, w) = Inr (replies, cs', ft', w') \<and>
    kernel_ok (kdevice w', opened, kheap w') \<and> device_store w' = v_store v' \<and> agrees (uheap w) cs' ft' w' v'"
  using chardev.server_runs [of w "device_store w" hs replies v'] assms by (auto simp: device_rel_def)

text \<open>
  Two connections, on an empty device: another process writes a line; both have a line, the second locks
  first and the first has to wait; then the second seeks, the first closes and its descriptor is used
  again, the second is told to end, and the third asks for a byte that the log does not have.
\<close>

definition serving :: turn where
  "serving = (sample_turn None)\<lparr>send_fuel := 20000\<rparr>"

definition sample_schedule :: "bytes happening list" where
  "sample_schedule = [Accept 5, Recv 0 (sample_turn (Some [CHR ''a'', newline])), Accept 6,
     Recv 1 (sample_turn (Some [CHR ''b'', newline])), Other [CHR ''z'', newline],
     Lock 1, Lock 0, Serve 1 serving, Lock 0, Serve 0 serving,
     Recv 1 (sample_turn (Some (seek_command 1 0 @ [newline]))), Lock 1, Serve 1 serving,
     Recv 0 (sample_turn (Some [])), Leave 0, Accept 5, Recv 1 ((sample_turn None)\<lparr>pipe_ready := True\<rparr>), Leave 1,
     Recv 2 (sample_turn (Some (seek_command 3 0 @ [newline]))), Lock 2, Serve 2 serving]"

definition fresh_world :: world where
  "fresh_world = sample_world\<lparr>uheap := empty_heap (\<lambda>_. True)\<rparr>"

lemma sample_command: "seek_command (Suc 0) 0 = SEEK_CMD_PREFIX @ ''1,0''" "seek_command 3 0 = SEEK_CMD_PREFIX @ ''3,0''"
  by (simp_all add: seek_command_def dec_small digit_char_def char_of_def bit_0)

theorem server_connections_refine_witness:
  "\<exists>cs' ft' w'. run_all (threads_step device_section device_write) sample_schedule ([], Map.empty, fresh_world) =
      Inr ([Loop, Blocked, Loop, Blocked, Loop, Loop, Blocked, Loop, Loop, Loop, Blocked, Loop, Loop, Break, Break,
        Loop, Break, Break, Blocked, Loop, LogExit ''Failed to seek in file''], cs', ft', w') \<and>
    dev_log (kdevice w') (kheap w') = [[CHR ''z'', newline], [CHR ''b'', newline], [CHR ''a'', newline]] \<and>
    map (\<lambda>k. concat (conn_sent k)) cs' = [[CHR ''z'', newline, CHR ''b'', newline, CHR ''a'', newline],
      [CHR ''z'', newline, CHR ''b'', newline] @ [CHR ''b'', newline, CHR ''a'', newline], []] \<and>
    map conn_phase cs' = [Ended, Ended, Exiting]"
proof -
  let ?w = fresh_world and ?v = "start_server (device_store fresh_world)"
  let ?spec = "spec_server device_packet (\<lambda>xs. write_store [xs])"
  have v: "?v = \<lparr>v_store = \<lparr>s_log = [], s_pend = [], s_base = 0\<rparr>, v_lock = False, v_leaks = 0, v_conns = []\<rparr>"
    using loaded_ok(8,9) by (simp add: start_server_def device_store_def fresh_world_def sample_world_def
      dev_base_def loaded_offs)
  note ev = sample_schedule_def sample_turn_def serving_def set_conn_def spec_defs in_phase_def turn_data_def completes_def
    new_aconn_def told_to_end_def idle_turn_def MAX_THREADS_def fresh_fd_def
    device_packet_def write_store_def spec_write_def log_push_def next_base_def sample_command SEEK_CMD_PREFIX_def
    command_of_def undec_def isdigit_def seek_target_def seek_reply_def slot_size_def Let_def
  have run: "run_spec ?spec sample_schedule ?v =
      ([Loop, Blocked, Loop, Blocked, Loop, Loop, Blocked, Loop, Loop, Loop, Blocked, Loop, Loop, Break, Break,
        Loop, Break, Break, Blocked, Loop, LogExit ''Failed to seek in file''],
      \<lparr>v_store = \<lparr>s_log = [[CHR ''z'', newline], [CHR ''b'', newline], [CHR ''a'', newline]], s_pend = [], s_base = 0\<rparr>,
       v_lock = False, v_leaks = 1,
       v_conns = [\<lparr>a_fd = 5, a_coll = [], a_out = [CHR ''z'', newline, CHR ''b'', newline, CHR ''a'', newline], a_phase = Ended\<rparr>,
         \<lparr>a_fd = 6, a_coll = [], a_out = [CHR ''z'', newline, CHR ''b'', newline] @ [CHR ''b'', newline, CHR ''a'', newline],
          a_phase = Ended\<rparr>, \<lparr>a_fd = 5, a_coll = [], a_out = [], a_phase = Exiting\<rparr>]\<rparr>)" (is "_ = (?replies, ?v')")
    unfolding v by (simp add: ev)
  have reg: "regular_run ?spec (regular device_accepts (\<lambda>xs locked. length xs \<le> BUFFER_SIZE \<and> \<not> locked)) sample_schedule ?v"
    unfolding v by (simp add: ev device_accepts_def well_formed_def data_turn_def close_turn_def BUFFER_SIZE_def)
  have en: "enough device_room device_need device_extent sample_schedule ?w ?v"
    unfolding v by (simp add: enough_def coll_total_def conn_sum_def sample_schedule_def sample_turn_def serving_def BUFFER_SIZE_def device_defs
        fresh_world_def empty_heap_def sample_world_def PTRDIFF_MAX_def loaded_used)
  have w: "heap_ok (uheap ?w)" "\<not> fileMutex ?w" "kernel_ok (kdevice ?w, opened, kheap ?w)"
    using heap_ok_empty sample_kernel_ok by (simp_all add: fresh_world_def sample_world_def)
  from server_connections_refine [OF w refl en reg run] show ?thesis
    by (auto simp: agrees_def device_store_def)
qed

end
