(* ===== verification/Timestamp.thy ===== *)
theory Timestamp
  imports Seek_Command
begin

text \<open>
  The thread of the socket server that writes the time into the file every ten seconds,
  \<open>timestampWriterHandler\<close> of \<^verbatim>\<open>server/src/aesdsocket.c\<close>, and the part of \<open>cleanupMain\<close> that stops
  it. Both are compiled when \<open>USE_AESD_CHAR_DEVICE\<close> is 0.

  What \<open>poll\<close> returns in an iteration is an \<open>event\<close>; a timeout comes with the broken-down time
  that \<open>localtime\<close> returns, with whether the file can be opened, and with the number of bytes of the
  line that reach the file. \<open>strftime\<close> is modelled for the conversions the format uses, in the
  C locale; \<open>tm_gmtoff\<close> is the offset from UTC in seconds that \<open>%z\<close> prints.
\<close>

record tm =
  tm_sec :: int
  tm_min :: int
  tm_hour :: int
  tm_mday :: int
  tm_mon :: int
  tm_year :: int
  tm_wday :: int
  tm_gmtoff :: int

definition day_names :: "string list" where
  "day_names = [''Sun'', ''Mon'', ''Tue'', ''Wed'', ''Thu'', ''Fri'', ''Sat'']"

definition month_names :: "string list" where
  "month_names = [''Jan'', ''Feb'', ''Mar'', ''Apr'', ''May'', ''Jun'', ''Jul'', ''Aug'', ''Sep'', ''Oct'', ''Nov'', ''Dec'']"

text \<open>What \<open>localtime\<close> stores: every field in its range, the year in an \<open>int\<close>.\<close>

definition valid_tm :: "tm \<Rightarrow> bool" where
  "valid_tm t \<longleftrightarrow> 0 \<le> tm_sec t \<and> tm_sec t \<le> 60 \<and> 0 \<le> tm_min t \<and> tm_min t < 60 \<and> 0 \<le> tm_hour t \<and> tm_hour t < 24 \<and>
     1 \<le> tm_mday t \<and> tm_mday t \<le> 31 \<and> 0 \<le> tm_mon t \<and> tm_mon t < 12 \<and>
     - (2 ^ 31) \<le> tm_year t \<and> tm_year t < 2 ^ 31 \<and> 0 \<le> tm_wday t \<and> tm_wday t < 7 \<and> \<bar>tm_gmtoff t\<bar> < 86400"

definition two_digits :: "int \<Rightarrow> string" where
  "two_digits i = (if i < 10 then ''0'' else []) @ dec (nat i)"

definition signed_dec :: "int \<Rightarrow> string" where
  "signed_dec i = (if i < 0 then ''-'' else []) @ dec (nat \<bar>i\<bar>)"

definition utc_offset :: "int \<Rightarrow> string" where
  "utc_offset d = (if d < 0 then ''-'' else ''+'') @ two_digits (\<bar>d\<bar> div 3600) @ two_digits (\<bar>d\<bar> div 60 mod 60)"

definition conversion :: "char \<Rightarrow> tm \<Rightarrow> string" where
  "conversion c t =
     (if c = CHR ''a'' then day_names ! nat (tm_wday t)
      else if c = CHR ''d'' then two_digits (tm_mday t)
      else if c = CHR ''b'' then month_names ! nat (tm_mon t)
      else if c = CHR ''Y'' then signed_dec (tm_year t + 1900)
      else if c = CHR ''H'' then two_digits (tm_hour t)
      else if c = CHR ''M'' then two_digits (tm_min t)
      else if c = CHR ''S'' then two_digits (tm_sec t)
      else if c = CHR ''z'' then utc_offset (tm_gmtoff t)
      else [])"

fun expand :: "string \<Rightarrow> tm \<Rightarrow> string" where
  "expand [] t = []"
| "expand [c] t = [c]"
| "expand (c # d # cs) t = (if c = CHR ''%'' then conversion d t @ expand cs t else c # expand (d # cs) t)"

text \<open>\<open>None\<close> when the text and its null character do not fit: the array is then indeterminate.\<close>

definition strftime :: "nat \<Rightarrow> string \<Rightarrow> tm \<Rightarrow> string option" where
  "strftime n fmt t = (let s = expand fmt t in if length s < n then Some s else None)"

definition final_line :: "tm \<Rightarrow> bytes res" where
  "final_line t =
     (case strftime 128 ''%a, %d %b %Y %H:%M:%S %z'' t of
        None \<Rightarrow> Inl OutOfBounds
      | Some time_str \<Rightarrow> Inr (take (256 - 1) (''timestamp:'' @ time_str @ [newline])))"

subsection \<open>The thread\<close>

record twriter =
  tfile :: bytes
  tmutex :: bool
  tpipe :: nat

datatype event = PollError | Timeout "tm option" bool nat | PollIn | PollOther

datatype tcontrol = TLoop | TBreak | TBlocked

definition timestamp_turn :: "event \<Rightarrow> twriter \<Rightarrow> (tcontrol \<times> twriter) res" where
  "timestamp_turn e w =
     (case e of
        PollError \<Rightarrow> Inr (TBreak, w)
      | Timeout tm_info opened stored \<Rightarrow>
          (case tm_info of
             None \<Rightarrow> Inl NullDeref
           | Some t \<Rightarrow>
               andthen (final_line t) (\<lambda>line.
               if tmutex w then Inr (TBlocked, w)
               else Inr (TLoop, if opened then w\<lparr>tfile := tfile w @ take stored line\<rparr> else w)))
      | PollIn \<Rightarrow> if tpipe w = 0 then Inr (TBlocked, w) else Inr (TBreak, w\<lparr>tpipe := tpipe w - 1\<rparr>)
      | PollOther \<Rightarrow> Inr (TLoop, w))"

text \<open>The loop over the events that come; \<open>TLoop\<close> at the end means that the thread goes on.\<close>

fun timestampWriterHandler :: "event list \<Rightarrow> twriter \<Rightarrow> (tcontrol \<times> twriter) res" where
  "timestampWriterHandler [] w = Inr (TLoop, w)"
| "timestampWriterHandler (e # es) w =
     andthen (timestamp_turn e w) (\<lambda>(ctl, w1).
       if ctl = TLoop then timestampWriterHandler es w1 else Inr (ctl, w1))"

text \<open>
  The part of \<open>cleanupMain\<close> for this thread: a byte for its pipe, and \<open>pthread_join\<close>, during which the
  thread goes on with the events \<open>es\<close>. The result says whether the join has returned, which it does when
  the thread has left its loop.
\<close>

definition cleanup_timestamp :: "bool \<Rightarrow> int \<Rightarrow> event list \<Rightarrow> twriter \<Rightarrow> (bool \<times> twriter) res" where
  "cleanup_timestamp started fd es w =
     (if started \<and> fd > 0 then
        andthen (timestampWriterHandler es (w\<lparr>tpipe := Suc (tpipe w)\<rparr>)) (\<lambda>(ctl, w1). Inr (ctl = TBreak, w1))
      else Inr (True, w))"

subsection \<open>The line\<close>

definition date :: "tm \<Rightarrow> string" where
  "date t = day_names ! nat (tm_wday t) @ '', '' @ two_digits (tm_mday t) @ '' '' @ month_names ! nat (tm_mon t) @ '' '' @
     signed_dec (tm_year t + 1900) @ '' '' @ two_digits (tm_hour t) @ '':'' @ two_digits (tm_min t) @ '':'' @
     two_digits (tm_sec t) @ '' '' @ utc_offset (tm_gmtoff t)"

lemma expand_date: "expand ''%a, %d %b %Y %H:%M:%S %z'' t = date t"
  by (simp add: date_def conversion_def)

lemma dec_length: "n < 10 ^ Suc k \<Longrightarrow> length (dec n) \<le> Suc k"
proof (induction k arbitrary: n)
  case (Suc k)
  then show ?case by (subst dec.simps) (auto simp: less_mult_imp_div_less)
qed (subst dec.simps, simp)

lemma two_digits_length: "0 \<le> i \<Longrightarrow> i < 100 \<Longrightarrow> length (two_digits i) = 2"
  by (subst two_digits_def, subst dec.simps) (auto simp: dec_small nat_less_iff div_less_dividend)

lemma signed_dec_length:
  assumes "- (2 ^ 31) \<le> i" "i < 2 ^ 31"
  shows "length (signed_dec (i + 1900)) \<le> 11"
proof -
  have "nat \<bar>i + 1900\<bar> < 10 ^ Suc 9" using assms by simp
  from dec_length [OF this] have "length (dec (nat \<bar>i + 1900\<bar>)) \<le> 10" by simp
  moreover have "length (if i + 1900 < 0 then ''-'' else []) \<le> 1" by simp
  ultimately show ?thesis unfolding signed_dec_def length_append by linarith
qed

lemma signed_dec_year: "1000 \<le> i \<Longrightarrow> i < 10000 \<Longrightarrow> length (signed_dec i) = 4"
proof -
  assume i: "1000 \<le> i" "i < 10000"
  define n where "n = nat i"
  have n: "1000 \<le> n" "n < 10000" using i by (simp_all add: n_def)
  then have "n div 10 div 10 div 10 < 10" "100 \<le> n div 10" "10 \<le> n div 10 div 10" by simp_all
  then have "length (dec n) = 4"
    using n by (subst dec.simps, subst dec.simps, subst dec.simps) (simp add: dec_small)
  then show "length (signed_dec i) = 4" using i by (simp add: signed_dec_def n_def)
qed

lemma names_length:
  "0 \<le> i \<Longrightarrow> i < 7 \<Longrightarrow> day_names ! nat i \<in> set day_names \<and> length (day_names ! nat i) = 3"
  "0 \<le> i \<Longrightarrow> i < 12 \<Longrightarrow> month_names ! nat i \<in> set month_names \<and> length (month_names ! nat i) = 3"
proof -
  have "\<forall>x\<in>set day_names. length x = 3" "length day_names = 7"
    "\<forall>x\<in>set month_names. length x = 3" "length month_names = 12"
    by (simp_all add: day_names_def month_names_def)
  then show "0 \<le> i \<Longrightarrow> i < 7 \<Longrightarrow> day_names ! nat i \<in> set day_names \<and> length (day_names ! nat i) = 3"
    "0 \<le> i \<Longrightarrow> i < 12 \<Longrightarrow> month_names ! nat i \<in> set month_names \<and> length (month_names ! nat i) = 3"
    by (simp_all add: nth_mem nat_less_iff)
qed

lemma utc_offset_length: "\<bar>d\<bar> < 86400 \<Longrightarrow> length (utc_offset d) = 5"
  by (simp add: utc_offset_def two_digits_length div_less_dividend)

lemma date_length:
  assumes "valid_tm t"
  shows "length (date t) \<le> 38" and "-900 \<le> tm_year t \<Longrightarrow> tm_year t < 8100 \<Longrightarrow> length (date t) = 31"
  using assms signed_dec_length [of "tm_year t"] signed_dec_year [of "tm_year t + 1900"]
  by (simp_all add: date_def valid_tm_def two_digits_length names_length utc_offset_length)

lemma dec_no_newline: "newline \<notin> set (dec n)"
  using dec_digits [of n] by (auto simp: isdigit_def)

lemma date_no_newline:
  assumes "valid_tm t"
  shows "newline \<notin> set (date t)"
proof -
  have "newline \<notin> set (two_digits i)" "newline \<notin> set (signed_dec i)" "newline \<notin> set (utc_offset i)" for i
    by (simp_all add: two_digits_def signed_dec_def utc_offset_def dec_no_newline)
  moreover have "\<forall>x\<in>set day_names. newline \<notin> set x" "\<forall>x\<in>set month_names. newline \<notin> set x"
    by (simp_all add: day_names_def month_names_def)
  ultimately show ?thesis using assms names_length
    by (simp add: date_def valid_tm_def)
qed

definition stamp :: "tm \<Rightarrow> bytes" where
  "stamp t = ''timestamp:'' @ date t @ [newline]"

lemma final_line_stamp: "valid_tm t \<Longrightarrow> final_line t = Inr (stamp t)"
  using date_length(1) [of t] unfolding final_line_def strftime_def expand_date stamp_def Let_def by simp

subsection \<open>The thread until it is stopped\<close>

text \<open>
  Events of an undisturbed run: a timeout whose line, if the file can be opened, is stored as a
  whole, or a report of \<open>poll\<close> without \<open>POLLIN\<close>; and the line an event adds.
\<close>

fun undisturbed :: "event \<Rightarrow> bool" where
  "undisturbed (Timeout (Some t) opened stored) \<longleftrightarrow> valid_tm t \<and> length (stamp t) \<le> stored"
| "undisturbed PollOther \<longleftrightarrow> True"
| "undisturbed _ \<longleftrightarrow> False"

fun added :: "event \<Rightarrow> bytes list" where
  "added (Timeout (Some t) True stored) = [stamp t]"
| "added _ = []"

lemma undisturbed_turn:
  assumes "undisturbed e" "\<not> tmutex w"
  shows "timestamp_turn e w = Inr (TLoop, w\<lparr>tfile := tfile w @ concat (added e)\<rparr>)"
  using assms by (cases e rule: undisturbed.cases; cases e rule: added.cases) (auto simp: timestamp_turn_def final_line_stamp)

lemma undisturbed_loop:
  assumes "\<forall>e\<in>set es. undisturbed e" "\<not> tmutex w"
  shows "timestampWriterHandler es w = Inr (TLoop, w\<lparr>tfile := tfile w @ concat (concat (map added es))\<rparr>)"
  using assms by (induction es arbitrary: w) (simp_all add: undisturbed_turn)

lemma handler_append:
  "timestampWriterHandler (es @ es') w = andthen (timestampWriterHandler es w) (\<lambda>(ctl, w1).
     if ctl = TLoop then timestampWriterHandler es' w1 else Inr (ctl, w1))"
proof (induction es arbitrary: w)
  case (Cons e es)
  then show ?case by (cases "timestamp_turn e w") auto
qed simp

text \<open>
  C40. The timestamp thread. In an undisturbed run each timeout at which the file can be opened
  appends one line, the text \<open>timestamp:\<close> with the date as in an internet mail and a newline; the
  line fits both arrays for every time \<open>localtime\<close> can return, has no other newline, and is 42 bytes
  long in the years 1000 to 9999. When \<open>cleanupMain\<close> then writes its byte and
  joins the thread, the join returns as soon as the thread has taken the byte; until then it writes
  the lines of timeouts that came before, and after it nothing.
\<close>

theorem timestamp_writer_correct:
  assumes "\<forall>e\<in>set es. undisturbed e" "\<not> tmutex w" "tpipe w = 0" "fd > 0" "\<forall>e\<in>set es'. undisturbed e"
  shows "let w1 = w\<lparr>tfile := tfile w @ concat (concat (map added es))\<rparr> in
      timestampWriterHandler es w = Inr (TLoop, w1) \<and>
      cleanup_timestamp True fd (es' @ PollIn # rest) w1 =
        Inr (True, w1\<lparr>tfile := tfile w1 @ concat (concat (map added es'))\<rparr>) \<and>
      (\<forall>l\<in>set (concat (map added es)). \<exists>t. valid_tm t \<and> l = ''timestamp:'' @ date t @ [newline] \<and>
         newline \<notin> set (''timestamp:'' @ date t) \<and> (-900 \<le> tm_year t \<and> tm_year t < 8100 \<longrightarrow> length l = 42))"
proof -
  have "\<exists>t. valid_tm t \<and> l = stamp t" if "l \<in> set (added e)" "undisturbed e" for l e
    using that by (cases e rule: added.cases) auto
  then have "\<exists>t. valid_tm t \<and> l = stamp t" if "l \<in> set (concat (map added es))" for l
    using that assms(1) by auto
  moreover have "newline \<notin> set (''timestamp:'' @ date t) \<and> (-900 \<le> tm_year t \<and> tm_year t < 8100 \<longrightarrow> length (stamp t) = 42)"
    if "valid_tm t" for t using that date_no_newline date_length(2) by (simp add: stamp_def)
  ultimately have "\<forall>l\<in>set (concat (map added es)). \<exists>t. valid_tm t \<and> l = ''timestamp:'' @ date t @ [newline] \<and>
         newline \<notin> set (''timestamp:'' @ date t) \<and> (-900 \<le> tm_year t \<and> tm_year t < 8100 \<longrightarrow> length l = 42)"
    unfolding stamp_def by metis
  then show ?thesis unfolding Let_def using undisturbed_loop [OF assms(1,2)] assms(2-4)
    by (intro conjI) (simp_all add: timestamp_turn_def cleanup_timestamp_def handler_append undisturbed_loop [OF assms(5)])
qed

definition sample_tm :: tm where
  "sample_tm = \<lparr>tm_sec = 5, tm_min = 30, tm_hour = 14, tm_mday = 7, tm_mon = 2, tm_year = 125, tm_wday = 5, tm_gmtoff = 3600\<rparr>"

lemma sample_tm_valid: "valid_tm sample_tm"
  by (simp add: sample_tm_def valid_tm_def)

lemma sample_stamp: "stamp sample_tm = ''timestamp:Fri, 07 Mar 2025 14:30:05 +0100'' @ [newline]"
  by (simp add: stamp_def date_def sample_tm_def day_names_def month_names_def two_digits_def signed_dec_def
    utc_offset_def dec.simps digit_char_def char_of_def bit_0)

theorem timestamp_writer_correct_witness:
  "timestampWriterHandler [PollOther, Timeout (Some sample_tm) True 100]
     \<lparr>tfile = ''a'', tmutex = False, tpipe = 0\<rparr> =
   Inr (TLoop, \<lparr>tfile = ''atimestamp:Fri, 07 Mar 2025 14:30:05 +0100'' @ [newline], tmutex = False, tpipe = 0\<rparr>) \<and>
   cleanup_timestamp True 4 [PollIn]
     \<lparr>tfile = ''atimestamp:Fri, 07 Mar 2025 14:30:05 +0100'' @ [newline], tmutex = False, tpipe = 0\<rparr> =
   Inr (True, \<lparr>tfile = ''atimestamp:Fri, 07 Mar 2025 14:30:05 +0100'' @ [newline], tmutex = False, tpipe = 0\<rparr>)"
  using timestamp_writer_correct [of "[PollOther, Timeout (Some sample_tm) True 100]"
      "\<lparr>tfile = ''a'', tmutex = False, tpipe = 0\<rparr>" 4 "[]" "[]"]
  by (simp add: sample_tm_valid sample_stamp Let_def del: timestampWriterHandler.simps)

end
