(* ===== verification/File_Server.thy ===== *)
theory File_Server
  imports Packet_Service Timestamp
begin

text \<open>
  The socket server built with \<open>USE_AESD_CHAR_DEVICE\<close> equal to 0: the packets go to a regular file
  and the thread of \<^verbatim>\<open>Timestamp\<close> appends to the same file. The world is that of the other build
  with the file, the bytes its file system can still take, and the pipe of the timestamp thread.
  What the preprocessor selects for this build in \<open>clientHandler\<close> is \<open>file_command\<close> and \<open>file_line\<close>;
  the rest is shared. Whether the file can be opened (it may be absent) is part of the \<open>turn\<close>.
\<close>

record fworld = world +
  vfile :: bytes
  disk :: nat
  stamp_pipe :: nat

type_synonym fscheme = "\<lparr>vfile :: bytes, disk :: nat, stamp_pipe :: nat\<rparr>"

subsection \<open>A regular file\<close>

definition file_read :: "bytes \<Rightarrow> size_t \<Rightarrow> loff_t \<Rightarrow> (errno + bytes \<times> loff_t) res" where
  "file_read s n pos = (let xs = take (unat n) (drop (unat pos) s) in Inr (Inr (xs, pos + of_nat (length xs))))"

text \<open>
  \<open>write\<close> in append mode. When the file system is full what fits is written, and the stream's next
  attempt fails with \<open>ENOSPC\<close>.
\<close>

fun file_append :: "bytes \<times> nat \<Rightarrow> bytes \<Rightarrow> ((errno + size_t) \<times> bytes \<times> nat) res" where
  "file_append (s, n) xs =
     Inr (if length xs \<le> n then (Inr (of_nat (length xs)), s @ xs, n - length xs) else (Inl (ERR 28), s @ take n xs, 0))"

interpretation regular_file: byte_source file_read "\<lambda>s. s" "\<lambda>s. length s \<le> PTRDIFF_MAX"
proof unfold_locales
  fix s :: bytes and n :: size_t and pos :: loff_t
  assume "n \<noteq> 0"
  then have "unat n \<noteq> 0" by (simp add: unat_eq_zero)
  then show "\<exists>xs zs. file_read s n pos = Inr (Inr (xs, pos + of_nat (length xs))) \<and>
      drop (unat pos) s = xs @ zs \<and> (xs = [] \<longleftrightarrow> length s \<le> unat pos)"
    by (intro exI [of _ "take (unat n) (drop (unat pos) s)"] exI [of _ "drop (unat n) (drop (unat pos) s)"])
      (simp add: file_read_def Let_def del: drop_drop)
qed

lemma append_chunks:
  "length (concat cs) \<le> n \<Longrightarrow> write_chunks file_append (s, n) cs = Inr (s @ concat cs, n - length (concat cs))"
  by (induction cs arbitrary: s n) simp_all

text \<open>On a full file system the end is lost, however the stream splits it; the server does not look.\<close>

lemma append_chunks_full:
  "n < length (concat cs) \<Longrightarrow> write_chunks file_append (s, n) cs = Inr (s @ take n (concat cs), 0)"
  by (induction cs arbitrary: s n) auto

lemma append_chunks_fit:
  "write_chunks file_append (s, n) cs = Inr (s @ take n (concat cs), n - length (concat cs))"
  using append_chunks [of cs n s] append_chunks_full [of n cs s] by (cases "length (concat cs) \<le> n") simp_all

subsection \<open>A packet\<close>

definition file_command :: "turn \<Rightarrow> aesd_seekto \<Rightarrow> client \<Rightarrow> fworld \<Rightarrow> fscheme handled" where
  "file_command t command c w =
     (if \<not> open_first t then Inl NullDeref
      else
        andthen (server_buffer_clean (bufferString c) (uheap w)) (\<lambda>(b, uh).
        Inr (LogExit ''Failed to seek in file'', c\<lparr>bufferString := b\<rparr>, w\<lparr>fileMutex := False, uheap := uh\<rparr>)))"

definition file_line :: "turn \<Rightarrow> client \<Rightarrow> fworld \<Rightarrow> fscheme handled" where
  "file_line t c w =
     andthen (load (t_buffptr (bufferString c)) 0 (unat (t_size (bufferString c))) (uheap w)) (\<lambda>data.
     if \<not> open_first t then Inl NullDeref
     else
       andthen (write_chunks file_append (vfile w, disk w) (split t data)) (\<lambda>(xs, n).
       let w1 = w\<lparr>vfile := xs, disk := n\<rparr> in
       if \<not> open_second t then Inl NullDeref else send_contents file_read t (vfile w1) 0 c w1))"

definition file_packet :: "turn \<Rightarrow> client \<Rightarrow> fworld \<Rightarrow> fscheme handled" where
  "file_packet = packet_section file_command file_line"

definition file_section :: "turn \<Rightarrow> client \<Rightarrow> fworld \<Rightarrow> fscheme handled" where
  "file_section = locked_section file_command file_line"

text \<open>The timestamp thread takes a turn; of its line no more reaches the file than the file system can take.\<close>

fun on_disk :: "nat \<Rightarrow> event \<Rightarrow> event" where
  "on_disk n (Timeout tm_info can_open stored) = Timeout tm_info can_open (min n stored)"
| "on_disk n e = e"

definition stamp_turn :: "event \<Rightarrow> fworld \<Rightarrow> fworld res" where
  "stamp_turn e w =
     andthen (timestamp_turn (on_disk (disk w) e) \<lparr>tfile = vfile w, tmutex = fileMutex w, tpipe = stamp_pipe w\<rparr>) (\<lambda>(ctl, w1).
     Inr (w\<lparr>vfile := tfile w1, disk := disk w - (length (tfile w1) - length (vfile w)), stamp_pipe := tpipe w1\<rparr>))"

subsection \<open>The laws\<close>

text \<open>The abstract store is the contents of the file and the bytes that the file system can still take.\<close>

type_synonym fstore = "bytes \<times> nat"

definition file_accepts :: "turn \<Rightarrow> bytes \<Rightarrow> fstore \<Rightarrow> bool" where
  "file_accepts t buf a \<longleftrightarrow> open_first t \<and> ahead t \<noteq> 0 \<and>
     (if take 19 buf = SEEK_CMD_PREFIX then well_formed buf else open_second t \<and> concat (split t buf) = buf)"

text \<open>
  What fits is appended and the whole file is the answer. A seek command changes nothing: \<open>ioctl\<close> fails on a
  regular file, and the thread calls \<open>logAndExit\<close>, whatever the numbers.
\<close>

fun put :: "bytes \<Rightarrow> fstore \<Rightarrow> fstore" where
  "put xs (s, n) = (s @ take n xs, n - length xs)"

definition file_appends :: "turn \<Rightarrow> bytes \<Rightarrow> fstore \<Rightarrow> control \<times> bytes \<times> fstore" where
  "file_appends t buf a =
     (if take 19 buf = SEEK_CMD_PREFIX then (LogExit ''Failed to seek in file'', [], a)
      else (Loop, fst (put buf a), put buf a))"

text \<open>
  The events of the timestamp thread: timeouts, whether or not the file can be opened and all of the line
  is stored, and reports of \<open>poll\<close> without \<open>POLLIN\<close>; and what they add.
\<close>

fun ticking :: "event \<Rightarrow> bool" where
  "ticking (Timeout (Some t) can_open stored) \<longleftrightarrow> valid_tm t"
| "ticking PollOther \<longleftrightarrow> True"
| "ticking _ \<longleftrightarrow> False"

fun ticked :: "event \<Rightarrow> bytes" where
  "ticked (Timeout (Some t) True stored) = take stored (stamp t)"
| "ticked _ = []"

definition stamp_appends :: "event \<Rightarrow> fstore \<Rightarrow> fstore" where
  "stamp_appends e = put (ticked e)"

definition file_rel :: "fworld \<Rightarrow> fstore \<Rightarrow> bool" where
  "file_rel w a \<longleftrightarrow> a = (vfile w, disk w) \<and> length (vfile w) \<le> PTRDIFF_MAX"

text \<open>How much longer the file may become: offsets are signed.\<close>

definition file_room :: "fworld \<Rightarrow> nat" where
  "file_room w = PTRDIFF_MAX - length (vfile w)"

lemma file_line_law:
  assumes "client_ok c w" "\<not> fileMutex w" "buf = collected c w" "buf \<noteq> []" "file_rel w a" "file_accepts t buf a"
    and "4 * length buf \<le> file_room w" "length (fst a) + length buf < send_fuel t" "take 19 buf \<noteq> SEEK_CMD_PREFIX"
  shows "\<exists>c' w'. file_packet t c w = Inr (Loop, c', w') \<and> released c w c' w' \<and> file_rel w' (put buf a) \<and>
    concat (outbox w') = concat (outbox w) @ fst (put buf a) \<and> file_room w \<le> file_room w' + length buf"
proof -
  let ?w = "w\<lparr>fileMutex := True\<rparr>" and ?f = "vfile w @ take (disk w) buf"
  obtain p where p: "t_buffptr (bufferString c) = Ptr p" "blocks (uheap w) p = Some buf"
    "unat (t_size (bufferString c)) = length buf"
    using collected_block [OF assms(1)] assms(3,4) by auto
  have t: "open_first t" "open_second t" "ahead t \<noteq> 0" "concat (split t buf) = buf"
    using assms(6,9) by (simp_all add: file_accepts_def)
  have cmd: "checkForCommandInString (t_buffptr (bufferString c)) (t_size (bufferString c))
      \<lparr>write_cmd = 0, write_cmd_offset = 0\<rparr> (uheap w) = Inr (False, \<lparr>write_cmd = 0, write_cmd_offset = 0\<rparr>)"
    using command_not_recognised [OF p(2) _ assms(9)] p by simp
  have a: "a = (vfile w, disk w)" "length (vfile w) \<le> PTRDIFF_MAX" using assms(5) by (auto simp: file_rel_def)
  let ?w1 = "?w\<lparr>vfile := ?f, disk := disk w - length buf\<rparr>"
  have len: "length ?f \<le> PTRDIFF_MAX" "length ?f < send_fuel t" using a assms(7,8) by (simp_all add: file_room_def)
  from regular_file.send_contents_spec [OF len(1) t(3) len(2), of 0 c ?w1] obtain xs where
    xs: "send_contents file_read t ?f 0 c ?w1 = Inr (Loop, c, ?w1\<lparr>outbox := outbox w @ xs\<rparr>)" "concat xs = ?f" by auto
  have ld: "load (Ptr p) 0 (length buf) (uheap w) = Inr buf" using p(2) by (simp add: load_def)
  have sv: "file_line t c ?w = Inr (Loop, c, ?w1\<lparr>outbox := outbox w @ xs\<rparr>)"
    using p ld append_chunks_fit [of "vfile w" "disk w" "split t buf"] xs(1) t by (simp add: file_line_def Let_def)
  from packet_released [OF assms(1,2) cmd, of file_command t file_line "?w1\<lparr>outbox := outbox w @ xs\<rparr>"] sv
  obtain c' u where "file_packet t c w = Inr (Loop, c', ?w1\<lparr>outbox := outbox w @ xs, fileMutex := False, uheap := u\<rparr>)"
    "released c w c' (?w1\<lparr>outbox := outbox w @ xs, fileMutex := False, uheap := u\<rparr>)" by (auto simp: file_packet_def)
  with xs(2) a(1) len(1) show ?thesis by (auto simp: file_rel_def file_room_def)
qed

lemma file_command_law:
  assumes "client_ok c w" "\<not> fileMutex w" "buf = collected c w" "file_rel w a" "file_accepts t buf a"
    and "take 19 buf = SEEK_CMD_PREFIX"
  shows "\<exists>c' w'. file_packet t c w = Inr (LogExit ''Failed to seek in file'', c', w') \<and> released c w c' w' \<and>
    file_rel w' a \<and> outbox w' = outbox w \<and> file_room w' = file_room w"
proof -
  have "well_formed buf" "open_first t" using assms(5,6) by (simp_all add: file_accepts_def)
  from well_formed_split [OF this(1)] obtain i k y ys where
    b: "buf = seek_command i k @ y # ys" "\<not> isdigit y" "i < 2 ^ 32" "k < 2 ^ 32" .
  let ?s = "\<lparr>write_cmd = of_nat i, write_cmd_offset = of_nat k\<rparr>" and ?c = "c\<lparr>bufferString := server_buffer_init\<rparr>"
  have "buf \<noteq> []" using b(1) by simp
  then obtain p where p: "t_buffptr (bufferString c) = Ptr p" "blocks (uheap w) p = Some buf"
    "unat (t_size (bufferString c)) = length buf"
    using collected_block [OF assms(1)] assms(3) by auto
  have cmd: "checkForCommandInString (t_buffptr (bufferString c)) (t_size (bufferString c))
      \<lparr>write_cmd = 0, write_cmd_offset = 0\<rparr> (uheap w) = Inr (True, ?s)"
    using command_parsed [of "uheap w" p i k y ys] p b by (simp add: seek_command_def)
  from clean_collected [OF assms(1)] obtain u where
    u: "server_buffer_clean (bufferString c) (uheap w) = Inr (server_buffer_init, u)" "heap_ok u"
    "grant u = grant (uheap w)" "blocks u = other_blocks c w" .
  have "file_packet t c w = Inr (LogExit ''Failed to seek in file'', ?c, w\<lparr>fileMutex := False, uheap := u\<rparr>)"
    using cmd u(1) assms(2) \<open>open_first t\<close>
    by (simp add: file_packet_def packet_section_def locked_section_def file_command_def)
  moreover have "released c w ?c (w\<lparr>fileMutex := False, uheap := u\<rparr>)" using u by (simp add: released_def)
  ultimately show ?thesis using assms(4) by (auto simp: file_rel_def file_room_def)
qed

lemma file_section_law:
  assumes "client_ok c w" "fileMutex w" "buf = collected c w" "buf \<noteq> []" "file_rel w a" "file_accepts t buf a"
    and "4 * length buf \<le> file_room w" "length (fst a) + length buf < send_fuel t"
  shows "\<exists>c' w'. file_section t c w = Inr (fst (file_appends t buf a), c', w') \<and> released c w c' w' \<and>
    file_rel w' (snd (snd (file_appends t buf a))) \<and>
    concat (outbox w') = concat (outbox w) @ fst (snd (file_appends t buf a)) \<and> file_room w \<le> file_room w' + length buf"
proof -
  let ?w = "w\<lparr>fileMutex := False\<rparr>"
  have "client_ok c ?w" "buf = collected c ?w" "file_rel ?w a" "\<not> fileMutex ?w" "file_room ?w = file_room w" "outbox ?w = outbox w"
    using assms by (simp_all add: client_ok_def collected_def file_rel_def file_room_def)
  with assms file_line_law [of c ?w buf a t] file_command_law [of c ?w buf a t]
  show ?thesis by (fastforce simp: file_section_def section_of_packet file_packet_def released_unlocked file_appends_def)
qed

lemma ticked_length:
  assumes "ticking e"
  shows "length (ticked e) \<le> 49"
proof (cases e rule: ticked.cases)
  case (1 t stored)
  then have "length (stamp t) \<le> 49" using assms date_length(1) [of t] by (simp add: stamp_def)
  with 1 show ?thesis by simp
qed simp_all

lemma ticking_turn:
  assumes "ticking e" "\<not> tmutex w"
  shows "timestamp_turn (on_disk n e) w = Inr (TLoop, w\<lparr>tfile := tfile w @ take n (ticked e)\<rparr>)"
  using assms by (cases e rule: ticking.cases; cases e rule: ticked.cases) (auto simp: timestamp_turn_def final_line_stamp)

lemma stamp_law:
  assumes "ticking e" "\<not> fileMutex w" "file_rel w a" "4 * BUFFER_SIZE \<le> file_room w"
  shows "\<exists>w'. stamp_turn e w = Inr w' \<and> file_rel w' (stamp_appends e a) \<and> file_room w \<le> file_room w' + BUFFER_SIZE \<and>
    uheap w' = uheap w \<and> fileMutex w' = fileMutex w"
  using assms ticked_length [OF assms(1)]
  by (auto simp: stamp_turn_def ticking_turn file_rel_def file_room_def stamp_appends_def BUFFER_SIZE_def)

lemma put_length: "length (fst (put xs a)) \<le> length (fst a) + length xs"
  by (cases a) simp

interpretation vartmp: packet_service file_section file_appends file_accepts stamp_turn stamp_appends
  "\<lambda>e locked. ticking e \<and> \<not> locked" file_rel file_room "\<lambda>a. 0" "\<lambda>a. length (fst a)"
proof (unfold_locales, goal_cases)
  case (1 c w buf a t)
  then show ?case using file_section_law [of c w buf a t] by simp
next
  case (2 t buf a)
  then show ?case by (simp add: file_appends_def)
next
  case (3 t buf a)
  then show ?case using put_length [of buf a] by (simp add: file_appends_def)
next
  case (4 e w a)
  then show ?case using stamp_law [of e w a] by simp
next
  case (5 e b a)
  then show ?case using ticked_length [of e] put_length [of "ticked e" a] by (simp add: stamp_appends_def BUFFER_SIZE_def)
qed (simp_all add: file_rel_def file_room_def)

subsection \<open>Every schedule\<close>

text \<open>
  C38. The threads of the file build together, the timestamp thread with them, under every schedule of
  their steps, from the start of the server: in whatever order connections are accepted (128 at most),
  their threads get data (lines, pieces of lines, seek commands) or find none, see their peer close, are
  told to end through the pipe, clean up, lock the mutex or wait for it, and serve their packets, and the
  timestamp thread takes its turns when the mutex is free, the server does what the abstract server does.
  No step faults; never are two threads in the section; the file grows by the packets and the timestamp
  lines one after the other, none of them torn by another, and each whole unless the file system is full: then
  what does not fit is lost and the server goes on. A connection that has its packet served is sent the
  whole file, timestamps included, and nothing is sent to the others. A seek command changes nothing and
  takes its thread to \<open>logAndExit\<close>, with the mutex and its memory given back. Threads that have ended own no
  memory, and what is lost are the receive buffers of the turns in which there was nothing to receive.
  Assumed of the schedule (\<open>regular\<close>): \<open>accept\<close> does not return a descriptor that a thread is about to close
  for the second time; commands are well formed; the file can be opened by the client threads; memory is
  granted.
\<close>

theorem file_server_refine:
  assumes "heap_ok (uheap w)" "\<not> fileMutex w" "length (vfile w) \<le> PTRDIFF_MAX"
    and "v = start_server (vfile w, disk w)" "enough file_room (\<lambda>a. 0) (\<lambda>a. length (fst a)) hs w v"
    and "regular_run (spec_server file_appends stamp_appends)
       (regular file_accepts (\<lambda>e locked. ticking e \<and> \<not> locked)) hs v"
    and "run_spec (spec_server file_appends stamp_appends) hs v = (replies, v')"
  shows "\<exists>cs' ft' w'. run_all (threads_step file_section stamp_turn) hs ([], Map.empty, w) = Inr (replies, cs', ft', w') \<and>
    (vfile w', disk w') = v_store v' \<and> agrees (uheap w) cs' ft' w' v'"
  using vartmp.server_runs [of w "(vfile w, disk w)" hs replies v'] assms by (auto simp: file_rel_def)

text \<open>
  Two connections and the timestamp thread, from an empty file on a file system with 43 bytes left: the
  first thread is once woken in vain; of the second packet only one byte fits; the seek command ends
  the second thread's work.
\<close>

definition sample_fworld :: fworld where
  "sample_fworld = world.extend (sample_world\<lparr>uheap := empty_heap (\<lambda>_. True)\<rparr>) \<lparr>vfile = [], disk = 43, stamp_pipe = 0\<rparr>"

definition sample_stamps :: "event happening list" where
  "sample_stamps = [Accept 5, Accept 6, Recv 0 (sample_turn (Some ''a'')), Recv 1 (sample_turn (Some [CHR ''b'', newline])),
     Other (Timeout (Some sample_tm) True 100), Recv 0 ((sample_turn None)\<lparr>sock_ready := False\<rparr>), Lock 1,
     Serve 1 (sample_turn None), Recv 0 (sample_turn (Some [])), Leave 0,
     Recv 1 (sample_turn (Some (SEEK_CMD_PREFIX @ [CHR ''0'', CHR '','', CHR ''0'', newline]))), Lock 1, Serve 1 (sample_turn None)]"

theorem file_server_refine_witness:
  "\<exists>cs' ft' w'. run_all (threads_step file_section stamp_turn) sample_stamps ([], Map.empty, sample_fworld) =
      Inr ([Loop, Loop, Loop, Blocked, Loop, Loop, Loop, Loop, Break, Break, Blocked, Loop, LogExit ''Failed to seek in file''],
        cs', ft', w') \<and>
    vfile w' = stamp sample_tm @ ''b'' \<and>
    map (\<lambda>k. concat (conn_sent k)) cs' = [[], stamp sample_tm @ ''b''] \<and>
    map conn_phase cs' = [Ended, Exiting]"
proof -
  let ?w = sample_fworld and ?v = "start_server (vfile sample_fworld, disk sample_fworld)"
  let ?spec = "spec_server file_appends stamp_appends"
  have v: "?v = \<lparr>v_store = ([], 43), v_lock = False, v_leaks = 0, v_conns = []\<rparr>"
    by (simp add: start_server_def sample_fworld_def world.defs)
  have st: "length (stamp sample_tm) = 42" using sample_stamp by simp
  note ev = sample_stamps_def sample_turn_def set_conn_def spec_defs in_phase_def turn_data_def completes_def file_appends_def
    stamp_appends_def new_aconn_def told_to_end_def idle_turn_def MAX_THREADS_def fresh_fd_def SEEK_CMD_PREFIX_def Let_def st
  have run: "run_spec ?spec sample_stamps ?v =
      ([Loop, Loop, Loop, Blocked, Loop, Loop, Loop, Loop, Break, Break, Blocked, Loop, LogExit ''Failed to seek in file''],
      \<lparr>v_store = (stamp sample_tm @ ''b'', 0), v_lock = False, v_leaks = 1,
       v_conns = [\<lparr>a_fd = 5, a_coll = [], a_out = [], a_phase = Ended\<rparr>,
         \<lparr>a_fd = 6, a_coll = [], a_out = stamp sample_tm @ ''b'', a_phase = Exiting\<rparr>]\<rparr>)"
    unfolding v by (simp add: ev)
  have reg: "regular_run ?spec (regular file_accepts (\<lambda>e locked. ticking e \<and> \<not> locked)) sample_stamps ?v"
    unfolding v by (simp add: ev file_accepts_def well_formed_def command_of_def undec_def isdigit_def seek_command_def dec_small
      digit_char_def char_of_def bit_0 data_turn_def close_turn_def BUFFER_SIZE_def sample_tm_valid)
  have en: "enough file_room (\<lambda>a. 0) (\<lambda>a. length (fst a)) sample_stamps ?w ?v"
    unfolding v by (simp add: enough_def coll_total_def conn_sum_def sample_stamps_def sample_turn_def BUFFER_SIZE_def
        sample_fworld_def world.defs empty_heap_def sample_world_def PTRDIFF_MAX_def file_room_def)
  have w: "heap_ok (uheap ?w)" "\<not> fileMutex ?w" "length (vfile ?w) \<le> PTRDIFF_MAX"
    using heap_ok_empty by (simp_all add: sample_fworld_def world.defs sample_world_def PTRDIFF_MAX_def)
  from file_server_refine [OF w refl en reg run] show ?thesis
    by (auto simp: agrees_def)
qed

end
