(* ===== verification/Server_Exit.thy ===== *)
theory Server_Exit
  imports Server_Main Client_Handler
begin

text \<open>
  The exit of the server process when a client thread calls \<open>logAndExit\<close> of
  \<^verbatim>\<open>server/src/aesdsocket.c\<close>. \<^verbatim>\<open>Server_Main\<close> has the shutdown by the main thread; here every
  thread may clean up: \<open>logAndExit\<close> runs \<open>cleanupMain\<close> in the thread that found the error, which
  writes a byte into the pipe for each thread and joins all threads, itself included.

  A thread polls, waits for the file mutex, is in the section under the mutex, cleans up, or has
  ended. \<open>pthread_join\<close> is taken from its manual page: it waits until the thread has ended, but
  returns at once, with an error the code does not look at, for the calling thread itself and for
  a thread that waits to join the caller (\<open>EDEADLK\<close>), and for a thread that another one already
  waits to join (\<open>EINVAL\<close>). The process ends when one of the cleaners is done.
\<close>

datatype cleaner = Tokens nat | Joining nat | Waiting nat

datatype tpc = Polling | WantLock | Critical | Exiting cleaner | Ended

datatype mpc = MLoop | MAccept | MClean cleaner

record proc =
  p_main :: mpc
  p_threads :: "tpc list"
  p_tokens :: nat
  p_mutex :: "nat option"
  p_stop :: bool
  p_done :: bool

definition start_proc :: proc where
  "start_proc = \<lparr>p_main = MLoop, p_threads = [], p_tokens = 0, p_mutex = None, p_stop = False, p_done = False\<rparr>"

definition set_thread :: "nat \<Rightarrow> tpc \<Rightarrow> proc \<Rightarrow> proc" where
  "set_thread i t s = s\<lparr>p_threads := (p_threads s)[i := t]\<rparr>"

text \<open>
  When \<open>pthread_join\<close> of thread \<open>k\<close> returns at once, called by client thread \<open>self\<close> or by main (\<open>None\<close>).
\<close>

definition join_returns :: "nat option \<Rightarrow> nat \<Rightarrow> proc \<Rightarrow> bool" where
  "join_returns self k s \<longleftrightarrow> p_threads s ! k = Ended \<or> self = Some k \<or>
     (case self of None \<Rightarrow> False | Some i \<Rightarrow> p_threads s ! k = Exiting (Waiting i)) \<or>
     p_main s = MClean (Waiting k) \<or> Exiting (Waiting k) \<in> set (p_threads s)"

text \<open>
  One step of \<open>cleanupMain\<close>: the new place in it, or the end of the process; no step while
  \<open>pthread_join\<close> waits.
\<close>

datatype clean_result = Goes cleaner | Exits | Waits

definition clean_step :: "nat option \<Rightarrow> cleaner \<Rightarrow> proc \<Rightarrow> clean_result \<times> proc" where
  "clean_step self e s =
     (case e of
        Tokens k \<Rightarrow>
          if k < length (p_threads s) then (Goes (Tokens (Suc k)), s\<lparr>p_tokens := Suc (p_tokens s)\<rparr>)
          else (Goes (Joining 0), s)
      | Joining k \<Rightarrow>
          if k < length (p_threads s) then
            (if join_returns self k s then (Goes (Joining (Suc k)), s) else (Goes (Waiting k), s))
          else (Exits, s)
      | Waiting k \<Rightarrow> if k < length (p_threads s) \<and> p_threads s ! k = Ended then (Goes (Joining (Suc k)), s) else (Waits, s))"

text \<open>The thread or main enters \<open>cleanupMain\<close>; the pipe is open since the threads are started after it.\<close>

definition begin_exit :: "proc \<Rightarrow> cleaner" where
  "begin_exit s = (if length (p_threads s) > 0 then Tokens 0 else Joining 0)"

text \<open>The main thread; a signal sets \<open>stop\<close>.\<close>

inductive main_moves :: "proc \<Rightarrow> proc \<Rightarrow> bool" where
  signal: "\<not> p_done s \<Longrightarrow> main_moves s (s\<lparr>p_stop := True\<rparr>)"
| loop: "\<not> p_done s \<Longrightarrow> p_main s = MLoop \<Longrightarrow>
    main_moves s (s\<lparr>p_main := (if p_stop s then MClean (begin_exit s) else MAccept)\<rparr>)"
| accept: "\<not> p_done s \<Longrightarrow> p_main s = MAccept \<Longrightarrow> length (p_threads s) < MAX_THREADS \<Longrightarrow>
    main_moves s (s\<lparr>p_main := MLoop, p_threads := p_threads s @ [Polling]\<rparr>)"
| accept_failed: "\<not> p_done s \<Longrightarrow> p_main s = MAccept \<Longrightarrow> main_moves s (s\<lparr>p_main := MClean (begin_exit s)\<rparr>)"
| main_cleans: "\<not> p_done s \<Longrightarrow> p_main s = MClean e \<Longrightarrow> clean_step None e s = (Goes e', s') \<Longrightarrow>
    main_moves s (s'\<lparr>p_main := MClean e'\<rparr>)"
| main_exits: "\<not> p_done s \<Longrightarrow> p_main s = MClean e \<Longrightarrow> clean_step None e s = (Exits, s') \<Longrightarrow>
    main_moves s (s'\<lparr>p_done := True\<rparr>)"

text \<open>A client thread.\<close>

inductive thread_moves :: "proc \<Rightarrow> proc \<Rightarrow> bool" where
  token: "\<not> p_done s \<Longrightarrow> i < length (p_threads s) \<Longrightarrow> p_threads s ! i = Polling \<Longrightarrow> 0 < p_tokens s \<Longrightarrow>
    thread_moves s ((set_thread i Ended s)\<lparr>p_tokens := p_tokens s - 1\<rparr>)"
| closed: "\<not> p_done s \<Longrightarrow> i < length (p_threads s) \<Longrightarrow> p_threads s ! i = Polling \<Longrightarrow>
    thread_moves s (set_thread i Ended s)"
| failed: "\<not> p_done s \<Longrightarrow> i < length (p_threads s) \<Longrightarrow> p_threads s ! i = Polling \<Longrightarrow>
    thread_moves s (set_thread i (Exiting (begin_exit s)) s)"
| packet: "\<not> p_done s \<Longrightarrow> i < length (p_threads s) \<Longrightarrow> p_threads s ! i = Polling \<Longrightarrow>
    thread_moves s (set_thread i WantLock s)"
| lock: "\<not> p_done s \<Longrightarrow> i < length (p_threads s) \<Longrightarrow> p_threads s ! i = WantLock \<Longrightarrow> p_mutex s = None \<Longrightarrow>
    thread_moves s ((set_thread i Critical s)\<lparr>p_mutex := Some i\<rparr>)"
| served: "\<not> p_done s \<Longrightarrow> i < length (p_threads s) \<Longrightarrow> p_threads s ! i = Critical \<Longrightarrow>
    thread_moves s ((set_thread i Polling s)\<lparr>p_mutex := None\<rparr>)"
| seek_failed: "\<not> p_done s \<Longrightarrow> i < length (p_threads s) \<Longrightarrow> p_threads s ! i = Critical \<Longrightarrow>
    thread_moves s ((set_thread i (Exiting (begin_exit s)) s)\<lparr>p_mutex := None\<rparr>)"
| read_failed: "\<not> p_done s \<Longrightarrow> i < length (p_threads s) \<Longrightarrow> p_threads s ! i = Critical \<Longrightarrow>
    thread_moves s (set_thread i (Exiting (begin_exit s)) s)"
| thread_cleans: "\<not> p_done s \<Longrightarrow> i < length (p_threads s) \<Longrightarrow> p_threads s ! i = Exiting e \<Longrightarrow>
    clean_step (Some i) e s = (Goes e', s') \<Longrightarrow> thread_moves s (set_thread i (Exiting e') s')"
| thread_exits: "\<not> p_done s \<Longrightarrow> i < length (p_threads s) \<Longrightarrow> p_threads s ! i = Exiting e \<Longrightarrow>
    clean_step (Some i) e s = (Exits, s') \<Longrightarrow> thread_moves s (s'\<lparr>p_done := True\<rparr>)"

inductive proc_step :: "proc \<Rightarrow> proc \<Rightarrow> bool" where
  main: "main_moves s s' \<Longrightarrow> proc_step s s'"
| thread: "thread_moves s s' \<Longrightarrow> proc_step s s'"

inductive_cases proc_stepE: "proc_step s s'"

subsection \<open>Where the code calls \<open>logAndExit\<close> with the mutex held\<close>

text \<open>
  In the section under the mutex: the mutex is given back before \<open>logAndExit\<close> after a failed ioctl,
  but not after a failed read.
\<close>

definition post :: "('a \<Rightarrow> bool) \<Rightarrow> 'a res \<Rightarrow> bool" where
  "post P r \<longleftrightarrow> (\<forall>v. r = Inr v \<longrightarrow> P v)"

lemma post_andthen: "(\<And>v. r = Inr v \<Longrightarrow> post P (f v)) \<Longrightarrow> post P (andthen r f)"
  unfolding post_def andthen_eq_Inr_iff by blast

lemma post_Inr: "post P (Inr v) \<longleftrightarrow> P v"
  by (simp add: post_def)

definition read_exit :: "world \<Rightarrow> control \<times> client \<times> world \<Rightarrow> bool" where
  "read_exit w = (\<lambda>(ctl, c', w'). fileMutex w' = fileMutex w \<and>
     (\<forall>msg. ctl = LogExit msg \<longrightarrow> msg = ''Failed to read from file''))"

definition seek_exit :: "control \<times> client \<times> world \<Rightarrow> bool" where
  "seek_exit = (\<lambda>(ctl, c', w'). \<not> fileMutex w' \<and> ctl = LogExit ''Failed to seek in file'')"

lemma send_exit: "post (read_exit w) (send_contents rd t s pos c w)"
  unfolding send_contents_def
  by (rule post_andthen) (auto simp only: post_Inr read_exit_def prod.case control.simps
    split: option.split if_split, simp_all)

lemma serve_line_exit: "post (read_exit w) (serve_line t c w)"
proof -
  have "post (read_exit w) (send_contents rd t s pos c (w\<lparr>kdevice := d, kheap := k\<rparr>))" for rd :: "_ \<Rightarrow> _" and s pos d k
    using send_exit [of "w\<lparr>kdevice := d, kheap := k\<rparr>"] by (simp add: read_exit_def)
  then show ?thesis unfolding serve_line_def Let_def
    by (intro post_andthen) (auto simp only: split_paired_all prod.case intro!: post_andthen)
qed

lemma serve_command_exit: "post (\<lambda>r. read_exit w r \<or> seek_exit r) (serve_command t command c w)"
proof -
  have "post (\<lambda>r. read_exit w r \<or> seek_exit r) (send_contents rd t s pos c w)" for rd :: "_ \<Rightarrow> _" and s pos
    using send_exit [of w rd t s pos c] by (simp only: post_def) blast
  then show ?thesis unfolding serve_command_def
    by (intro post_andthen) (auto simp only: split_paired_all prod.case post_Inr seek_exit_def
      split: sum.split intro!: post_andthen, simp)
qed

lemma packet_exit_mutex:
  assumes "packet_turn t c w = Inr (LogExit msg, c', w')"
  shows "\<not> fileMutex w \<and> (fileMutex w' \<longleftrightarrow> msg = ''Failed to read from file'')"
proof (cases "fileMutex w")
  case False
  let ?w = "w\<lparr>fileMutex := True\<rparr>"
  let ?P = "\<lambda>r. fst r = Loop \<or> read_exit ?w r \<or> seek_exit r"
  have line: "post ?P (if b then serve_command t cm c ?w else serve_line t c ?w)" for b cm
    using serve_line_exit [of ?w] serve_command_exit [of ?w] by (simp only: post_def split: if_split) blast
  have "post ?P (packet_turn t c w)"
    unfolding packet_turn_def packet_section_def locked_section_def if_not_P [OF False]
  proof (rule post_andthen, clarify, rule post_andthen, clarify)
    fix b cm ctl c2 w2
    assume "(if b then serve_command t cm c ?w else serve_line t c ?w) = Inr (ctl, c2, w2)"
    with line [of b cm] have "?P (ctl, c2, w2)" by (simp only: post_def)
    then show "post ?P (if ctl = Loop then
            andthen (server_buffer_clean (bufferString c2) (uheap w2)) (\<lambda>(b2, uh2).
            Inr (Loop, c2\<lparr>bufferString := b2\<rparr>, w2\<lparr>fileMutex := False, uheap := uh2\<rparr>))
          else Inr (ctl, c2, w2))"
      by (simp only: post_Inr split: if_split) (auto simp only: post_Inr split_paired_all prod.case fst_conv intro!: post_andthen)
  qed
  then have "?P (LogExit msg, c', w')" using assms by (simp only: post_def)
  moreover have "''Failed to seek in file'' \<noteq> ''Failed to read from file''" by simp
  moreover have "fileMutex ?w" by simp
  ultimately show ?thesis using False
    by (simp only: read_exit_def seek_exit_def prod.case fst_conv control.simps) auto
qed (use assms in \<open>simp add: packet_turn_def packet_section_def\<close>)

subsection \<open>A single cleaner and the threads it has joined\<close>

definition sole_cleaner :: "nat \<Rightarrow> proc \<Rightarrow> bool" where
  "sole_cleaner i s \<longleftrightarrow> (\<forall>e. p_main s \<noteq> MClean e) \<and> i < length (p_threads s) \<and>
     (\<forall>k<length (p_threads s). (\<exists>e. p_threads s ! k = Exiting e) \<longleftrightarrow> k = i)"

text \<open>The threads a cleaner has passed in its loop of joins.\<close>

primrec passed :: "cleaner \<Rightarrow> nat set" where
  "passed (Tokens k) = {}"
| "passed (Joining k) = {..<k}"
| "passed (Waiting k) = {..<k}"

text \<open>
  A thread in its critical section holds the mutex; a single cleaner has passed only threads that
  have ended; the process ended after it has passed all.
\<close>

definition joined :: "nat \<Rightarrow> nat set \<Rightarrow> proc \<Rightarrow> bool" where
  "joined i ms s \<longleftrightarrow> (\<forall>m\<in>ms. m < length (p_threads s) \<and> (m = i \<or> p_threads s ! m = Ended))"

definition proc_inv :: "proc \<Rightarrow> bool" where
  "proc_inv s \<longleftrightarrow>
     (\<forall>i<length (p_threads s). p_threads s ! i = Critical \<longrightarrow> p_mutex s = Some i) \<and>
     (\<forall>i e. sole_cleaner i s \<and> p_threads s ! i = Exiting e \<longrightarrow>
        joined i (passed e) s \<and> (p_done s \<longrightarrow> joined i {..<length (p_threads s)} s))"

lemma sole_unique: "sole_cleaner i s \<Longrightarrow> k < length (p_threads s) \<Longrightarrow> p_threads s ! k = Exiting e \<Longrightarrow> k = i"
  by (auto simp: sole_cleaner_def)

lemma joined_cong: "p_threads s' = p_threads s \<Longrightarrow> joined i ms s' = joined i ms s"
  by (simp add: joined_def)

lemma proc_inv_cong:
  assumes "proc_inv s" "p_threads s' = p_threads s" "p_mutex s' = p_mutex s" "p_done s' = p_done s"
    and "\<And>i. sole_cleaner i s' \<Longrightarrow> sole_cleaner i s"
  shows "proc_inv s'"
  unfolding proc_inv_def using assms by (auto simp: proc_inv_def joined_cong [OF assms(2)])

text \<open>A thread that has not ended moves to \<open>t\<close>.\<close>

lemma thread_move_inv:
  assumes "proc_inv s" "i < length (p_threads s)" "p_threads s ! i \<noteq> Ended" "\<not> p_done s"
    and s': "p_threads s' = (p_threads s)[i := t]" "p_main s' = p_main s" "p_done s' = p_done s"
    and "t = Critical \<Longrightarrow> p_mutex s' = Some i"
    and "p_mutex s' = p_mutex s \<or> p_threads s ! i = Critical \<or> p_mutex s = None"
    and "\<And>e. p_threads s ! i = Exiting e \<Longrightarrow> \<exists>e'. t = Exiting e'"
    and "\<And>e. t = Exiting e \<Longrightarrow> sole_cleaner i s' \<Longrightarrow> joined i (passed e) s"
  shows "proc_inv s'"
  unfolding proc_inv_def s'(1) length_list_update
proof (intro conjI allI impI)
  fix j
  assume j: "j < length (p_threads s)" "(p_threads s)[i := t] ! j = Critical"
  show "p_mutex s' = Some j"
  proof (cases "j = i")
    case False
    then have "p_mutex s = Some j" using j assms(1) by (simp add: proc_inv_def)
    moreover have "p_threads s ! i \<noteq> Critical" using calculation False assms(1,2) by (auto simp: proc_inv_def)
    ultimately show ?thesis using assms(9) by simp
  qed (use j assms(2,8) in simp)
next
  fix j e
  assume j: "sole_cleaner j s' \<and> (p_threads s)[i := t] ! j = Exiting e"
  have keep: "joined j ms s \<Longrightarrow> joined j ms s'" for ms
    using assms(3) by (auto simp: joined_def s'(1)) (metis nth_list_update_neq)
  show "joined j (passed e) s'"
  proof (cases "j = i")
    case True
    then show ?thesis using j assms(2,11) by (intro keep) auto
  next
    case False
    then have t: "\<forall>e'. t \<noteq> Exiting e'" using j assms(2) by (auto simp: sole_cleaner_def s'(1))
    then have "\<forall>e'. p_threads s ! i \<noteq> Exiting e'" using assms(10) by blast
    then have "(\<exists>e. (p_threads s)[i := t] ! k = Exiting e) \<longleftrightarrow> (\<exists>e. p_threads s ! k = Exiting e)" for k
      using t assms(2) by (cases "k = i") auto
    then have "sole_cleaner j s" using j s'(2) by (simp add: sole_cleaner_def s'(1))
    then show ?thesis using assms(1) j False by (intro keep) (simp add: proc_inv_def)
  qed
qed (simp add: assms(4) s'(3))

text \<open>With a single cleaner a join returns only for the cleaner itself and for a thread that has ended.\<close>

lemma sole_join_returns:
  assumes "sole_cleaner i s" "p_threads s ! i = Exiting (Joining k)" "k < length (p_threads s)"
  shows "join_returns (Some i) k s \<longleftrightarrow> k = i \<or> p_threads s ! k = Ended"
proof -
  have "Exiting (Waiting m) \<notin> set (p_threads s)" for m
  proof
    assume "Exiting (Waiting m) \<in> set (p_threads s)"
    then obtain j where "j < length (p_threads s)" "p_threads s ! j = Exiting (Waiting m)" by (auto simp: in_set_conv_nth)
    with sole_unique [OF assms(1)] assms(2) show False by fastforce
  qed
  then have "p_threads s ! k \<noteq> Exiting (Waiting m)" for m using assms(3) nth_mem by metis
  with \<open>\<And>m. Exiting (Waiting m) \<notin> set (p_threads s)\<close> assms(1) show ?thesis
    by (auto simp: join_returns_def sole_cleaner_def)
qed

lemma clean_step_passed:
  assumes "clean_step (Some i) e s = (Goes e', s')" "sole_cleaner i s" "p_threads s ! i = Exiting e"
    and "joined i (passed e) s"
  shows "joined i (passed e') s"
  using assms by (auto simp: clean_step_def less_Suc_eq sole_join_returns joined_def split: cleaner.splits if_splits)

lemma clean_step_keeps:
  assumes "clean_step self e s = (r, s')"
  shows "p_threads s' = p_threads s" "p_main s' = p_main s" "p_mutex s' = p_mutex s" "p_done s' = p_done s"
  using assms by (auto simp: clean_step_def split: cleaner.splits if_splits)

lemma begin_exit_passed [simp]: "passed (begin_exit s) = {}"
  by (simp add: begin_exit_def)

lemma sole_clean_main: "p_main s = MClean e \<Longrightarrow> \<not> sole_cleaner i s"
  by (simp add: sole_cleaner_def)

lemma main_moves_inv:
  assumes "main_moves s s'" "proc_inv s"
  shows "proc_inv s'"
  using assms(1)
proof (cases rule: main_moves.cases)
  case accept
  have nth: "(p_threads s @ [Polling]) ! j = p_threads s ! j" if "j < length (p_threads s)" for j
    using that by (simp add: nth_append)
  have joined: "joined j ms s \<Longrightarrow> joined j ms s'" for j ms
    using accept(1) nth by (auto simp: joined_def less_Suc_eq)
  have sole: "sole_cleaner j s \<and> j < length (p_threads s)" if "sole_cleaner j s'" for j
    using that accept(1,3) by (auto simp: sole_cleaner_def less_Suc_eq nth_append split: if_splits)
  show ?thesis unfolding proc_inv_def
  proof (intro conjI allI impI)
    fix j e
    assume j: "sole_cleaner j s' \<and> p_threads s' ! j = Exiting e"
    then show "joined j (passed e) s'"
      using sole [of j] assms(2) nth [of j] accept(1) by (intro joined) (simp add: proc_inv_def)
  qed (use assms(2) accept(1,2) in \<open>auto simp: proc_inv_def less_Suc_eq nth_append split: if_splits\<close>)
next
  case (main_cleans e e' s1)
  then show ?thesis
    by (intro proc_inv_cong [OF assms(2)]) (auto simp: clean_step_keeps sole_clean_main)
next
  case (main_exits e s1)
  then show ?thesis using assms(2) clean_step_keeps [OF main_exits(4)] sole_clean_main
    by (auto simp: proc_inv_def)
next
  case signal
  then show ?thesis by (intro proc_inv_cong [OF assms(2)]) (auto simp: sole_cleaner_def)
next
  case loop
  then show ?thesis by (intro proc_inv_cong [OF assms(2)]) (auto simp: sole_cleaner_def split: if_splits)
next
  case accept_failed
  then show ?thesis by (intro proc_inv_cong [OF assms(2)]) (auto simp: sole_cleaner_def)
qed

lemma thread_moves_inv:
  assumes "thread_moves s s'" "proc_inv s"
  shows "proc_inv s'"
  using assms(1)
proof (cases rule: thread_moves.cases)
  case (thread_cleans i e e' s1)
  note keeps = clean_step_keeps [OF thread_cleans(5)]
  show ?thesis
  proof (rule thread_move_inv [OF assms(2) thread_cleans(3)])
    fix e1
    assume m: "Exiting e' = Exiting e1" "sole_cleaner i s'"
    have "sole_cleaner i s"
      using m(2) thread_cleans(3,4) by (auto simp: sole_cleaner_def thread_cleans(1) set_thread_def keeps nth_list_update split: if_splits)
    then show "joined i (passed e1) s"
      using clean_step_passed [OF thread_cleans(5) _ thread_cleans(4)] m assms(2) thread_cleans(4)
      by (simp add: proc_inv_def)
  qed (use thread_cleans keeps in \<open>auto simp: set_thread_def\<close>)
next
  case (thread_exits i e s1)
  note keeps = clean_step_keeps [OF thread_exits(5)]
  obtain k where k: "e = Joining k" "length (p_threads s) \<le> k"
    using thread_exits(5) by (auto simp: clean_step_def split: cleaner.splits if_splits)
  have sole: "sole_cleaner j s' \<Longrightarrow> sole_cleaner j s \<and> j = i" for j
    using sole_unique thread_exits(3,4) by (fastforce simp: thread_exits(1) sole_cleaner_def keeps)
  have joined: "joined j ms s' = joined j ms s" for j ms by (intro joined_cong) (simp add: thread_exits(1) keeps)
  have "joined i {..<k} s" if "sole_cleaner i s" using that assms(2) k(1) thread_exits(4)
    unfolding proc_inv_def by (metis passed.simps(2))
  then have all: "joined i (passed e) s" "joined i {..<length (p_threads s)} s" if "sole_cleaner i s"
    using that k by (auto simp: joined_def)
  show ?thesis unfolding proc_inv_def joined
  proof (intro conjI allI impI)
    fix j e1
    assume j: "sole_cleaner j s' \<and> p_threads s' ! j = Exiting e1"
    then have "sole_cleaner i s" "j = i" using sole by auto
    moreover have "e1 = e" using j calculation(2) thread_exits(4) by (simp add: thread_exits(1) keeps)
    ultimately show "joined j (passed e1) s" "joined j {..<length (p_threads s')} s"
      using all by (simp_all add: thread_exits(1) keeps)
  qed (use assms(2) in \<open>simp add: proc_inv_def thread_exits(1) keeps\<close>)
next
  case (token i)
  then show ?thesis by (intro thread_move_inv [OF assms(2) token(3)]) (auto simp: set_thread_def joined_def)
next
  case (closed i)
  then show ?thesis by (intro thread_move_inv [OF assms(2) closed(3)]) (auto simp: set_thread_def joined_def)
next
  case (failed i)
  then show ?thesis by (intro thread_move_inv [OF assms(2) failed(3)]) (auto simp: set_thread_def joined_def)
next
  case (packet i)
  then show ?thesis by (intro thread_move_inv [OF assms(2) packet(3)]) (auto simp: set_thread_def joined_def)
next
  case (lock i)
  then show ?thesis by (intro thread_move_inv [OF assms(2) lock(3)]) (auto simp: set_thread_def joined_def)
next
  case (served i)
  then show ?thesis by (intro thread_move_inv [OF assms(2) served(3)]) (auto simp: set_thread_def joined_def)
next
  case (seek_failed i)
  then show ?thesis by (intro thread_move_inv [OF assms(2) seek_failed(3)]) (auto simp: set_thread_def joined_def)
next
  case (read_failed i)
  then show ?thesis by (intro thread_move_inv [OF assms(2) read_failed(3)]) (auto simp: set_thread_def joined_def)
qed

lemma proc_step_inv:
  assumes "proc_step s s'" "proc_inv s"
  shows "proc_inv s'"
  using assms main_moves_inv thread_moves_inv by (blast elim: proc_stepE)

lemma proc_reachable_inv: "proc_step\<^sup>*\<^sup>* start_proc s \<Longrightarrow> proc_inv s"
proof (induction rule: rtranclp_induct)
  case base
  show ?case by (simp add: proc_inv_def start_proc_def sole_cleaner_def)
qed (rule proc_step_inv)

subsection \<open>The mutex of a thread that cleans up\<close>

text \<open>Thread \<open>i\<close> cleans up and has not given the mutex back, and thread \<open>j\<close> waits for it.\<close>

definition held :: "nat \<Rightarrow> nat \<Rightarrow> proc \<Rightarrow> bool" where
  "held i j s \<longleftrightarrow> i < length (p_threads s) \<and> j < length (p_threads s) \<and>
     (\<exists>e. p_threads s ! i = Exiting e) \<and> p_mutex s = Some i \<and> p_threads s ! j = WantLock"

lemma held_move:
  assumes "held i j s" "p_threads s ! k \<notin> {Critical, WantLock}" "p_threads s' = (p_threads s)[k := t]"
    "p_mutex s' = p_mutex s" "k = i \<Longrightarrow> \<exists>e. t = Exiting e"
  shows "held i j s'"
proof -
  have "k \<noteq> j" using assms(1,2) by (auto simp: held_def)
  then show ?thesis using assms by (cases "k = i") (auto simp: held_def)
qed

lemma held_main_step:
  assumes "main_moves s s'" "proc_inv s" "held i j s"
  shows "held i j s'"
  using assms(1)
proof (cases rule: main_moves.cases)
  case (accept)
  then show ?thesis using assms(3) by (auto simp: held_def nth_append)
next
  case (main_cleans e e' s1)
  then show ?thesis using assms(3) by (simp add: held_def clean_step_keeps [OF main_cleans(4)])
next
  case (main_exits e s1)
  then show ?thesis using assms(3) by (simp add: held_def clean_step_keeps [OF main_exits(4)])
qed (use assms(3) in \<open>simp_all add: held_def\<close>)

lemma held_thread_step:
  assumes "thread_moves s s'" "proc_inv s" "held i j s"
  shows "held i j s'"
  using assms(1)
proof (cases rule: thread_moves.cases)
  case (lock k)
  then show ?thesis using assms(3) by (simp add: held_def)
next
  case (served k)
  then show ?thesis using assms(2,3) by (auto simp: held_def proc_inv_def)
next
  case (seek_failed k)
  then show ?thesis using assms(2,3) by (auto simp: held_def proc_inv_def)
next
  case (read_failed k)
  then show ?thesis using assms(2,3) by (auto simp: held_def proc_inv_def)
next
  case (thread_cleans k e e' s1)
  then show ?thesis using assms(3)
    by (intro held_move [OF assms(3)]) (auto simp: set_thread_def clean_step_keeps [OF thread_cleans(5)])
next
  case (thread_exits k e s1)
  then show ?thesis using assms(3) by (simp add: held_def clean_step_keeps [OF thread_exits(5)])
next
  case (token k)
  then show ?thesis using assms(3) by (intro held_move [OF assms(3)]) (auto simp: set_thread_def held_def)
next
  case (closed k)
  then show ?thesis using assms(3) by (intro held_move [OF assms(3)]) (auto simp: set_thread_def held_def)
next
  case (failed k)
  then show ?thesis using assms(3) by (intro held_move [OF assms(3)]) (auto simp: set_thread_def held_def)
next
  case (packet k)
  then show ?thesis using assms(3) by (intro held_move [OF assms(3)]) (auto simp: set_thread_def held_def)
qed

lemma held_step:
  assumes "proc_step s s'" "proc_inv s" "held i j s"
  shows "held i j s'"
  using assms held_main_step held_thread_step by (blast elim: proc_stepE)

lemma held_runs:
  assumes "proc_step\<^sup>*\<^sup>* s s'" "proc_inv s" "held i j s"
  shows "held i j s' \<and> proc_inv s'"
  using assms by (induction rule: rtranclp_induct) (auto intro: held_step proc_step_inv)

text \<open>
  C39. The exit after a failed read can hang. When a client thread has called \<open>logAndExit\<close> while it
  holds the file mutex, which the code does after a failed read (lemma \<open>packet_exit_mutex\<close>), and
  another client thread waits for the mutex, then that thread waits in every later state, and
  as long as no second thread cleans up the process does not end: the cleaner joins a thread
  that waits for the mutex the cleaner holds.
\<close>

theorem server_exit_deadlock:
  assumes "proc_step\<^sup>*\<^sup>* start_proc s"
    and "i < length (p_threads s)" "p_threads s ! i = Exiting e" "p_mutex s = Some i"
    and "j < length (p_threads s)" "p_threads s ! j = WantLock"
    and "proc_step\<^sup>*\<^sup>* s s'"
  shows "p_threads s' ! j = WantLock \<and> p_mutex s' = Some i \<and> (sole_cleaner i s' \<longrightarrow> \<not> p_done s')"
proof -
  have "held i j s' \<and> proc_inv s'"
    using assms by (intro held_runs [OF assms(7)] proc_reachable_inv) (auto simp: held_def)
  then have h: "held i j s'" "proc_inv s'" by simp_all
  have "\<not> p_done s'" if "sole_cleaner i s'"
  proof
    assume "p_done s'"
    with that have "joined i {..<length (p_threads s')} s'" using h unfolding held_def proc_inv_def by blast
    then have "j = i \<or> p_threads s' ! j = Ended" using h(1) unfolding joined_def held_def by blast
    then show False using h(1) by (auto simp: held_def)
  qed
  with h(1) show ?thesis by (simp add: held_def)
qed

text \<open>
  Two connections: the first thread takes the mutex and its read fails while the second waits for
  the mutex; the first then writes two bytes into the pipe and waits for the second.
\<close>

definition two_threads :: "tpc list \<Rightarrow> nat \<Rightarrow> nat option \<Rightarrow> proc" where
  "two_threads ts n m = \<lparr>p_main = MLoop, p_threads = ts, p_tokens = n, p_mutex = m, p_stop = False, p_done = False\<rparr>"

lemma two_threads_read_failed:
  "proc_step\<^sup>*\<^sup>* start_proc (two_threads [Exiting (Tokens 0), WantLock] 0 (Some 0))"
proof -
  have "proc_step start_proc (start_proc\<lparr>p_main := MAccept\<rparr>)"
    using proc_step.main [OF main_moves.loop [of start_proc]] by (simp add: start_proc_def)
  moreover have "proc_step (start_proc\<lparr>p_main := MAccept\<rparr>) (two_threads [Polling] 0 None)"
    using proc_step.main [OF main_moves.accept [of "start_proc\<lparr>p_main := MAccept\<rparr>"]]
    by (simp add: start_proc_def two_threads_def MAX_THREADS_def)
  moreover have "proc_step (two_threads [Polling] 0 None) ((two_threads [Polling] 0 None)\<lparr>p_main := MAccept\<rparr>)"
    using proc_step.main [OF main_moves.loop [of "two_threads [Polling] 0 None"]] by (simp add: two_threads_def)
  moreover have "proc_step ((two_threads [Polling] 0 None)\<lparr>p_main := MAccept\<rparr>) (two_threads [Polling, Polling] 0 None)"
    using proc_step.main [OF main_moves.accept [of "(two_threads [Polling] 0 None)\<lparr>p_main := MAccept\<rparr>"]]
    by (simp add: two_threads_def MAX_THREADS_def)
  moreover have "proc_step (two_threads [Polling, Polling] 0 None) (two_threads [WantLock, Polling] 0 None)"
    using proc_step.thread [OF thread_moves.packet [of "two_threads [Polling, Polling] 0 None" 0]] by (simp add: two_threads_def set_thread_def)
  moreover have "proc_step (two_threads [WantLock, Polling] 0 None) (two_threads [WantLock, WantLock] 0 None)"
    using proc_step.thread [OF thread_moves.packet [of "two_threads [WantLock, Polling] 0 None" 1]] by (simp add: two_threads_def set_thread_def)
  moreover have "proc_step (two_threads [WantLock, WantLock] 0 None) (two_threads [Critical, WantLock] 0 (Some 0))"
    using proc_step.thread [OF thread_moves.lock [of "two_threads [WantLock, WantLock] 0 None" 0]] by (simp add: two_threads_def set_thread_def)
  moreover have "proc_step (two_threads [Critical, WantLock] 0 (Some 0)) (two_threads [Exiting (Tokens 0), WantLock] 0 (Some 0))"
    using proc_step.thread [OF thread_moves.read_failed [of "two_threads [Critical, WantLock] 0 (Some 0)" 0]]
    by (simp add: two_threads_def set_thread_def begin_exit_def)
  ultimately show ?thesis by (meson converse_rtranclp_into_rtranclp rtranclp.rtrancl_refl)
qed

lemma two_threads_clean:
  assumes "clean_step (Some 0) e (two_threads [Exiting e, WantLock] n (Some 0)) =
    (Goes e', two_threads [Exiting e, WantLock] n' (Some 0))"
  shows "proc_step (two_threads [Exiting e, WantLock] n (Some 0)) (two_threads [Exiting e', WantLock] n' (Some 0))"
  using proc_step.thread [OF thread_moves.thread_cleans [of "two_threads [Exiting e, WantLock] n (Some 0)" 0 e, OF _ _ _ assms]]
  by (simp add: two_threads_def set_thread_def)

lemma two_threads_wait:
  "proc_step\<^sup>*\<^sup>* (two_threads [Exiting (Tokens 0), WantLock] 0 (Some 0)) (two_threads [Exiting (Waiting 1), WantLock] 2 (Some 0))"
proof -
  let ?s = "\<lambda>e n. two_threads [Exiting e, WantLock] n (Some 0)"
  have "proc_step (?s (Tokens 0) 0) (?s (Tokens 1) 1)" "proc_step (?s (Tokens 1) 1) (?s (Tokens 2) 2)"
    "proc_step (?s (Tokens 2) 2) (?s (Joining 0) 2)" "proc_step (?s (Joining 0) 2) (?s (Joining 1) 2)"
    "proc_step (?s (Joining 1) 2) (?s (Waiting 1) 2)"
    by (rule two_threads_clean; simp add: clean_step_def two_threads_def join_returns_def)+
  then show ?thesis by (meson converse_rtranclp_into_rtranclp rtranclp.rtrancl_refl)
qed

theorem server_exit_deadlock_witness:
  "p_threads (two_threads [Exiting (Waiting 1), WantLock] 2 (Some 0)) ! 1 = WantLock \<and>
   sole_cleaner 0 (two_threads [Exiting (Waiting 1), WantLock] 2 (Some 0)) \<and>
   \<not> p_done (two_threads [Exiting (Waiting 1), WantLock] 2 (Some 0))"
proof -
  have "sole_cleaner 0 (two_threads [Exiting (Waiting 1), WantLock] 2 (Some 0))"
    by (auto simp: sole_cleaner_def two_threads_def less_Suc_eq)
  with server_exit_deadlock [OF two_threads_read_failed _ _ _ _ _ two_threads_wait, of 0 "Tokens 0" 1] show ?thesis
    by (simp add: two_threads_def)
qed

end
