(* ===== verification/Signals.thy ===== *)
theory Signals
  imports Server_Main
begin

text \<open>
  How the socket server registers its signal handlers, \<open>setSignalSIGINTHandler\<close> and
  \<open>setSignalSIGTERMHandler\<close> of \<^verbatim>\<open>server/src/aesdsocket.c\<close>.

  Both put the number of the signal into \<open>sa_flags\<close>. The flags are the bits of Linux on x86-64.
  What the server depends on: the handler runs at every delivery (no \<open>SA_RESETHAND\<close>), and a
  blocked \<open>accept\<close> is interrupted (no \<open>SA_RESTART\<close>), so that the main loop sees \<open>stop\<close>.
\<close>

unbundle bit_operations_syntax

definition SIGINT :: nat where "SIGINT = 2"
definition SIGTERM :: nat where "SIGTERM = 15"

definition SA_SIGINFO :: u32 where "SA_SIGINFO = 0x00000004"
definition SA_RESTART :: u32 where "SA_RESTART = 0x10000000"
definition SA_RESETHAND :: u32 where "SA_RESETHAND = 0x80000000"

datatype handler = RunSIGINT | RunSIGTERM

record action =
  sa_flags :: u32
  sa_sigaction :: handler

text \<open>The registered actions; \<open>None\<close> is the default action, which ends the process.\<close>

type_synonym actions = "nat \<Rightarrow> action option"

definition setSignalSIGINTHandler :: "actions \<Rightarrow> actions" where
  "setSignalSIGINTHandler acts = acts(SIGINT \<mapsto> \<lparr>sa_flags = of_nat SIGINT, sa_sigaction = RunSIGINT\<rparr>)"

definition setSignalSIGTERMHandler :: "actions \<Rightarrow> actions" where
  "setSignalSIGTERMHandler acts = acts(SIGTERM \<mapsto> \<lparr>sa_flags = of_nat SIGTERM, sa_sigaction = RunSIGTERM\<rparr>)"

text \<open>
  The delivery of a signal to main: the handler runs; a handler with \<open>SA_RESETHAND\<close> is then
  removed; a blocked \<open>accept\<close> fails with \<open>EINTR\<close> unless \<open>SA_RESTART\<close> is set. Without a handler
  the process ends (\<open>None\<close>).
\<close>

definition deliver :: "nat \<Rightarrow> actions \<Rightarrow> server \<Rightarrow> (actions \<times> server res) option" where
  "deliver sig acts s =
     (case acts sig of
        None \<Rightarrow> None
      | Some a \<Rightarrow>
          let acts1 = (if sa_flags a AND SA_RESETHAND = 0 then acts else acts(sig := None));
              s1 = (case sa_sigaction a of RunSIGINT \<Rightarrow> SIGINTHandler s | RunSIGTERM \<Rightarrow> SIGTERMHandler s)
          in Some (acts1, if pc s = InAccept \<and> sa_flags a AND SA_RESTART = 0
                          then accept_return (AcceptFailed True) s1 else Inr s1))"

text \<open>The actions main runs with.\<close>

definition server_actions :: "actions \<Rightarrow> actions" where
  "server_actions acts = setSignalSIGTERMHandler (setSignalSIGINTHandler acts)"

text \<open>
  Either signal sets \<open>stop\<close>, leaves the handlers registered, and in \<open>accept\<close> takes main out of its
  loop into the cleanup with exit code 0.
\<close>

lemma signal_stops:
  assumes "sig = SIGINT \<or> sig = SIGTERM"
  shows "deliver sig (server_actions acts) s =
    Some (server_actions acts, Inr (if pc s = InAccept then cleanupMain (s\<lparr>stop := True, exit_code := EXIT_SUCCESS\<rparr>)
                                    else s\<lparr>stop := True\<rparr>))"
  using assms
  by (auto simp: deliver_def server_actions_def setSignalSIGINTHandler_def setSignalSIGTERMHandler_def SIGINT_def
    SIGTERM_def SA_RESETHAND_def SA_RESTART_def accept_return_def SIGINTHandler_def SIGTERMHandler_def)

text \<open>\<open>SA_SIGINFO\<close>, which a three-argument handler needs, is missing for the one and set by chance for the other.\<close>

lemma siginfo_flags:
  "of_nat SIGINT AND SA_SIGINFO = 0" "of_nat SIGTERM AND SA_SIGINFO = SA_SIGINFO"
  by (simp_all add: SIGINT_def SIGTERM_def SA_SIGINFO_def)

end
