(* ===== verification/Buffer_Packet.thy ===== *)
theory Buffer_Packet
  imports CMemory
begin

text \<open>
  The array of packets of the socket server, \<open>bufferPacketCreate\<close>, \<open>bufferPacketDelete\<close> and
  \<open>bufferPacketFree\<close> of \<^verbatim>\<open>server/src/aesdsocket.c\<close>. The client thread no longer calls them.

  The array is its block and the 512 pointers in it. \<open>bufferPacketFree\<close> counts with a \<open>uint8_t\<close>, so
  it reaches at most the first 255 of them.
\<close>

record packets =
  packet_block :: ptr
  packet_slots :: "ptr list"

text \<open>A refused allocation ends in \<open>logAndExit\<close> (\<open>None\<close>).\<close>

definition bufferPacketCreate :: "heap \<Rightarrow> packets option \<times> heap" where
  "bufferPacketCreate h =
     (case calloc 512 8 h of
        (NULL, h1) \<Rightarrow> (None, h1)
      | (Ptr k, h1) \<Rightarrow> (Some \<lparr>packet_block = Ptr k, packet_slots = replicate 512 NULL\<rparr>, h1))"

definition bufferPacketDelete :: "ptr \<Rightarrow> heap \<Rightarrow> heap res" where
  "bufferPacketDelete p h = (if p \<noteq> NULL then free p h else Inr h)"

definition free_slot :: "u8 \<Rightarrow> ptr list \<Rightarrow> heap \<Rightarrow> (ptr list \<times> heap) res" where
  "free_slot i ps h =
     (if length ps \<le> unat i then Inl OutOfBounds
      else if ps ! unat i \<noteq> NULL then
        andthen (free (ps ! unat i) h) (\<lambda>h1. Inr (ps[unat i := NULL], h1))
      else Inr (ps, h))"

lemma andthen_cong [fundef_cong]:
  "r = r' \<Longrightarrow> (\<And>x. r' = Inr x \<Longrightarrow> f x = f' x) \<Longrightarrow> andthen r f = andthen r' f'"
  by (cases r') auto

function packet_free_loop :: "u8 \<Rightarrow> u8 \<Rightarrow> ptr list \<Rightarrow> heap \<Rightarrow> (ptr list \<times> heap) res" where
  "packet_free_loop i n ps h =
     (if i < n then andthen (free_slot i ps h) (\<lambda>(ps1, h1). packet_free_loop (i + 1) n ps1 h1)
      else Inr (ps, h))"
  by pat_completeness auto

lemma unat_u8: "unat n < 256" for n :: u8
proof -
  have "unat n < 2 ^ LENGTH(8)" by (rule unsigned_less)
  then show ?thesis by simp
qed

text \<open>The counter does not wrap around: it stays below a number that is itself a \<open>uint8_t\<close>.\<close>

lemma unat_step: "i < n \<Longrightarrow> unat (i + 1) = Suc (unat i)" for i n :: u8
  using unat_u8 [of n] by (simp add: unat_word_ariths word_less_nat_alt)

termination packet_free_loop
  by (relation "measure (\<lambda>(i, n, ps, h). unat n - unat i)") (auto simp: unat_step word_less_nat_alt)

declare packet_free_loop.simps [simp del]

definition bufferPacketFree :: "packets \<Rightarrow> u8 \<Rightarrow> heap \<Rightarrow> (packets \<times> u8 \<times> heap) res" where
  "bufferPacketFree p n h =
     andthen (packet_free_loop 0 n (packet_slots p) h) (\<lambda>(ps, h1). Inr (p\<lparr>packet_slots := ps\<rparr>, 0, h1))"

subsection \<open>Every packet is freed once\<close>

text \<open>The slots from \<open>i\<close> to \<open>n\<close>: their blocks, and that these are live and no two the same.\<close>

definition slot_blocks :: "nat \<Rightarrow> nat \<Rightarrow> ptr list \<Rightarrow> nat set" where
  "slot_blocks i n ps = {k. \<exists>m. i \<le> m \<and> m < n \<and> ps ! m = Ptr k}"

definition slots_ok :: "nat \<Rightarrow> nat \<Rightarrow> ptr list \<Rightarrow> heap \<Rightarrow> bool" where
  "slots_ok i n ps h \<longleftrightarrow> slot_blocks i n ps \<subseteq> dom (blocks h) \<and>
     (\<forall>m m' k. i \<le> m \<and> m < n \<and> i \<le> m' \<and> m' < n \<and> ps ! m = Ptr k \<and> ps ! m' = Ptr k \<longrightarrow> m = m')"

definition cleared :: "nat \<Rightarrow> nat \<Rightarrow> ptr list \<Rightarrow> ptr list" where
  "cleared i n ps = map (\<lambda>m. if i \<le> m \<and> m < n then NULL else ps ! m) [0..<length ps]"

lemma cleared_step: "i < n \<Longrightarrow> i < length ps \<Longrightarrow> cleared (Suc i) n (ps[i := NULL]) = cleared i n ps"
  by (auto simp: cleared_def nth_list_update)

lemma cleared_done: "n \<le> i \<Longrightarrow> cleared i n ps = ps"
  by (rule nth_equalityI) (auto simp: cleared_def)

lemma slot_blocks_update: "slot_blocks (Suc i) n (ps[i := q]) = slot_blocks (Suc i) n ps"
  by (auto simp: slot_blocks_def)

lemma slot_blocks_step:
  "i < n \<Longrightarrow> slot_blocks i n ps = (case ps ! i of NULL \<Rightarrow> {} | Ptr k \<Rightarrow> {k}) \<union> slot_blocks (Suc i) n ps"
proof -
  assume i: "i < n"
  have "(\<exists>m. i \<le> m \<and> m < n \<and> ps ! m = Ptr k) \<longleftrightarrow> ps ! i = Ptr k \<or> (\<exists>m. Suc i \<le> m \<and> m < n \<and> ps ! m = Ptr k)" for k
    using i by (metis Suc_leD Suc_leI le_eq_less_or_eq)
  then show ?thesis by (cases "ps ! i") (auto simp: slot_blocks_def)
qed

lemma slots_ok_step: "i < n \<Longrightarrow> slots_ok i n ps h \<Longrightarrow> slots_ok (Suc i) n (ps[i := q]) h"
  by (auto simp: slots_ok_def slot_blocks_update slot_blocks_step)

lemma free_slot_spec:
  assumes "heap_ok h" "unat i < length ps" "unat i < n" "slots_ok (unat i) n ps h"
  shows "\<exists>h1. free_slot i ps h = Inr (ps[unat i := NULL], h1) \<and> heap_ok h1 \<and>
    blocks h1 = blocks h |` (- (case ps ! unat i of NULL \<Rightarrow> {} | Ptr k \<Rightarrow> {k})) \<and>
    slots_ok (Suc (unat i)) n (ps[unat i := NULL]) h1"
proof (cases "ps ! unat i")
  case NULL
  then have "ps[unat i := NULL] = ps" by (metis list_update_id)
  with NULL assms slots_ok_step [OF assms(3,4), of NULL] show ?thesis by (simp add: free_slot_def)
next
  case (Ptr k)
  then have "k \<in> slot_blocks (unat i) n ps" using assms(3) by (auto simp: slot_blocks_def)
  then obtain bs where bs: "blocks h k = Some bs" using assms(4) by (auto simp: slots_ok_def)
  obtain h1 where h1: "kfree (Ptr k) h = Inr h1" "heap_ok h1" "blocks h1 = (blocks h)(k := None)"
    using kfree_Ptr [OF assms(1) bs] by metis
  have "k \<notin> slot_blocks (Suc (unat i)) n ps"
  proof
    assume "k \<in> slot_blocks (Suc (unat i)) n ps"
    then obtain m where "Suc (unat i) \<le> m" "m < n" "ps ! m = Ptr k" by (auto simp: slot_blocks_def)
    moreover from this have "m = unat i" using assms(3,4) Ptr unfolding slots_ok_def by (meson Suc_leD order_refl)
    ultimately show False by simp
  qed
  then have "slots_ok (Suc (unat i)) n (ps[unat i := NULL]) h1"
    using slots_ok_step [OF assms(3,4), of NULL] h1(3) by (auto simp: slots_ok_def slot_blocks_update)
  moreover have "blocks h1 = blocks h |` (- {k})" using h1(3) by (auto simp: restrict_map_def)
  ultimately show ?thesis using Ptr h1 assms(2) by (simp add: free_slot_def free_def)
qed

lemma packet_free_loop_spec:
  "heap_ok h \<Longrightarrow> unat n \<le> length ps \<Longrightarrow> slots_ok (unat i) (unat n) ps h \<Longrightarrow>
   \<exists>h'. packet_free_loop i n ps h = Inr (cleared (unat i) (unat n) ps, h') \<and> heap_ok h' \<and>
     blocks h' = blocks h |` (- slot_blocks (unat i) (unat n) ps)"
proof (induction i n ps h rule: packet_free_loop.induct)
  case (1 i n ps h)
  show ?case
  proof (cases "i < n")
    case True
    then have lt: "unat i < unat n" "unat i < length ps" using 1(3) by (simp_all add: word_less_nat_alt)
    from free_slot_spec [OF 1(2) lt(2,1) 1(4)] obtain h1 where
      h1: "free_slot i ps h = Inr (ps[unat i := NULL], h1)" "heap_ok h1"
      "blocks h1 = blocks h |` (- (case ps ! unat i of NULL \<Rightarrow> {} | Ptr k \<Rightarrow> {k}))"
      "slots_ok (unat (i + 1)) (unat n) (ps[unat i := NULL]) h1" by (auto simp: unat_step [OF True])
    from 1(1) [OF True h1(1) refl h1(2) _ h1(4)] 1(3) obtain h2 where
      h2: "packet_free_loop (i + 1) n (ps[unat i := NULL]) h1 =
        Inr (cleared (unat (i + 1)) (unat n) (ps[unat i := NULL]), h2)" "heap_ok h2"
      "blocks h2 = blocks h1 |` (- slot_blocks (unat (i + 1)) (unat n) (ps[unat i := NULL]))" by auto
    have "blocks h2 = blocks h |` (- slot_blocks (unat i) (unat n) ps)"
      using h2(3) h1(3) lt(1) by (simp add: unat_step [OF True] slot_blocks_update slot_blocks_step)
    with True h1(1) h2 lt show ?thesis
      by (subst packet_free_loop.simps) (simp add: unat_step [OF True] cleared_step)
  next
    case False
    then have "unat n \<le> unat i" by (simp add: word_le_nat_alt not_less)
    then show ?thesis using False 1(2)
      by (subst packet_free_loop.simps) (auto simp: cleared_done slot_blocks_def)
  qed
qed

text \<open>
  \<open>bufferPacketFree\<close> ends, frees the block of every one of the first \<open>n\<close> slots exactly once and
  nothing else, clears these slots and the index, for every index a \<open>uint8_t\<close> can hold.
\<close>

lemma bufferPacketFree_spec:
  assumes "heap_ok h" "length (packet_slots p) = 512" "slots_ok 0 (unat n) (packet_slots p) h"
  shows "\<exists>h'. bufferPacketFree p n h = Inr (p\<lparr>packet_slots := cleared 0 (unat n) (packet_slots p)\<rparr>, 0, h') \<and>
    heap_ok h' \<and> blocks h' = blocks h |` (- slot_blocks 0 (unat n) (packet_slots p))"
proof -
  have "unat n \<le> length (packet_slots p)" using assms(2) unat_u8 [of n] by simp
  from packet_free_loop_spec [OF assms(1) this, of 0] assms(3) show ?thesis
    by (auto simp: bufferPacketFree_def)
qed

text \<open>An array just created holds no packets; deleting it gives its block back.\<close>

lemma bufferPacket_lifetime:
  assumes "heap_ok h" "bufferPacketCreate h = (Some p, h1)"
  shows "\<exists>h2 h3. bufferPacketFree p n h1 = Inr (p, 0, h2) \<and> bufferPacketDelete (packet_block p) h2 = Inr h3 \<and>
    heap_ok h3 \<and> blocks h3 = blocks h"
proof -
  obtain k where k: "calloc 512 8 h = (Ptr k, h1)" "p = \<lparr>packet_block = Ptr k, packet_slots = replicate 512 NULL\<rparr>"
    using assms(2) by (auto simp: bufferPacketCreate_def split: prod.splits ptr.splits)
  note c = calloc_Ptr [OF k(1) assms(1)]
  have n: "unat n < 512" using unat_u8 [of n] by simp
  have none: "slot_blocks 0 (unat n) (packet_slots p) = {}" using n by (auto simp: slot_blocks_def k(2))
  have "slots_ok 0 (unat n) (packet_slots p) h1" unfolding slots_ok_def none using n by (auto simp: k(2))
  from bufferPacketFree_spec [OF c(1) _ this] obtain h2 where h2: "bufferPacketFree p n h1 =
      Inr (p\<lparr>packet_slots := cleared 0 (unat n) (packet_slots p)\<rparr>, 0, h2)" "heap_ok h2" "blocks h2 = blocks h1"
    using none by (auto simp: k(2))
  have "cleared 0 (unat n) (packet_slots p) = packet_slots p" by (auto simp: cleared_def k(2) intro: nth_equalityI)
  moreover obtain h3 where "kfree (Ptr k) h2 = Inr h3" "heap_ok h3" "blocks h3 = (blocks h2)(k := None)"
    using kfree_Ptr [OF h2(2), of k] h2(3) c(4) by auto
  ultimately show ?thesis using h2 c(3,4) k(2) by (auto simp: bufferPacketDelete_def free_def fun_upd_idem)
qed

end
