(* ===== verification/Ioctl_Test.thy ===== *)
theory Ioctl_Test
  imports Driver
begin

text \<open>
  The test program \<^verbatim>\<open>aesd-char-driver/testing/ioctl_test/ioctl_test.c\<close>: four writes, a seek to byte
  3 of the second of them, and reads to the end. Its output is the list of strings it prints
  after \<open>Read data:\<close>.
\<close>

definition test_lines :: "bytes list" where
  "test_lines = [''test1'' @ [newline], ''test2'' @ [newline], ''test3'' @ [newline], ''test4'' @ [newline]]"

definition test_seekto :: aesd_seekto where
  "test_seekto = \<lparr>write_cmd = 1, write_cmd_offset = 3\<rparr>"

text \<open>
  The read loop. The terminating null character after the loop is stored at \<open>buffer[bytes_read]\<close>,
  also when the last \<open>read\<close> has failed and returned \<open>-1\<close>.
\<close>

fun test_read_loop :: "nat \<Rightarrow> aesd_dev \<Rightarrow> filp \<Rightarrow> loff_t \<Rightarrow> heap \<Rightarrow> bytes list option res" where
  "test_read_loop 0 d f pos h = Inr None"
| "test_read_loop (Suc n) d f pos h =
     andthen (aesd_read d f 100 99 pos h) (\<lambda>(ret, buffer, pos1).
       case ret of
         Inl e \<Rightarrow> Inl OutOfBounds
       | Inr bytes_read \<Rightarrow>
           if bytes_read = 0 then Inr (Some [[]])
           else andthen (test_read_loop n d f pos1 h) (\<lambda>r. Inr (map_option ((#) buffer) r)))"

definition ioctl_test_main ::
    "bool \<Rightarrow> nat \<Rightarrow> aesd_dev \<Rightarrow> heap \<Rightarrow> (int \<times> bytes list) option res" where
  "ioctl_test_main opens fuel d h =
     (if \<not> opens then Inr (Some (1, []))
      else
        let f = snd (aesd_open \<lparr>f_pos = 0, private_data = False\<rparr>) in
        andthen (write_all d f test_lines h) (\<lambda>(_, d1, h1).
        andthen (aesd_ioctl d1 f test_AESDCHAR_IOCSEEKTO (Some test_seekto)) (\<lambda>(ret, f1).
          case ret of
            Inl e \<Rightarrow> Inr (Some (1, []))
          | Inr _ \<Rightarrow>
              andthen (test_read_loop fuel d1 f1 (f_pos f1) h1) (\<lambda>r. Inr (map_option (Pair 0) r)))))"

subsection \<open>What the test prints\<close>

text \<open>The strings read from a log in reads of 99 bytes, one entry at most each.\<close>

fun log_reads :: "nat \<Rightarrow> bytes list \<Rightarrow> nat \<Rightarrow> bytes list option" where
  "log_reads 0 log p = None"
| "log_reads (Suc n) log p =
     (let xs = log_read log p 99 in
      if xs = [] then Some [[]] else map_option ((#) xs) (log_reads n log (p + length xs)))"

lemma test_read_loop_spec:
  assumes "heap_ok h" "dev_ok d h" "private_data f"
  shows "test_read_loop n d f pos h = Inr (log_reads n (dev_log d h) (unat pos))"
proof (induction n arbitrary: pos)
  case (Suc n)
  let ?log = "dev_log d h"
  let ?xs = "log_read ?log (unat pos) 99"
  have fits: "length (concat ?log) \<le> PTRDIFF_MAX"
    using cindex.view_fits [OF assms(1)] assms(2) by (simp add: dev_ok_def dev_log_def)
  note len = log_read_length [of ?log "unat pos" 99]
  have zero: "(of_nat (length ?xs) :: size_t) = 0 \<longleftrightarrow> ?xs = []"
    using len(1) by (simp add: word_of_nat_eq_0_iff dvd_eq_mod_eq_0)
  have "unat (pos + of_nat (length ?xs)) = unat pos + length ?xs" if "?xs \<noteq> []"
    using that len(2) fits by (intro unat_pos_advance) auto
  with Suc.IH [of "pos + of_nat (length ?xs)"] len(1) zero show ?case
    by (auto simp: aesd_read_spec [OF assms] Let_def)
qed simp

lemma test_reads:
  "log_reads 4 test_lines 9 =
     Some [''t2'' @ [newline], ''test3'' @ [newline], ''test4'' @ [newline], []]"
  by (simp add: test_lines_def log_read_def numeral_eq_Suc)

lemma ioctl_test_main_spec:
  assumes "heap_ok h" "dev_ok d h" "healthy d" "dev_log d h = []" "dev_pending d h = []"
    and "out_offs (circ_obj d) = 0" "ample h 96"
  shows "ioctl_test_main True 4 d h =
    Inr (Some (0, [''t2'' @ [newline], ''test3'' @ [newline], ''test4'' @ [newline], []]))"
proof -
  have "ample h (demand (dev_pending d h) test_lines)"
    using assms(5,7) by (simp add: demand_def test_lines_def)
  from write_all_spec [OF assms(1,2) opened_private assms(3) this] obtain rs d1 h1 where
    w: "write_all d opened test_lines h = Inr (rs, d1, h1)" "heap_ok h1" "dev_ok d1 h1" "healthy d1"
    "(dev_log d1 h1, dev_pending d1 h1) = foldl spec_write (dev_log d h, dev_pending d h) test_lines"
    "length (dev_log d h) + length test_lines \<le> 10 \<longrightarrow> out_offs (circ_obj d1) = out_offs (circ_obj d)"
    by (auto simp: dev_step_def)
  have offs: "out_offs (circ_obj d1) = 0" using w(6) assms(4,6) by (simp add: test_lines_def)
  have "foldl spec_write ([], []) test_lines = (test_lines, [])"
    by (simp add: test_lines_def spec_write_def log_push_def)
  then have log: "dev_log d1 h1 = test_lines" using w(5) assms(4,5) by simp
  have in1: "(1::nat) < length (dev_log d1 h1) \<and> (3::nat) < length (dev_log d1 h1 ! 1)"
    by (simp add: log test_lines_def)
  have spec: "aesd_ioctl d1 opened AESDCHAR_IOCSEEKTO (Some test_seekto) = Inr (Inr 0, opened\<lparr>f_pos := 9\<rparr>)"
    using aesd_ioctl_spec [OF w(2,3) opened_private, of test_seekto]
      unwrapped_slot [of "circ_obj d1" h1 1] w(3,4) offs in1
    by (simp add: test_seekto_def dev_ok_def healthy_def log) (simp add: dev_log_def [symmetric] log test_lines_def)
  have "test_read_loop 4 d1 (opened\<lparr>f_pos := 9\<rparr>) 9 h1 =
      Inr (Some [''t2'' @ [newline], ''test3'' @ [newline], ''test4'' @ [newline], []])"
    using test_read_loop_spec [OF w(2,3), of "opened\<lparr>f_pos := 9\<rparr>" 4 9] test_reads log by simp
  with w(1) spec show ?thesis
    by (simp add: ioctl_test_main_def flip: opened_def)
qed

text \<open>
  C27. On a device that is empty, has not wrapped and has memory to spare, the test program prints
  the rest of the second line from its fourth byte, the third and the fourth line, then an empty
  string, and returns 0.
\<close>

theorem ioctl_test_prints:
  assumes "heap_ok h" "dev_ok d h" "healthy d" "dev_log d h = []" "dev_pending d h = []"
    and "out_offs (circ_obj d) = 0" "\<forall>k. grant h k" "used h + 96 \<le> PTRDIFF_MAX"
  shows "ioctl_test_main True 4 d h =
    Inr (Some (0, [''t2'' @ [newline], ''test3'' @ [newline], ''test4'' @ [newline], []]))"
  using assms by (intro ioctl_test_main_spec) (simp_all add: ample_def)

theorem ioctl_test_prints_witness:
  "ioctl_test_main True 4 (aesd_device loaded_module) loaded_heap =
    Inr (Some (0, [''t2'' @ [newline], ''test3'' @ [newline], ''test4'' @ [newline], []]))"
  using ioctl_test_prints [OF loaded_ok(1,2,7,8,9) loaded_offs] by (simp add: loaded_used PTRDIFF_MAX_def)

end
