(* ===== verification/System_Calls.thy ===== *)
theory System_Calls
  imports Prelude
begin

text \<open>
  Running other programs: \<^verbatim>\<open>examples/systemcalls/systemcalls.c\<close>.

  The operating system is a record: whether \<open>fork\<close> and \<open>waitpid\<close> succeed, what \<open>open\<close> returns in
  the child, and what happens when a command is executed: \<open>execv\<close> fails, or the program runs,
  writes something to its standard output and ends. The functions are modelled as the parent
  sees them; the child's part is a function of its own whose result is how the child ends.
\<close>

type_synonym command = "string list"

datatype ending = Exit nat | Killed nat

record os =
  fork_ok :: bool
  waitpid_ok :: bool
  execs :: "command \<Rightarrow> (ending \<times> bytes) option"
  open_fd :: int
  dup2_ok :: bool

type_synonym files = "string \<Rightarrow> bytes option"

subsection \<open>The status word of wait\<close>

text \<open>The low seven bits hold the signal, 0 for an exit, whose code is in bits 8 to 15.\<close>

definition wait_status :: "ending \<Rightarrow> nat" where
  "wait_status e = (case e of Exit c \<Rightarrow> 256 * (c mod 256) | Killed sig \<Rightarrow> sig)"

definition WIFEXITED :: "nat \<Rightarrow> bool" where "WIFEXITED status \<longleftrightarrow> status mod 128 = 0"
definition WEXITSTATUS :: "nat \<Rightarrow> nat" where "WEXITSTATUS status = status div 256 mod 256"

definition valid_ending :: "ending \<Rightarrow> bool" where
  "valid_ending e \<longleftrightarrow> (case e of Exit c \<Rightarrow> True | Killed sig \<Rightarrow> 0 < sig \<and> sig < 127)"

subsection \<open>The functions\<close>

definition do_system :: "string option \<Rightarrow> (string \<Rightarrow> int) \<Rightarrow> bool" where
  "do_system cmd sys =
     (case cmd of None \<Rightarrow> False
      | Some c \<Rightarrow> let result = sys c in if result = - 1 then False else True)"

text \<open>The child: a failed \<open>execv\<close> returns and the child exits with 1.\<close>

definition exec_child :: "os \<Rightarrow> command \<Rightarrow> ending" where
  "exec_child os command = (case execs os command of None \<Rightarrow> Exit 1 | Some (e, out) \<Rightarrow> e)"

text \<open>What the parent makes of the child's status.\<close>

definition parent_wait :: "os \<Rightarrow> nat \<Rightarrow> bool" where
  "parent_wait os status =
     (if \<not> waitpid_ok os then False
      else if WIFEXITED status then (if WEXITSTATUS status \<noteq> 0 then False else True)
      else False)"

definition do_exec :: "os \<Rightarrow> command \<Rightarrow> bool" where
  "do_exec os command =
     (if fork_ok os then parent_wait os (wait_status (exec_child os command)) else False)"

text \<open>
  The child of \<open>do_exec_redirect\<close>: \<open>open\<close> truncates or creates the file; its result is not checked
  but \<open>dup2\<close> of a bad descriptor fails. \<open>close(fd)\<close> closes the standard output if \<open>fd\<close> is 1.
\<close>

definition redirect_child :: "os \<Rightarrow> string \<Rightarrow> command \<Rightarrow> files \<Rightarrow> ending \<times> files" where
  "redirect_child os outputfile command fs =
     (let fd = open_fd os;
          fs1 = (if fd < 0 then fs else fs(outputfile \<mapsto> []))
      in if fd < 0 \<or> \<not> dup2_ok os then (Exit 1, fs1)
         else
           case execs os command of
             None \<Rightarrow> (Exit 1, fs1)
           | Some (e, out) \<Rightarrow> (e, if fd = 1 then fs1 else fs1(outputfile \<mapsto> out)))"

definition do_exec_redirect :: "os \<Rightarrow> string \<Rightarrow> command \<Rightarrow> files \<Rightarrow> bool \<times> files" where
  "do_exec_redirect os outputfile command fs =
     (if fork_ok os then
        (case redirect_child os outputfile command fs of
           (e, fs1) \<Rightarrow> (parent_wait os (wait_status e), fs1))
      else (False, fs))"

subsection \<open>What the results mean\<close>

lemma status_exit: "WIFEXITED (wait_status (Exit c))" "WEXITSTATUS (wait_status (Exit c)) = c mod 256"
  by (simp_all add: WIFEXITED_def WEXITSTATUS_def wait_status_def mod_mult_right_eq)

lemma status_killed: "valid_ending (Killed sig) \<Longrightarrow> \<not> WIFEXITED (wait_status (Killed sig))"
  by (simp add: WIFEXITED_def wait_status_def valid_ending_def)

lemma parent_wait_iff:
  "valid_ending e \<Longrightarrow> parent_wait os (wait_status e) \<longleftrightarrow>
     waitpid_ok os \<and> (\<exists>c. e = Exit c \<and> c mod 256 = 0)"
  by (cases e) (auto simp: parent_wait_def status_exit status_killed)

text \<open>
  C28. \<open>do_exec\<close> returns true exactly when the fork and the wait succeed, \<open>execv\<close> succeeds and
  the program exits with status 0 (of which the system keeps the low eight bits); it returns
  false for a program that cannot be executed or is killed by a signal.
\<close>

theorem do_exec_correct:
  assumes "\<And>e out. execs os command = Some (e, out) \<Longrightarrow> valid_ending e"
  shows "do_exec os command \<longleftrightarrow> fork_ok os \<and> waitpid_ok os \<and>
    (\<exists>c out. execs os command = Some (Exit c, out) \<and> c mod 256 = 0)"
proof (cases "execs os command")
  case None
  then show ?thesis by (simp add: do_exec_def exec_child_def parent_wait_def status_exit)
next
  case (Some eo)
  obtain e out where "eo = (e, out)" by fastforce
  with Some assms [of e out] parent_wait_iff [of e os] show ?thesis
    by (auto simp: do_exec_def exec_child_def)
qed

theorem do_exec_correct_witness:
  "do_exec \<lparr>fork_ok = True, waitpid_ok = True, execs = (\<lambda>_. Some (Exit 0, [])), open_fd = 3, dup2_ok = True\<rparr>
     [''/bin/true''] \<and>
   \<not> do_exec \<lparr>fork_ok = True, waitpid_ok = True, execs = (\<lambda>_. Some (Killed 9, [])), open_fd = 3, dup2_ok = True\<rparr>
     [''/bin/true'']"
  using do_exec_correct [of "\<lparr>fork_ok = True, waitpid_ok = True, execs = (\<lambda>_. Some (Exit 0, [])), open_fd = 3, dup2_ok = True\<rparr>"
      "[''/bin/true'']"]
    do_exec_correct [of "\<lparr>fork_ok = True, waitpid_ok = True, execs = (\<lambda>_. Some (Killed 9, [])), open_fd = 3, dup2_ok = True\<rparr>"
      "[''/bin/true'']"]
  by (simp add: valid_ending_def)

text \<open>
  C29. When \<open>do_exec_redirect\<close> returns true and the descriptor of the output file is not 1, the
  file holds exactly what the program wrote to its standard output; no other file has changed,
  whatever it returns.
\<close>

theorem do_exec_redirect_correct:
  assumes "\<And>e out. execs os command = Some (e, out) \<Longrightarrow> valid_ending e"
    and "do_exec_redirect os outputfile command fs = (result, fs')"
  shows "(result \<longrightarrow> (\<exists>c out. execs os command = Some (Exit c, out) \<and> c mod 256 = 0 \<and>
      (open_fd os \<noteq> 1 \<longrightarrow> fs' outputfile = Some out))) \<and>
    (\<forall>name. name \<noteq> outputfile \<longrightarrow> fs' name = fs name)"
proof (cases "execs os command")
  case None
  with assms(2) show ?thesis
    by (auto simp: do_exec_redirect_def redirect_child_def Let_def parent_wait_def status_exit split: if_splits)
next
  case (Some eo)
  obtain e out where eo: "eo = (e, out)" by fastforce
  with Some assms(1) have "valid_ending e" by simp
  with Some eo assms(2) parent_wait_iff [of e os] show ?thesis
    by (auto simp: do_exec_redirect_def redirect_child_def Let_def parent_wait_def status_exit split: if_splits)
qed

theorem do_exec_redirect_correct_witness:
  "\<exists>fs'. do_exec_redirect \<lparr>fork_ok = True, waitpid_ok = True, execs = (\<lambda>_. Some (Exit 0, ''hi'')), open_fd = 3, dup2_ok = True\<rparr>
     ''f'' [''/bin/echo'', ''hi''] (\<lambda>_. None) = (True, fs') \<and> fs' ''f'' = Some ''hi''"
proof -
  let ?os = "\<lparr>fork_ok = True, waitpid_ok = True, execs = (\<lambda>_. Some (Exit 0, ''hi'')), open_fd = 3, dup2_ok = True\<rparr>"
  obtain r fs' where run: "do_exec_redirect ?os ''f'' [''/bin/echo'', ''hi''] (\<lambda>_. None) = (r, fs')" by fastforce
  then have "r" by (simp add: do_exec_redirect_def redirect_child_def parent_wait_def status_exit)
  with do_exec_redirect_correct [OF _ run] run show ?thesis by (simp add: valid_ending_def)
qed

text \<open>
  \<open>do_system\<close> reports success for every command that \<open>system\<close> could start, whatever status
  the command ended with: only a missing command or \<open>-1\<close> count as failures, where the comment of
  the function promises false also for a non-zero return value of the command.
\<close>

lemma do_system_ignores_status:
  "do_system (Some c) (\<lambda>_. int (wait_status (Exit n))) \<and> \<not> do_system None sys \<and> \<not> do_system (Some c) (\<lambda>_. - 1)"
  by (simp add: do_system_def Let_def)

end
