(* ===== verification/Threading.thy ===== *)
theory Threading
  imports CMemory
begin

text \<open>
  A thread that holds a mutex for a while: \<^verbatim>\<open>examples/threading/threading.c\<close>.

  The results of \<open>pthread_create\<close>, \<open>pthread_mutex_lock\<close> and \<open>pthread_mutex_unlock\<close> are arguments.
  What the thread does is a trace of actions. The milliseconds are \<open>int\<close>, and multiplying them by
  1000 overflows, which is undefined, beyond 2147483.
\<close>

record thread_data =
  wait_to_obtain_ms :: int
  wait_to_release_ms :: int
  thread_complete_success :: bool

datatype action = Sleep int | Lock | Unlock

definition sizeof_thread_data :: size_t where "sizeof_thread_data = 24"

definition ms_to_us :: "int \<Rightarrow> int res" where
  "ms_to_us ms = (if - (2 ^ 31) \<le> ms * 1000 \<and> ms * 1000 < 2 ^ 31 then Inr (ms * 1000) else Inl IntOverflow)"

definition threadfunc :: "int \<Rightarrow> int \<Rightarrow> thread_data \<Rightarrow> (thread_data \<times> action list) res" where
  "threadfunc lock_ret unlock_ret td =
     andthen (ms_to_us (wait_to_obtain_ms td)) (\<lambda>us1.
     if lock_ret \<noteq> 0 then Inr (td\<lparr>thread_complete_success := False\<rparr>, [Sleep us1])
     else
       andthen (ms_to_us (wait_to_release_ms td)) (\<lambda>us2.
       if unlock_ret \<noteq> 0 then Inr (td\<lparr>thread_complete_success := False\<rparr>, [Sleep us1, Lock, Sleep us2])
       else Inr (td\<lparr>thread_complete_success := True\<rparr>, [Sleep us1, Lock, Sleep us2, Unlock])))"

text \<open>The result, the structure handed to the new thread with its address, and the heap.\<close>

definition start_thread_obtaining_mutex ::
    "bool \<Rightarrow> bool \<Rightarrow> int \<Rightarrow> int \<Rightarrow> int \<Rightarrow> heap \<Rightarrow> (bool \<times> (nat \<times> thread_data) option \<times> heap) res" where
  "start_thread_obtaining_mutex thread_null mutex_null obtain_ms release_ms create_ret h =
     (if thread_null \<or> mutex_null then Inr (False, None, h)
      else
        case malloc sizeof_thread_data h of
          (NULL, h1) \<Rightarrow> Inr (False, None, h1)
        | (Ptr a, h1) \<Rightarrow>
            let td = \<lparr>wait_to_obtain_ms = obtain_ms, wait_to_release_ms = release_ms,
                      thread_complete_success = False\<rparr> in
            if create_ret \<noteq> 0 then andthen (free (Ptr a) h1) (\<lambda>h2. Inr (False, None, h2))
            else Inr (True, Some (a, td), h1))"

text \<open>
  C30. Starting a thread never faults; it allocates exactly the structure it hands to the thread
  when it returns true, with the waits it was given and not yet successful, and leaves memory as
  it was when it returns false, also when the thread could not be created.
\<close>

theorem start_thread_correct:
  assumes "heap_ok h"
  shows "\<exists>ok td h'. start_thread_obtaining_mutex tn mn o_ms r_ms create_ret h = Inr (ok, td, h') \<and> heap_ok h' \<and>
    (if ok then create_ret = 0 \<and> (\<exists>a. td = Some (a, \<lparr>wait_to_obtain_ms = o_ms, wait_to_release_ms = r_ms,
        thread_complete_success = False\<rparr>) \<and> blocks h a = None \<and> blocks h' |` (- {a}) = blocks h \<and>
        a \<in> dom (blocks h'))
     else td = None \<and> blocks h' = blocks h)"
proof (cases "tn \<or> mn")
  case True
  with assms show ?thesis by (auto simp: start_thread_obtaining_mutex_def)
next
  case False
  obtain p h1 where al: "kmalloc sizeof_thread_data h = (p, h1)" by fastforce
  show ?thesis
  proof (cases p)
    case NULL
    with al kmalloc_NULL [of sizeof_thread_data h h1] assms False show ?thesis
      by (auto simp: start_thread_obtaining_mutex_def malloc_eq)
  next
    case (Ptr a)
    from kmalloc_Ptr [OF al [unfolded Ptr] assms] obtain bs where
      k: "heap_ok h1" "blocks h a = None" "blocks h1 = (blocks h)(a \<mapsto> bs)" by auto
    have "blocks h1 a = Some bs" using k(3) by simp
    from kfree_Ptr [OF k(1) this] obtain h2 where h2: "kfree (Ptr a) h1 = Inr h2" "heap_ok h2"
      "blocks h2 = (blocks h1)(a := None)" by auto
    have "(blocks h1)(a := None) = blocks h" "blocks h1 |` (- {a}) = blocks h"
      using k(2,3) by (auto simp: restrict_map_def)
    with al Ptr False k h2 show ?thesis
      by (cases "create_ret = 0") (auto simp: start_thread_obtaining_mutex_def malloc_eq free_eq Let_def)
  qed
qed

theorem start_thread_correct_witness:
  "\<exists>h'. start_thread_obtaining_mutex True False 1 2 0 (empty_heap (\<lambda>_. True)) = Inr (False, None, h') \<and>
    blocks h' = Map.empty"
  using start_thread_correct [OF heap_ok_empty, of True False 1 2 0]
  by (auto simp: start_thread_obtaining_mutex_def empty_heap_def)

text \<open>
  C31. For waits from 0 to 2147483 milliseconds the thread function does not overflow: it sleeps,
  locks, sleeps and unlocks in this order for the given times, marks success exactly when both
  mutex calls succeed, and never unlocks a mutex it has not locked.
\<close>

theorem threadfunc_correct:
  assumes "0 \<le> wait_to_obtain_ms td" "wait_to_obtain_ms td \<le> 2147483"
    and "0 \<le> wait_to_release_ms td" "wait_to_release_ms td \<le> 2147483"
  shows "\<exists>trace. threadfunc lock_ret unlock_ret td =
      Inr (td\<lparr>thread_complete_success := (lock_ret = 0 \<and> unlock_ret = 0)\<rparr>, trace) \<and>
    trace = take (if lock_ret \<noteq> 0 then 1 else if unlock_ret \<noteq> 0 then 3 else 4)
      [Sleep (1000 * wait_to_obtain_ms td), Lock, Sleep (1000 * wait_to_release_ms td), Unlock]"
  using assms by (simp add: threadfunc_def ms_to_us_def)

theorem threadfunc_correct_witness:
  "\<exists>td' trace. threadfunc 0 0 \<lparr>wait_to_obtain_ms = 5, wait_to_release_ms = 7, thread_complete_success = False\<rparr> =
     Inr (td', trace) \<and> thread_complete_success td' \<and> trace = [Sleep 5000, Lock, Sleep 7000, Unlock]"
  using threadfunc_correct [of "\<lparr>wait_to_obtain_ms = 5, wait_to_release_ms = 7, thread_complete_success = False\<rparr>" 0 0]
  by auto

end
