(* ===== verification/Writer.thy ===== *)
theory Writer
  imports Prelude
begin

text \<open>
  The program that writes a string to a file, \<^verbatim>\<open>finder-app/writer.c\<close>. The file system is a map
  from names to contents. Whether \<open>fopen\<close> and \<open>fprintf\<close> succeed, and whether the bytes the stream
  holds back reach the file when \<open>fclose\<close> writes them, are arguments.
\<close>

record stdio_env =
  fopen_ok :: bool
  fprintf_ok :: bool
  flush_ok :: bool

text \<open>The exit status and the log: messages with their priority.\<close>

datatype message = LogErr string "string option" | LogDebug string string

definition log_and_exit :: "string \<Rightarrow> string option \<Rightarrow> int \<Rightarrow> int \<times> message list" where
  "log_and_exit msg filename exit_code =
     (exit_code, [LogErr (if filename = None then ''%s'' else msg) filename])"

text \<open>\<open>%s\<close> between apostrophes, as the format strings have it.\<close>

definition quoted :: string where
  "quoted = [CHR 0x27] @ ''%s'' @ [CHR 0x27]"

definition writer_main ::
    "string list \<Rightarrow> stdio_env \<Rightarrow> (string \<Rightarrow> bytes option) \<Rightarrow> (int \<times> message list) \<times> (string \<Rightarrow> bytes option)" where
  "writer_main argv env fs =
     (if length argv \<noteq> 3 then
        ((1, [LogErr ''Invalid number of arguments: expected 2, got %d'' None]), fs)
      else
        let filename = argv ! 1; text = argv ! 2 in
        if \<not> fopen_ok env then
          (log_and_exit (''Failed to open file '' @ quoted @ '' for writing'') (Some filename) 1, fs)
        else
          let fs1 = fs(filename \<mapsto> []) in
          if \<not> fprintf_ok env then
            (log_and_exit (''Failed to write to file '' @ quoted) (Some filename) 1, fs1)
          else
            ((0, [LogDebug text filename]), if flush_ok env then fs1(filename \<mapsto> text) else fs1))"

text \<open>
  The writer exits with 0 exactly when it has two arguments and opening and printing
  succeed; then, if the stream's bytes reach the file, which the program does not check, the file holds
  exactly the string. No other file changes, and without two arguments or when the file cannot be opened nothing does.
\<close>

lemma writer_correct:
  assumes "writer_main argv env fs = ((status, msgs), fs')"
  shows "(status = 0 \<longleftrightarrow> length argv = 3 \<and> fopen_ok env \<and> fprintf_ok env) \<and>
    (status = 0 \<and> flush_ok env \<longrightarrow> fs' (argv ! 1) = Some (argv ! 2)) \<and>
    (\<forall>name. name \<noteq> argv ! 1 \<longrightarrow> fs' name = fs name) \<and>
    (length argv \<noteq> 3 \<or> \<not> fopen_ok env \<longrightarrow> fs' = fs)"
  using assms by (auto simp: writer_main_def log_and_exit_def Let_def split: if_splits)

end
