(* ===== verification/Autotest.thy ===== *)
theory Autotest
  imports CMemory
begin

text \<open>
  The functions of \<^verbatim>\<open>examples/autotest-validate\<close> and the unit test of
  \<^verbatim>\<open>student-test/assignment1/Test_validate_username.c\<close>. The function that reads the user name from
  \<^verbatim>\<open>conf/username.txt\<close> belongs to a submodule and the assertion to the Unity framework: they are the
  parameters \<open>malloc_username_from_conf_file\<close> and \<open>assert_equal_string\<close>. A failed assertion leaves the test
  function at once.
\<close>

definition this_function_returns_true :: bool where
  "this_function_returns_true = True"

definition this_function_returns_false :: bool where
  "this_function_returns_false = False"

definition my_username :: string where
  "my_username = ''FilipOwsiany''"

text \<open>What \<^verbatim>\<open>autotest-validate-main.c\<close> prints, and its exit status.\<close>

definition autotest_main :: "string list \<times> int" where
  "autotest_main =
     ([''this_function_returns_true returned '' @ (if this_function_returns_true then ''true'' else ''false'') @ [newline],
       ''this_function_returns_false returned '' @ (if this_function_returns_false then ''true'' else ''false'') @ [newline]], 0)"

text \<open>A string in a block of the heap, up to its null character.\<close>

definition load_string :: "ptr \<Rightarrow> heap \<Rightarrow> string res" where
  "load_string p h =
     (case p of NULL \<Rightarrow> Inl NullDeref
      | Ptr a \<Rightarrow> (case blocks h a of None \<Rightarrow> Inl UseAfterFree
          | Some bs \<Rightarrow> if nul \<in> set bs then Inr (takeWhile (\<lambda>c. c \<noteq> nul) bs) else Inl OutOfBounds))"

definition test_validate_my_username ::
    "(string \<Rightarrow> string \<Rightarrow> bool) \<Rightarrow> (heap \<Rightarrow> ptr \<times> heap) \<Rightarrow> heap \<Rightarrow> (bool \<times> heap) res" where
  "test_validate_my_username assert_equal_string malloc_username_from_conf_file h =
     (case malloc_username_from_conf_file h of (username_from_conf_file, h1) \<Rightarrow>
        andthen (load_string username_from_conf_file h1) (\<lambda>name.
        if assert_equal_string my_username name then
          andthen (free username_from_conf_file h1) (\<lambda>h2. Inr (True, h2))
        else Inr (False, h1)))"

text \<open>
  With a reader of the file that returns a new block with the name, and an assertion that compares,
  the test passes exactly when the file holds the hard-coded name, and then leaves memory as it was; a
  failed test leaves the block behind.
\<close>

lemma username_test:
  assumes "read_conf h = (Ptr a, h1)" "heap_ok h1" "blocks h a = None" "blocks h1 = (blocks h)(a \<mapsto> name @ [nul])"
    and "nul \<notin> set name" "\<And>x y. assert_eq x y \<longleftrightarrow> x = y"
  shows "\<exists>h'. test_validate_my_username assert_eq read_conf h = Inr (name = my_username, h') \<and>
    blocks h' = (if name = my_username then blocks h else (blocks h)(a \<mapsto> name @ [nul]))"
proof -
  have "load_string (Ptr a) h1 = Inr name" using assms(4,5) by (simp add: load_string_def takeWhile_append)
  moreover from kfree_Ptr [OF assms(2), of a "name @ [nul]"] assms(4) obtain h2 where
    "kfree (Ptr a) h1 = Inr h2" "blocks h2 = (blocks h1)(a := None)" by auto
  moreover have "(blocks h)(a := None) = blocks h" using assms(3) by auto
  ultimately show ?thesis using assms(1,4,6) by (auto simp: test_validate_my_username_def free_def)
qed

lemma autotest_output:
  "autotest_main = ([''this_function_returns_true returned true'' @ [newline],
     ''this_function_returns_false returned false'' @ [newline]], 0)"
  by (simp add: autotest_main_def this_function_returns_true_def this_function_returns_false_def)

end
