(* ===== verification/Spec2Isabelle.thy ===== *)
theory Spec2Isabelle
  imports Device_Sessions Concurrent_Reads Server_Connections Double_Close File_Server Server_Exit Signals Buffer_Packet
    Server_Main Ioctl_Test System_Calls Threading Writer Autotest
begin

text \<open>
  A verification of the AESD character driver, the socket server in front of it, and the small
  programs beside them. Paths are those of the repository.

  \<^bold>\<open>The program.\<close> The kernel module \<^verbatim>\<open>aesd-char-driver/main.c\<close> offers a device that keeps the
  last ten lines written to it. A write collects bytes in a temporary buffer
  (\<^verbatim>\<open>aesd_temperaty_buffer.c\<close>) until a newline completes an entry, which goes into a circular buffer
  (\<^verbatim>\<open>aesd_circular_buffer.c\<close>); reads address the concatenation of the entries; an ioctl seeks to a
  byte of an entry. The server \<^verbatim>\<open>server/src/aesdsocket.c\<close> starts a thread per connection, collects
  received bytes in its own copy of the temporary buffer, stores a complete line in the device,
  or executes a seek command, and sends the device's contents back. It stops on a signal by
  writing one byte per thread into a pipe and joining the threads. Built without the device it
  keeps the lines in a file and has a further thread that writes the time into that file. The
  repository also has a test program for the ioctl, two library exercises (\<^verbatim>\<open>examples/systemcalls\<close>,
  \<^verbatim>\<open>examples/threading\<close>), a program that writes a file (\<^verbatim>\<open>finder-app/writer.c\<close>) and a check of the
  test set-up (\<^verbatim>\<open>examples/autotest-validate\<close>).

  \<^bold>\<open>The theories\<close>, in the order of their imports:
  \<^item> \<^verbatim>\<open>Prelude\<close>: machine types, undefined behaviour as a value (\<open>fault\<close>, \<open>andthen\<close>), lemmas on lists.
  \<^item> \<^verbatim>\<open>CMemory\<close>: the block heap, the allocators of kernel and C library with an arbitrary pattern of
    refusals, \<open>memcpy\<close>, and the wrappers of \<^verbatim>\<open>common.c\<close>.
  \<^item> \<^verbatim>\<open>Temperary_Buffer\<close>: the driver's temporary buffer; the locale \<open>accumulator\<close> is what driver and
    server rely on, interpreted as \<open>kbuf\<close> here and as \<open>ubuf\<close> in \<^verbatim>\<open>Server_Buffer\<close> on the server's copy.
  \<^item> \<^verbatim>\<open>Circular_Buffer\<close>: the circular buffer. \<open>circ_ok\<close> is its invariant under any refusals,
    \<open>contents\<close> its abstraction to a list of strings, \<open>log_push\<close> and \<open>locate\<close> the abstract operations;
    the locale \<open>message_index\<close> is what a reader relies on, interpreted as \<open>cindex\<close>. The macro
    \<open>AESD_CIRCULAR_BUFFER_FOREACH\<close>, used as its comment says, is shown to be the cleanup function.
  \<^item> \<^verbatim>\<open>Ioctl\<close>: the three copies of \<^verbatim>\<open>aesd_ioctl.h\<close>.
  \<^item> \<^verbatim>\<open>Driver\<close>: \<^verbatim>\<open>main.c\<close>. \<open>aesd_write\<close>, \<open>aesd_read\<close>, \<open>aesd_llseek\<close>, \<open>aesd_ioctl\<close>, \<open>aesd_open\<close>,
    \<open>aesd_release\<close>, \<open>aesd_init_module\<close>, \<open>aesd_cleanup_module\<close> bear the names of the functions they
    model. \<open>dev_ok\<close> is the device invariant with the ownership of blocks, \<open>spec_write\<close> the abstract
    device, \<open>module_run\<close> the states of a loaded module.
  \<^item> \<^verbatim>\<open>Device_Log\<close>: the seek ioctl and the movement of the ring as seen from outside.
  \<^item> \<^verbatim>\<open>Simulation\<close>: runs of fault-returning and of abstract state machines, with the locales
    \<open>safe_steps\<close> (a step that keeps an invariant) and \<open>forward_simulation\<close> (a step that follows an
    abstract one while a budget lasts) and what they give for whole runs.
  \<^item> \<^verbatim>\<open>Device_Sessions\<close>: any sequence of system calls on any number of open files, dispatched through
    \<open>aesd_fops\<close>, for any choice of the positions and counts that the kernel refuses itself (\<open>area\<close>);
    \<open>spec_handle\<close> is the abstract device. Interpretations \<open>requests\<close> and \<open>device\<close>.
  \<^item> \<^verbatim>\<open>Concurrent_Writes\<close>: \<open>aesd_write\<close> cut at its calls, so that writers interleave; the pieces of
    one writer are proved to be \<open>aesd_write\<close>.
  \<^item> \<^verbatim>\<open>Concurrent_Reads\<close>: \<open>aesd_read\<close> cut at its accesses, readers and writers in any order;
    readers alone do not interfere, and no piece of a writer hands a freed address out again.
  \<^item> \<^verbatim>\<open>Device_File\<close>: system calls and streams over the driver; the locales \<open>byte_source\<close> and
    \<open>line_device\<close>, interpreted on the driver as \<open>kdev\<close>.
  \<^item> \<^verbatim>\<open>Seek_Command\<close>: the string checks of the server and the C string functions they use.
  \<^item> \<^verbatim>\<open>Client_Handler\<close>: the thread of one connection. What both builds share takes what the
    preprocessor selects as arguments (\<open>locked_section\<close>, \<open>client_turn\<close>); \<open>clientHandler_turn\<close> is the device build.
  \<^item> \<^verbatim>\<open>Connections\<close>: all connections over one heap, one table of descriptors, one mutex and one store. The
    main thread accepts (\<open>accept_step\<close>); a client thread receives (\<open>recv_step\<close>, with the first \<open>close\<close> of a
    connection), cleans up (\<open>leave_step\<close>, with the second), locks (\<open>lock_step\<close>) and serves (\<open>serve_step\<close>),
    interleaved with the others and with what others do to the store; \<open>spec_server\<close> is the abstract
    server, in which the mutex is exclusive and a waiting thread can always be served.
  \<^item> \<^verbatim>\<open>Ownership\<close>: which blocks of the server's heap belong to which connection (\<open>held\<close>), and how the
    steps change that; the receive buffers that a thread loses when it has nothing to receive.
  \<^item> \<^verbatim>\<open>Packet_Service\<close>: the locale \<open>packet_service\<close> holds what the threads rely on, and in it they are
    proved to implement the abstract server; a \<open>sublocale\<close> makes it a \<open>forward_simulation\<close>.
  \<^item> \<^verbatim>\<open>Double_Close\<close>: the two orders of the second \<open>close\<close> and the next connection.
  \<^item> \<^verbatim>\<open>Server_Connections\<close>: its interpretation \<open>chardev\<close> on the character device, with seek commands, and
    with other processes that write to the device while the mutex is free.
  \<^item> \<^verbatim>\<open>File_Server\<close>: the build without the device; its interpretation \<open>vartmp\<close> on a regular file, with
    the timestamp thread.
  \<^item> \<^verbatim>\<open>Server_Main\<close>: start-up, accept loop and shutdown as an interleaving of main with client threads
    that poll, wait for the mutex, hold it, or have ended.
  \<^item> \<^verbatim>\<open>Signals\<close>: the registration of the signal handlers and the delivery of a signal.
  \<^item> \<^verbatim>\<open>Server_Exit\<close>: \<open>cleanupMain\<close> run by any thread through \<open>logAndExit\<close>, interleaved with the others
    (\<open>main_moves\<close>, \<open>thread_moves\<close>).
  \<^item> \<^verbatim>\<open>Timestamp\<close>: \<open>timestampWriterHandler\<close>, compiled when the device is not used, and the part of \<open>cleanupMain\<close>
    that stops and joins it.
  \<^item> \<^verbatim>\<open>Buffer_Packet\<close>: the \<open>bufferPacket\<close> functions.
  \<^item> \<^verbatim>\<open>Ioctl_Test\<close>, \<^verbatim>\<open>System_Calls\<close>, \<^verbatim>\<open>Threading\<close>, \<^verbatim>\<open>Writer\<close>, \<^verbatim>\<open>Autotest\<close>: the other programs.

  \<^bold>\<open>What is shown.\<close> The driver never faults, leaks or frees twice under any arguments and any
  refused allocations, over its whole life from load to removal (C1, C4, C6); with memory it
  implements the abstract log, from single operations to whole sequences of writes and reads (C2,
  C3, C5, C7, C9 and, for the buffers, C16, C18 to C20). The server stores every line that it receives
  whole in one \<open>recv\<close>, whatever the streams do, answers with the log, gives everything back when the
  connection ends (C10), and answers every well-formed seek command as the driver decides (C11); the parser
  takes what it should and nothing else (C22, C23). The shutdown by the main thread ends under every
  interleaving with threads that may wait for the mutex, and only with all of them ended (C14). Under any
  number of open files the driver is type safe and, with memory, is the abstract device for every sequence
  of system calls (C33, C34); readers without a writer among them are each served as if alone (C21). In
  either build the server is the abstract server for every interleaving of its main thread and its
  connections, accepted and ended at any time, with other writers of the device and with the timestamp
  thread (C37, C38), under the assumptions on schedules listed below; the timestamp thread writes one line
  per timeout and can be stopped (C40). The other programs do what their comments say (C27 to C31). Where the
  code does something else than it means to, a theorem says what it does: the bound check of the ioctl
  (C8), the lost entry and the false success when memory is short (C17, C25), the failed load (C26), the
  missed newline (C12), the failed \<open>recv\<close> (C13), the thread array (C15), the unterminated command (C24), the
  descriptor closed twice (C32), writers, and a reader and a writer, that are in the driver together (C35,
  C36), the exit of a thread that holds the mutex (C39); and, as a lemma, the ignored exit status
  (\<open>do_system_ignores_status\<close>).

  \<^bold>\<open>Bounds and fuel.\<close> Loops of the code that end are functions with a proved measure. The clients
  that read until the end of the file (\<open>read_all\<close>, \<open>send_loop\<close>, \<open>test_read_loop\<close>) take fuel; one unit
  more than the bytes in the device is enough, as each round takes at least one byte, and the
  theorems show that the loops then return. \<open>clientHandler\<close> runs over the list of turns it is given,
  \<open>timestampWriterHandler\<close> over the list of events. \<open>writer_run\<close> has at most seven pieces
  to run, \<open>reader_run\<close> four. \<open>enough\<close> says what memory and fuel a schedule of the server needs: a few
  times what it can receive, so that it holds for any schedule once memory is large enough.
  \<open>PTRDIFF_MAX\<close> bounds the memory of a heap; the hypotheses on \<open>used\<close> say that there is room.

  \<^bold>\<open>Left out.\<close> Printing and logging, except that the debug print of the position lookup
  dereferences its argument. Of concurrent calls of the driver readers and writers are interleaved
  inside their handlers; of runs with a writer among others something is claimed only until one of
  them faults, since the code takes no lock. The other handlers are one step. The section of the server under
  its mutex, once locked, is one step of \<open>Connections\<close>: no other thread of the server can enter it, and of
  the rest of what they do nothing depends on it; but other processes can, and so C37 assumes that they write
  to the device only while the mutex is free, which nothing in the code ensures (C35, C36 show what happens
  otherwise). Also assumed in C37 and C38: \<open>accept\<close> does not return a descriptor that a thread is about to
  close a second time (C32 shows what happens otherwise); what starts like a seek command is a well-formed one
  (C24); \<open>recv\<close> does not fail (C13); \<open>fopen\<close> succeeds in client threads, and memory is as large as
  \<open>enough\<close> asks for, because otherwise the code has undefined behaviour or ends the process; \<open>pthread_create\<close>
  succeeds. A refused seek is in the schedules up to the call of \<open>logAndExit\<close>; what follows is in
  \<open>Server_Exit\<close>, which keeps of a thread where it is, not its data. \<open>send\<close> is taken to deliver all its bytes:
  the code looks neither at its result nor keeps \<open>SIGPIPE\<close> from ending the process when the peer is gone.
  After a failed \<open>write\<close> a stream gives up the rest. The string functions of the C library read byte by byte
  (\<open>Seek_Command\<close>).

  \<^bold>\<open>Not modelled.\<close> Shell scripts and makefiles, which hold no C code; the layout of header files; the
  socket calls of the start-up beyond their success or failure, which the kernel implements.
\<close>

section \<open>The device as a whole\<close>

text \<open>
  C1. Whatever the user passes and whichever allocations are refused, a write to a well-formed
  device runs without undefined behaviour (no null dereference, no access outside a block, no
  use after free, no double free), leaves a well-formed device, and neither touches nor leaks
  memory: outside the blocks the device owns the heap is exactly what it was.
\<close>

theorem device_write_safe:
  assumes "heap_ok h" "dev_ok d h" "private_data f"
  shows "\<exists>ret d' h'. aesd_write d f user n h = Inr (ret, d', h') \<and> heap_ok h' \<and> dev_ok d' h' \<and>
    blocks h' |` (- dev_fp d') = blocks h |` (- dev_fp d)"
proof -
  from aesd_write_spec [OF assms] obtain ret d' h' where
    "aesd_write d f user n h = Inr (ret, d', h')" "write_post d h user n ret d' h'" by blast
  then show ?thesis by (auto simp: write_post_def dev_step_def)
qed

theorem device_write_safe_witness:
  "dev_ok (aesd_device loaded_module) loaded_heap \<and>
   (\<exists>ret d' h'. aesd_write (aesd_device loaded_module) opened [CHR ''a'', newline] 2 loaded_heap = Inr (ret, d', h') \<and>
     heap_ok h' \<and> dev_ok d' h' \<and>
     blocks h' |` (- dev_fp d') = blocks loaded_heap |` (- dev_fp (aesd_device loaded_module)))"
  using device_write_safe [OF loaded_ok(1,2) opened_private, of "[CHR ''a'', newline]" 2] loaded_ok(2)
  by simp

text \<open>
  C2. When no allocation is refused, a write of \<open>n\<close> readable bytes to a device without holes
  returns \<open>n\<close>. If the bytes contain a newline, the pending bytes followed by them become the
  newest entry of the log, the oldest of ten entries being dropped; otherwise they are appended
  to the pending bytes and the log stays as it is.
\<close>

theorem device_write_functional:
  assumes "heap_ok h" "dev_ok d h" "private_data f" "healthy d" "unat n \<le> length user"
    and "\<forall>k. grant h k" "used h + length (dev_pending d h) + 3 * unat n \<le> PTRDIFF_MAX"
  shows "\<exists>d' h'. aesd_write d f user n h = Inr (Inr n, d', h') \<and> healthy d' \<and>
    (if newline \<in> set (take (unat n) user)
     then dev_log d' h' = log_push (dev_log d h) (dev_pending d h @ take (unat n) user) \<and>
       dev_pending d' h' = []
     else dev_log d' h' = dev_log d h \<and>
       dev_pending d' h' = dev_pending d h @ take (unat n) user)"
proof -
  from aesd_write_spec [OF assms(1-3)] obtain ret d' h' where
    w: "aesd_write d f user n h = Inr (ret, d', h')" and p: "write_post d h user n ret d' h'" by blast
  have am: "ample h (length (dev_pending d h) + 3 * unat n)" using assms(6,7) by (simp add: ample_def)
  with p assms(5) have ret: "ret = Inr n" by (simp add: write_post_def)
  with p am have "write_effect d h (take (unat n) user) True d' h'" by (auto simp: write_post_def)
  from write_effect_healthy [OF assms(2,4) this] w ret show ?thesis by auto
qed

theorem device_write_functional_witness:
  "\<exists>d' h'. aesd_write (aesd_device loaded_module) opened [CHR ''a'', newline] 2 loaded_heap = Inr (Inr 2, d', h') \<and>
     healthy d' \<and> dev_log d' h' = [[CHR ''a'', newline]] \<and> dev_pending d' h' = []"
  using device_write_functional [OF loaded_ok(1,2) opened_private loaded_ok(7), of 2 "[CHR ''a'', newline]"]
  by (simp add: loaded_ok(8,9) loaded_used PTRDIFF_MAX_def log_push_def)

text \<open>
  C3. From module load to reading back: load the module into any heap, write complete lines
  (each ending an entry with a newline somewhere in it), then read the device from position 0
  with reads of any non-zero size until a read returns 0. Every write returns its full length
  and the reader gets exactly the last ten lines, in order.
\<close>

theorem device_keeps_last_ten_lines:
  assumes "heap_ok h0" "aesd_init_module rr cr m0 h0 = (Inr 0, m, h)" "private_data f"
    and "\<forall>x\<in>set xs. newline \<in> set x" "\<forall>k. grant h k"
    and "used h + 4 * length (concat xs) \<le> PTRDIFF_MAX" "n \<noteq> 0" "length (concat xs) < fuel"
  shows "\<exists>d' h'. write_all (aesd_device m) f xs h = Inr (map (\<lambda>x. Inr (of_nat (length x))) xs, d', h') \<and>
    read_all fuel d' f n 0 h' = Inr (Some (concat (drop (length xs - 10) xs)))"
proof -
  note i = init_module_ok [OF assms(1,2)]
  have "ample h (demand (dev_pending (aesd_device m) h) xs)"
    using assms(5,6) i(9) by (simp add: ample_def demand_def)
  from write_all_spec [OF i(1,2) assms(3) i(7) this] obtain d' h' where
    w: "write_all (aesd_device m) f xs h = Inr (map (\<lambda>x. Inr (of_nat (length x))) xs, d', h')"
      "heap_ok h'" "dev_ok d' h'" "dev_log d' h' = drop (length xs - 10) xs"
    using spec_writes_lines [of xs] assms(4) i(8,9) by (auto simp: dev_step_def)
  have "concat xs = concat (take (length xs - 10) xs) @ concat (drop (length xs - 10) xs)"
    by (metis append_take_drop_id concat_append)
  then have "length (concat (dev_log d' h')) \<le> length (concat xs)"
    unfolding w(4) by (metis length_append le_add2)
  then have "read_all fuel d' f n 0 h' = Inr (Some (concat (dev_log d' h')))"
    using read_all_spec [OF w(2,3) assms(3,7), of 0 fuel] assms(8) by simp
  with w show ?thesis by simp
qed

theorem device_keeps_last_ten_lines_witness:
  "\<exists>d' h'. write_all (aesd_device loaded_module) opened [[CHR ''a'', newline], [newline]] loaded_heap =
      Inr ([Inr 2, Inr 1], d', h') \<and>
    read_all 4 d' opened 512 0 h' = Inr (Some [CHR ''a'', newline, newline])"
  using device_keeps_last_ten_lines [OF heap_ok_empty loaded_init opened_private,
      of "[[CHR ''a'', newline], [newline]]" 512 4]
  by (simp add: loaded_used PTRDIFF_MAX_def)

text \<open>
  C4. A write that reports an error has changed nothing a client can see: the device structure,
  the log and the pending bytes are as before, and the error is \<open>EFAULT\<close> only if the user's
  bytes could not all be read, \<open>ENOMEM\<close> otherwise.
\<close>

theorem device_write_error_unchanged:
  assumes "heap_ok h" "dev_ok d h" "private_data f" "aesd_write d f user n h = Inr (Inl e, d', h')"
  shows "d' = d \<and> dev_log d' h' = dev_log d h \<and> dev_pending d' h' = dev_pending d h \<and>
    (e = ENOMEM \<or> e = EFAULT \<and> length user < unat n)"
  using aesd_write_spec [OF assms(1-3), of user n] assms(4)
  by (auto simp: write_post_def split: if_splits)

theorem device_write_error_unchanged_witness:
  "\<exists>h'. aesd_write (aesd_device loaded_module) opened [] 1 loaded_heap =
      Inr (Inl EFAULT, aesd_device loaded_module, h') \<and>
    dev_log (aesd_device loaded_module) h' = []"
proof -
  obtain ret d' h' where
    w: "aesd_write (aesd_device loaded_module) opened [] 1 loaded_heap = Inr (ret, d', h')"
    and p: "write_post (aesd_device loaded_module) loaded_heap [] 1 ret d' h'"
    using aesd_write_spec [OF loaded_ok(1,2) opened_private] by blast
  have "fst (kmalloc 1 loaded_heap) \<noteq> NULL" using loaded_ample [of 1] by (intro kmalloc_ample) simp
  then obtain a h1 where "kmalloc 1 loaded_heap = (Ptr a, h1)"
    by (cases "kmalloc 1 loaded_heap"; cases "fst (kmalloc 1 loaded_heap)") auto
  with w have "ret = Inl EFAULT"
    by (auto simp: aesd_write_def filp_dev_def andthen_eq_Inr_iff)
  with w device_write_error_unchanged [OF loaded_ok(1,2) opened_private] loaded_ok(8) show ?thesis
    by (metis (no_types))
qed

text \<open>
  C5. A read at position \<open>pos\<close> of a well-formed device runs without undefined behaviour and
  returns the bytes of the entry that \<open>pos\<close> falls into, from \<open>pos\<close> to the end of that entry
  or, if there are more, the first \<open>n\<close> of them, and nothing of the next entry: a prefix of what lies at \<open>pos\<close> in the concatenated log. It advances
  the position by what it returns, and returns 0 exactly at or behind the end of the log or when
  0 bytes are asked for. If the user's buffer cannot take the bytes it returns \<open>EFAULT\<close> and the
  position stays.
\<close>

theorem device_read_functional:
  assumes "heap_ok h" "dev_ok d h" "private_data f"
  shows "\<exists>ys zs. drop (unat pos) (concat (dev_log d h)) = ys @ zs \<and> length ys \<le> unat n \<and>
    (ys = [] \<longleftrightarrow> length (concat (dev_log d h)) \<le> unat pos \<or> n = 0) \<and>
    (\<forall>i k. i < length (dev_log d h) \<and> k < length (dev_log d h ! i) \<and> unat pos = length (concat (take i (dev_log d h))) + k \<longrightarrow>
      ys = take (unat n) (drop k (dev_log d h ! i))) \<and>
    aesd_read d f user_room n pos h =
      (if user_room < length ys then Inr (Inl EFAULT, [], pos)
       else Inr (Inr (of_nat (length ys)), ys, pos + of_nat (length ys)))"
proof -
  let ?ys = "log_read (dev_log d h) (unat pos) (unat n)"
  obtain zs where "drop (unat pos) (concat (dev_log d h)) = ?ys @ zs" by (rule log_read_prefix)
  then show ?thesis
    using aesd_read_spec [OF assms, of user_room n pos] log_read_length(1) [of "dev_log d h" "unat pos" "unat n"]
      log_read_Nil_iff [of "dev_log d h" "unat pos" "unat n"]
    by (intro exI [of _ ?ys] exI [of _ zs]) (auto simp: Let_def unat_eq_zero log_read_def locate_unique)
qed

text \<open>The second byte of the first entry of a full device: the rest of that entry, all of it or one byte.\<close>

theorem device_read_functional_witness:
  "aesd_read wrapped_dev opened 512 512 1 wrapped_heap = Inr (Inr 2, [CHR ''b'', newline], 3) \<and>
   aesd_read wrapped_dev opened 512 1 1 wrapped_heap = Inr (Inr 1, ''b'', 2)"
proof -
  have "aesd_read wrapped_dev opened 512 n 1 wrapped_heap =
      Inr (Inr (of_nat (length ys)), ys, 1 + of_nat (length ys))" if "ys = take (unat n) [CHR ''b'', newline]" for n ys
  proof -
    obtain xs where "\<forall>i k. i < length (dev_log wrapped_dev wrapped_heap) \<and> k < length (dev_log wrapped_dev wrapped_heap ! i) \<and>
          unat (1 :: loff_t) = length (concat (take i (dev_log wrapped_dev wrapped_heap))) + k \<longrightarrow>
          xs = take (unat n) (drop k (dev_log wrapped_dev wrapped_heap ! i))"
      and rd: "aesd_read wrapped_dev opened 512 n 1 wrapped_heap =
        (if 512 < length xs then Inr (Inl EFAULT, [], 1) else Inr (Inr (of_nat (length xs)), xs, 1 + of_nat (length xs)))"
      using device_read_functional [OF wrapped_heap_ok wrapped_dev_ok opened_private, of 1 n 512] by blast
    from this(1) [rule_format, of 0 1] have "xs = ys" using that by (simp add: wrapped_log)
    with rd that show ?thesis by simp
  qed
  from this [of _ 512] this [of _ 1] show ?thesis by simp
qed

text \<open>
  C6. No leak and no double free over the life of the module: after a successful load into any
  heap and any sequence of writes, with any arguments and any pattern of refused allocations,
  removing the module runs without undefined behaviour, unregisters device and region, and
  leaves exactly the blocks that were there before the module was loaded.
\<close>

theorem module_lifetime_no_leak:
  assumes "heap_ok h0" "module_run h0 m h"
  shows "\<exists>m' h'. aesd_cleanup_module m h = Inr (m', h') \<and> heap_ok h' \<and> blocks h' = blocks h0 \<and>
    \<not> region m' \<and> \<not> cdev m'"
proof -
  from module_run_inv [OF assms(2,1)] have "heap_ok h" "dev_ok (aesd_device m) h"
    "blocks h |` (- dev_fp (aesd_device m)) = blocks h0" by auto
  then show ?thesis by (metis cleanup_module_ok)
qed

theorem module_lifetime_no_leak_witness:
  "\<exists>m' h'. aesd_cleanup_module loaded_module loaded_heap = Inr (m', h') \<and> heap_ok h' \<and>
    blocks h' = Map.empty \<and> \<not> region m' \<and> \<not> cdev m'"
  using module_lifetime_no_leak [OF heap_ok_empty module_run.loaded [OF loaded_init]]
  by (simp add: empty_heap_def)

text \<open>
  C7. The seek ioctl before the buffer wraps (\<open>out_offs\<close> still 0): byte \<open>k\<close> of the \<open>c\<close>-th
  entry of the log is accepted exactly when there is such a byte, and then the new file position
  is the one from which the concatenated log continues with that byte; anything else is refused
  with \<open>EINVAL\<close> and the position stays.
\<close>

theorem device_ioctl_unwrapped:
  assumes "heap_ok h" "dev_ok d h" "private_data f" "healthy d" "out_offs (circ_obj d) = 0"
    and "c = unat (write_cmd s)" "k = unat (write_cmd_offset s)"
  shows "if c < length (dev_log d h) \<and> k < length (dev_log d h ! c)
    then \<exists>p. aesd_ioctl d f AESDCHAR_IOCSEEKTO (Some s) = Inr (Inr 0, f\<lparr>f_pos := p\<rparr>) \<and>
      drop (unat p) (concat (dev_log d h)) = drop k (dev_log d h ! c) @ concat (drop (Suc c) (dev_log d h))
    else aesd_ioctl d f AESDCHAR_IOCSEEKTO (Some s) = Inr (Inl EINVAL, f)"
  by (rule ioctl_unwrapped [OF assms])

theorem device_ioctl_unwrapped_witness:
  "out_offs (circ_obj (aesd_device loaded_module)) = 0 \<and>
   aesd_ioctl (aesd_device loaded_module) opened AESDCHAR_IOCSEEKTO
     (Some \<lparr>write_cmd = 0, write_cmd_offset = 0\<rparr>) = Inr (Inl EINVAL, opened)"
  using device_ioctl_unwrapped [OF loaded_ok(1,2) opened_private loaded_ok(7) loaded_offs,
      of 0 "\<lparr>write_cmd = 0, write_cmd_offset = 0\<rparr>" 0] loaded_ok(8) loaded_offs by simp

text \<open>
  C8. The seek ioctl on a full device, exactly as it behaves: the bound it checks is the length
  of the entry in array slot \<open>c\<close>, which is number \<open>c - out_offs\<close> modulo 10 of the log and not
  number \<open>c\<close>. So after the buffer has wrapped a valid command may be refused, and an offset
  behind the end of entry \<open>c\<close> may be accepted, which moves the position to 0.
\<close>

theorem device_ioctl_full:
  assumes "heap_ok h" "dev_ok d h" "private_data f" "healthy d" "length (dev_log d h) = 10"
    and "c = unat (write_cmd s)" "k = unat (write_cmd_offset s)" "c < 10"
  shows "aesd_ioctl d f AESDCHAR_IOCSEEKTO (Some s) =
    (if length (dev_log d h ! ((c + 10 - unat (out_offs (circ_obj d))) mod 10)) \<le> k
     then Inr (Inl EINVAL, f)
     else if k < length (dev_log d h ! c)
     then Inr (Inr 0, f\<lparr>f_pos := of_nat (length (concat (take c (dev_log d h))) + k)\<rparr>)
     else Inr (Inr 0, f\<lparr>f_pos := 0\<rparr>))"
proof -
  have ok: "circ_ok (circ_obj d) h" "circ_dense (circ_obj d)"
    using assms(2,4) by (auto simp: dev_ok_def healthy_def)
  from wrapped_slot [OF ok _ assms(8)] assms(5,8) aesd_ioctl_spec [OF assms(1-3), of s, folded assms(6,7)]
  show ?thesis by (auto simp: dev_log_def Let_def)
qed

theorem device_ioctl_full_witness:
  "dev_log wrapped_dev wrapped_heap ! 0 = [CHR ''a'', CHR ''b'', newline] \<and>
   aesd_ioctl wrapped_dev opened AESDCHAR_IOCSEEKTO (Some \<lparr>write_cmd = 0, write_cmd_offset = 2\<rparr>) =
     Inr (Inl EINVAL, opened) \<and>
   dev_log wrapped_dev wrapped_heap ! 1 = [newline] \<and>
   aesd_ioctl wrapped_dev opened AESDCHAR_IOCSEEKTO (Some \<lparr>write_cmd = 1, write_cmd_offset = 2\<rparr>) =
     Inr (Inr 0, opened\<lparr>f_pos := 0\<rparr>)"
proof -
  note full = device_ioctl_full [OF wrapped_heap_ok wrapped_dev_ok opened_private wrapped_healthy,
      unfolded wrapped_log]
  have "out_offs (circ_obj wrapped_dev) = 1" by (simp add: wrapped_dev_def)
  with full [of 0 "\<lparr>write_cmd = 0, write_cmd_offset = 2\<rparr>" 2]
    full [of 1 "\<lparr>write_cmd = 1, write_cmd_offset = 2\<rparr>" 2]
  show ?thesis by (simp add: wrapped_log)
qed

text \<open>
  C9. Seeking on a device without holes, for targets that fit in \<open>loff_t\<close>: the base is 0, the
  current position or the number of bytes stored, the new position is base plus offset and is
  returned. A negative target is refused with \<open>EINVAL\<close> for \<open>SEEK_SET\<close> and \<open>SEEK_CUR\<close>; for
  \<open>SEEK_END\<close> it is accepted.
\<close>

theorem device_llseek_functional:
  assumes "heap_ok h" "dev_ok d h" "private_data f" "healthy d"
    and "(whence, base) \<in> {(SEEK_SET, 0), (SEEK_CUR, sint (f_pos f)),
           (SEEK_END, int (length (concat (dev_log d h))))}"
    and "- (2 ^ 63) \<le> base + sint offset" "base + sint offset < 2 ^ 63"
  shows "aesd_llseek d f offset whence =
    (if whence \<noteq> SEEK_END \<and> base + sint offset < 0 then Inr (Inl EINVAL, f)
     else Inr (Inr (of_int (base + sint offset)), f\<lparr>f_pos := of_int (base + sint offset)\<rparr>))"
proof -
  have ok: "circ_ptr d \<noteq> NULL" "circ_ok (circ_obj d) h" using assms(2) by (auto simp: dev_ok_def)
  from dense_total [OF assms(1) ok(2)] assms(4)
  have "unat (c_size (circ_obj d)) = length (concat (dev_log d h))"
    by (simp add: healthy_def dev_log_def)
  then have "c_size (circ_obj d) = of_nat (length (concat (dev_log d h)))"
    by (metis of_nat_unat ucast_id)
  then have size: "c_size (circ_obj d) + offset = of_int (int (length (concat (dev_log d h))) + sint offset)"
    by simp
  have cur: "sint (f_pos f + offset) = sint (f_pos f) + sint offset" if "whence = SEEK_CUR"
    using that assms(5-7) sint_of_int_range [of "sint (f_pos f) + sint offset"] by simp
  show ?thesis
    using assms(3,5) ok(1) size cur
    by (auto simp: aesd_llseek_def filp_dev_def circ_deref_def bufferCircular_def)
qed

theorem device_llseek_functional_witness:
  "aesd_llseek wrapped_dev opened (- 13) SEEK_END = Inr (Inr (- 1), opened\<lparr>f_pos := - 1\<rparr>) \<and>
   aesd_llseek wrapped_dev opened (- 13) SEEK_SET = Inr (Inl EINVAL, opened)"
  using device_llseek_functional [OF wrapped_heap_ok wrapped_dev_ok opened_private wrapped_healthy, of 2 12 "- 13"]
    device_llseek_functional [OF wrapped_heap_ok wrapped_dev_ok opened_private wrapped_healthy, of 0 0 "- 13"]
  by (simp add: wrapped_log)

text \<open>
  C25. A write may report success and lose data: when the driver's own buffer is granted memory
  but the copy in the circular buffer is refused it, the write of a complete line returns its
  full count, the line is nowhere, and a full device has lost its oldest entry besides.
\<close>

theorem device_write_may_drop:
  assumes "heap_ok h" "dev_ok d h" "private_data f" "healthy d" "dev_pending d h = []"
    and "unat n \<le> length user" "newline \<in> set (take (unat n) user)"
    and "grant h (brk h)" "used h + unat n \<le> PTRDIFF_MAX" "\<not> grant h (Suc (brk h))"
  shows "\<exists>d' h'. aesd_write d f user n h = Inr (Inr n, d', h') \<and> dev_pending d' h' = [] \<and>
    dev_log d' h' = (if length (dev_log d h) = 10 then tl (dev_log d h) else dev_log d h)"
proof -
  obtain d' h' where "aesd_write d f user n h = Inr (Inr n, d', h')" "dev_pending d' h' = []"
    "dev_log d' h' = (if full (circ_obj d) then tl (dev_log d h) else dev_log d h)"
    by (rule write_dropped [OF assms])
  with healthy_full [OF assms(2,4)] show ?thesis by auto
qed

theorem device_write_may_drop_witness:
  "\<exists>d' h'. aesd_write wrapped_dev opened [newline] 1 (wrapped_heap\<lparr>grant := (\<lambda>k. k = 13)\<rparr>) = Inr (Inr 1, d', h') \<and>
    dev_log d' h' = replicate 9 [newline]"
proof -
  let ?h = "wrapped_heap\<lparr>grant := (\<lambda>k. k = 13)\<rparr>"
  have "heap_ok ?h" using wrapped_heap_ok by (simp add: heap_ok_def)
  moreover have "dev_ok wrapped_dev ?h" "dev_log wrapped_dev ?h = dev_log wrapped_dev wrapped_heap"
    "dev_pending wrapped_dev ?h = dev_pending wrapped_dev wrapped_heap"
    using dev_frame [of wrapped_dev ?h wrapped_heap] wrapped_dev_ok by simp_all
  moreover have "dev_pending wrapped_dev wrapped_heap = []"
    by (simp add: dev_pending_def wrapped_dev_def kbuf.init_ok)
  moreover have "used wrapped_heap = 204" "brk wrapped_heap = 13" by (simp_all add: wrapped_heap_def)
  ultimately show ?thesis
    using device_write_may_drop [OF _ _ opened_private wrapped_healthy, of ?h 1 "[newline]"] wrapped_log
    by (auto simp: PTRDIFF_MAX_def)
qed

text \<open>
  C26. A failed load leaks: when the second allocation of \<open>aesd_init_module\<close> is refused it returns
  \<open>ENOMEM\<close>, but the block of the circular buffer is still allocated and the device region still
  registered, and since the load failed the module's exit function will never run.
\<close>

theorem module_failed_load_leaks:
  assumes "heap_ok h" "0 \<le> rr" "kmalloc sizeof_circular h = (Ptr c, h1)" "kmalloc sizeof_temperary h1 = (NULL, h2)"
  shows "\<exists>m'. aesd_init_module rr cr m h = (Inl ENOMEM, m', h2) \<and> region m' \<and>
    blocks h c = None \<and> c \<in> dom (blocks h2)"
proof -
  note k = kmalloc_Ptr [OF assms(3,1)]
  have "blocks h2 = blocks h1" using kmalloc_NULL [OF assms(4) k(1)] by simp
  with k(4,5) assms(2-4) show ?thesis by (auto simp: aesd_init_module_def Let_def)
qed

theorem module_failed_load_leaks_witness:
  "\<exists>m' h'. aesd_init_module 0 0 unloaded_module (empty_heap (\<lambda>k. k = 0)) = (Inl ENOMEM, m', h') \<and> region m' \<and>
    0 \<in> dom (blocks h')"
proof -
  obtain h1 where h1: "kmalloc sizeof_circular (empty_heap (\<lambda>k. k = 0)) = (Ptr 0, h1)" "brk h1 = 1" "grant h1 = (\<lambda>k. k = 0)"
    by (simp add: kmalloc_def empty_heap_def Let_def sizeof_circular_def PTRDIFF_MAX_def)
  moreover obtain h2 where "kmalloc sizeof_temperary h1 = (NULL, h2)" using h1(2,3) by (simp add: kmalloc_def Let_def)
  ultimately show ?thesis
    using module_failed_load_leaks [OF heap_ok_empty, of 0 "\<lambda>k. k = 0" 0 h1 h2 0 unloaded_module] by auto
qed

section \<open>The server and the device\<close>

text \<open>
  C10. A whole connection, from the thread's start to its end: the client sends lines, each of which
  arrives whole in a \<open>recv\<close> of its own, none of them a seek command, and then closes. However the stream
  splits what it writes to the device, every line becomes one entry of the device's log, in order; after each line the client
  is sent the whole log as it then is; the thread ends, has given back all its memory with its
  \<open>clientData\<close>, and holds no mutex. The socket, however, is closed twice.
\<close>

theorem server_connection_served:
  assumes "heap_ok (uheap w)" "\<not> fileMutex w" "ample (uheap w) (2 * BUFFER_SIZE)"
    and "kernel_ok (kdevice w, opened, kheap w)" "dev_pending (kdevice w) (kheap w) = []"
    and "a \<in> dom (blocks (uheap w))" "list_all2 line_turn ts xs" "close_turn t"
    and "4 * BUFFER_SIZE + BUFFER_SIZE * length xs \<le> PTRDIFF_MAX - used (kheap w)"
    and "\<forall>t\<in>set ts. length (concat (dev_log (kdevice w) (kheap w))) + BUFFER_SIZE * length xs \<le> send_fuel t"
    and "0 < fd"
  shows "\<exists>c' w'. clientHandler fd (Ptr a) (ts @ [t]) w = Inr (Break, c', w') \<and>
    dev_log (kdevice w') (kheap w') = foldl log_push (dev_log (kdevice w) (kheap w)) xs \<and>
    concat (outbox w') = concat (outbox w) @ echoes (dev_log (kdevice w) (kheap w)) xs \<and>
    blocks (uheap w') = (blocks (uheap w))(a := None) \<and> \<not> fileMutex w' \<and> closes c' = 2"
proof -
  obtain c' w' where "clientHandler fd (Ptr a) (ts @ [t]) w = Inr (Break, c', w')"
    "dev_log (kdevice w') (kheap w') = foldl log_push (dev_log (kdevice w) (kheap w)) xs"
    "concat (outbox w') = concat (outbox w) @ echoes (dev_log (kdevice w) (kheap w)) xs"
    "blocks (uheap w') = (blocks (uheap w))(a := None)" "\<not> fileMutex w'"
    "closes c' = (if fd > 0 then 2 else 1)"
    using connection_closed [OF assms(1-9), of fd] assms(10) by blast
  with assms(11) show ?thesis by auto
qed

theorem server_connection_served_witness:
  "\<exists>c' w'. clientHandler 5 (Ptr 0) [sample_turn (Some [CHR ''a'', newline]), sample_turn (Some [])] sample_world =
      Inr (Break, c', w') \<and>
    dev_log (kdevice w') (kheap w') = [[CHR ''a'', newline]] \<and> concat (outbox w') = [CHR ''a'', newline] \<and>
    closes c' = 2"
proof -
  have t: "list_all2 line_turn [sample_turn (Some [CHR ''a'', newline])] [[CHR ''a'', newline]]"
    "close_turn (sample_turn (Some []))"
    by (simp_all add: line_turn_def data_turn_def close_turn_def sample_turn_def BUFFER_SIZE_def SEEK_CMD_PREFIX_def)
  show ?thesis
    using server_connection_served [of sample_world 0 _ _ _ 5, OF _ _ _ _ _ _ t]
      sample_uheap_ok ample_mono [OF sample_uheap_ok(3), of "2 * BUFFER_SIZE"]
      sample_kernel_ok loaded_ok(8,9) sample_room [of 1]
    by (auto simp: sample_world_def sample_turn_def BUFFER_SIZE_def log_push_def)
qed

text \<open>
  C11. A seek command, received in one piece, on any device, wrapped or not: if the driver accepts the
  command, the client is sent the log from the position that the driver sets, which is that of byte \<open>k\<close> of
  entry \<open>i\<close> if there is such a byte and otherwise the start; if the driver refuses it, nothing is sent and the
  thread goes to \<open>logAndExit\<close>. (The driver refuses it when the slot \<open>i\<close> of its array, \<open>slot_size\<close>, is not longer
  than \<open>k\<close>.) On a device that has not wrapped it is accepted exactly when there is such a byte, and the client
  is sent the rest of entry \<open>i\<close> from byte \<open>k\<close> and all later entries. In all cases the device is left as it was,
  and the thread has released the collected bytes and the mutex. (Parser, ioctl, read position and send
  loop together.)
\<close>

theorem server_seek_served:
  assumes "client_ok c w" "collected c w = []" "\<not> fileMutex w"
    and "data_turn t (SEEK_CMD_PREFIX @ dec i @ CHR '','' # dec k @ [newline])" "i < 2 ^ 32" "k < 2 ^ 32"
    and "ample (uheap w) (2 * BUFFER_SIZE)"
    and "kernel_ok (kdevice w, opened, kheap w)" "open_first t" "ahead t \<noteq> 0"
    and "log = dev_log (kdevice w) (kheap w)" "length (concat log) < send_fuel t"
    and "accepted \<longleftrightarrow> i < 10 \<and> k < slot_size log (unat (out_offs (circ_obj (kdevice w)))) i"
    and "found \<longleftrightarrow> i < length log \<and> k < length (log ! i)"
  shows "\<exists>c' w'. clientHandler_turn t c w = Inr (if accepted then Loop else LogExit ''Failed to seek in file'', c', w') \<and>
    concat (outbox w') = concat (outbox w) @
      (if \<not> accepted then [] else if found then drop k (log ! i) @ concat (drop (Suc i) log) else concat log) \<and>
    (out_offs (circ_obj (kdevice w)) = 0 \<longrightarrow> accepted = found) \<and>
    kdevice w' = kdevice w \<and> kheap w' = kheap w \<and> collected c' w' = [] \<and> \<not> fileMutex w' \<and>
    blocks (uheap w') = blocks (uheap w) |` (- temp_fp (bufferString c))"
proof -
  let ?re = "seek_reply log (dev_base (kdevice w)) i k"
  from turn_command [OF assms(1-10) assms(12) [unfolded assms(11)], folded assms(11)] obtain c' w' where
    r: "clientHandler_turn t c w = Inr (fst ?re, c', w')" "released c w c' w'" "kdevice w' = kdevice w" "kheap w' = kheap w"
    "concat (outbox w') = concat (outbox w) @ snd ?re" .
  have re: "?re = (if accepted then Loop else LogExit ''Failed to seek in file'',
      if \<not> accepted then [] else if found then drop k (log ! i) @ concat (drop (Suc i) log) else concat log)"
    using assms(13,14) locate_drop [OF locate_unique, of i log k]
    by (auto simp: seek_reply_def seek_target_def dev_base_def)
  have "length log \<le> 10" using assms(8,11) healthy_log_le by (simp add: kernel_ok_def)
  then have "accepted = found" if "out_offs (circ_obj (kdevice w)) = 0"
    using that assms(13,14) by (auto simp: slot_size_def split: if_splits)
  with r re released_ok [OF r(2)] show ?thesis
    by (intro exI [of _ c'] exI [of _ w']) (simp add: released_def other_blocks_def)
qed

text \<open>
  On a full device that has wrapped, whose first entry has three bytes and the others one: byte 2 of
  entry 0 is refused, byte 2 of entry 1, which does not exist, is accepted and sends the whole log, and the
  start of entry 2 is found.
\<close>

theorem server_seek_served_witness:
  "let w = sample_world\<lparr>kdevice := wrapped_dev, kheap := wrapped_heap\<rparr>;
       turn = \<lambda>i k. clientHandler_turn (sample_turn (Some (SEEK_CMD_PREFIX @ dec i @ CHR '','' # dec k @ [newline]))) sample_client w
   in (\<exists>c' w'. turn 0 2 = Inr (LogExit ''Failed to seek in file'', c', w') \<and> concat (outbox w') = []) \<and>
      (\<exists>c' w'. turn 1 2 = Inr (Loop, c', w') \<and> concat (outbox w') = [CHR ''a'', CHR ''b'', newline] @ replicate 9 newline) \<and>
      (\<exists>c' w'. turn 2 0 = Inr (Loop, c', w') \<and> concat (outbox w') = replicate 8 newline)"
proof -
  let ?w = "sample_world\<lparr>kdevice := wrapped_dev, kheap := wrapped_heap\<rparr>"
  let ?t = "\<lambda>i k. sample_turn (Some (SEEK_CMD_PREFIX @ dec i @ CHR '','' # dec k @ [newline]))"
  have i: "client_ok sample_client ?w" "collected sample_client ?w = []" "\<not> fileMutex ?w" "ample (uheap ?w) (2 * BUFFER_SIZE)"
    "kernel_ok (kdevice ?w, opened, kheap ?w)"
    using idle_ok(1,2) [OF sample_idle] wrapped_kernel_ok ample_mono [OF sample_uheap_ok(3), of "2 * BUFFER_SIZE"]
    by (simp_all add: client_ok_def collected_def sample_world_def)
  have t: "data_turn (?t i k) (SEEK_CMD_PREFIX @ dec i @ CHR '','' # dec k @ [newline])" "open_first (?t i k)" "ahead (?t i k) \<noteq> 0"
    "length (concat (dev_log wrapped_dev wrapped_heap)) < send_fuel (?t i k)" if "i < 10" "k < 10" for i k
    using that by (simp_all add: data_turn_def sample_turn_def BUFFER_SIZE_def prefix_chars dec_small wrapped_log)
  note served = server_seek_served [OF i(1-3) t(1) _ _ i(4,5) t(2,3) refl, simplified, OF _ _ _ _ _ _ _ _ t(4) refl refl]
  have o: "out_offs (circ_obj wrapped_dev) = 1" "outbox sample_world = []" by (simp_all add: wrapped_dev_def sample_world_def)
  note ev = slot_size_def wrapped_log o
  have rep: "newline # replicate 7 newline = replicate 8 newline" by (simp add: numeral_eq_Suc)
  have "\<exists>c' w'. clientHandler_turn (?t 0 2) sample_client ?w = Inr (LogExit ''Failed to seek in file'', c', w') \<and> concat (outbox w') = []"
    using served [of 0 2] by (auto simp: ev simp del: concat_eq_Nil_conv)
  moreover have "\<exists>c' w'. clientHandler_turn (?t 1 2) sample_client ?w = Inr (Loop, c', w') \<and>
      concat (outbox w') = [CHR ''a'', CHR ''b'', newline] @ replicate 9 newline" using served [of 1 2] by (auto simp: ev)
  moreover have "\<exists>c' w'. clientHandler_turn (?t 2 0) sample_client ?w = Inr (Loop, c', w') \<and> concat (outbox w') = replicate 8 newline"
    using served [of 2 0] by (auto simp: ev rep)
  ultimately show ?thesis by (simp add: Let_def)
qed

text \<open>
  C12. A line that arrives in two pieces is not served when its second piece comes: if bytes
  without a newline are already collected, and the rest of the line arrives with the newline at
  its end, the turn stores nothing, sends nothing and keeps collecting.
\<close>

theorem server_split_line_missed:
  assumes "client_ok c w" "data_turn t (rest @ [newline])" "newline \<notin> set (collected c w)"
    and "newline \<notin> set rest" "collected c w \<noteq> []"
    and "ample (uheap w) (2 * BUFFER_SIZE + length (collected c w))"
  shows "\<exists>c' w'. clientHandler_turn t c w = Inr (Loop, c', w') \<and>
    collected c' w' = collected c w @ rest @ [newline] \<and> outbox w' = outbox w \<and>
    kdevice w' = kdevice w \<and> kheap w' = kheap w"
proof -
  let ?xs = "rest @ [newline]"
  have len: "length ?xs < BUFFER_SIZE" using assms(2) by (simp add: data_turn_def)
  have am: "ample (uheap w) (BUFFER_SIZE + length (collected c w) + length ?xs)"
    using assms(6) len by (simp add: ample_def)
  have "take (length ?xs) (collected c w @ ?xs) = take (length ?xs) (collected c w @ rest)"
    using assms(5) by (cases "collected c w") (auto simp: take_Cons')
  then have "newline \<notin> set (take (length ?xs) (collected c w @ ?xs))"
    using assms(3,4) by (metis Un_iff in_set_takeD set_append)
  from turn_newline_missed [OF assms(1,2) am this] show ?thesis by metis
qed

theorem server_split_line_missed_witness:
  "\<exists>c' w'. clientHandler_turn (sample_turn (Some [CHR ''c'', newline])) collecting_client collecting_world =
      Inr (Loop, c', w') \<and>
    collected c' w' = ''abc'' @ [newline] \<and> outbox w' = [] \<and> kdevice w' = aesd_device loaded_module"
proof -
  have t: "data_turn (sample_turn (Some [CHR ''c'', newline])) (''c'' @ [newline])"
    by (simp add: data_turn_def sample_turn_def BUFFER_SIZE_def)
  have "ample (uheap collecting_world) (2 * BUFFER_SIZE + length (collected collecting_client collecting_world))"
    by (rule ample_mono [OF collecting_ok(3)]) (simp add: collecting_ok(2) BUFFER_SIZE_def)
  from server_split_line_missed [OF collecting_ok(1) t _ _ _ this] show ?thesis
    by (simp add: collecting_ok(2) collecting_device) blast
qed

text \<open>
  C13. A \<open>recv\<close> that fails while bytes are collected makes the server write behind the end of a
  block: the return value \<open>-1\<close> is passed on as a size before it is looked at.
\<close>

theorem server_recv_failure_overflows:
  assumes "client_ok c w" "poll_ret t \<noteq> - 1" "\<not> pipe_ready t" "sock_ready t" "received t = None"
    and "collected c w \<noteq> []" "ample (uheap w) (BUFFER_SIZE + length (collected c w))"
  shows "clientHandler_turn t c w = Inl OutOfBounds"
  by (rule turn_recv_failed [OF assms])

theorem server_recv_failure_overflows_witness:
  "clientHandler_turn (sample_turn None) collecting_client collecting_world = Inl OutOfBounds"
  using server_recv_failure_overflows [OF collecting_ok(1), of "sample_turn None"] collecting_ok(2)
    ample_mono [OF collecting_ok(3), of "BUFFER_SIZE + 2"]
  by (simp add: sample_turn_def BUFFER_SIZE_def)

end
